(* ===== verification/Prelude.thy ===== *)
theory Prelude
  imports Main "HOL-Library.Word"
begin

text \<open>
  What every component of the development shares: the outcome type of a kernel
  function, the operators that sequence kernel functions, the array loops of the C code
  as list functions, and the fact collections the component proofs add to the
  simplifier.

  A kernel function that takes a state and may call \<^verbatim>\<open>panic\<close> or give up the processor
  has type \<open>('s, 'a) kop\<close>, that is \<open>'s \<Rightarrow> ('a, 's) out\<close>:
  \<^item> \<open>Ret a s\<close>: it returned \<open>a\<close> and left the state \<open>s\<close>;
  \<^item> \<open>Panic msg\<close>: it called \<^verbatim>\<open>panic(msg)\<close>, which never returns (console.c);
  \<^item> \<open>Swtch s\<close>: it switched to the scheduler of its processor from state \<open>s\<close>
    (\<^verbatim>\<open>swtch\<close> inside \<^verbatim>\<open>sched\<close>, proc.c); what follows in the C code runs only after
    another processor or process has acted;
  \<^item> \<open>Spin s\<close>: it loops in state \<open>s\<close> until another processor acts, as \<^verbatim>\<open>acquire\<close> does
    while another processor holds the lock (spinlock.c).
\<close>

named_theorems kop_defs \<open>definitions of the sequencing operators\<close>
named_theorems keep_rules \<open>what a kernel function leaves alone\<close>
named_theorems lock_simps \<open>symbolic execution of lock operations\<close>

section \<open>Outcomes and sequencing\<close>

datatype ('a, 's) out = Ret 'a 's | Panic string | Swtch 's | Spin 's

type_synonym ('s, 'a) kop = "'s \<Rightarrow> ('a, 's) out"

definition ret :: "'a \<Rightarrow> ('s, 'a) kop" where
  "ret a s = Ret a s"

definition bindK :: "('s, 'a) kop \<Rightarrow> ('a \<Rightarrow> ('s, 'b) kop) \<Rightarrow> ('s, 'b) kop" where
  "bindK m f s =
     (case m s of Ret a t \<Rightarrow> f a t | Panic e \<Rightarrow> Panic e | Swtch t \<Rightarrow> Swtch t | Spin t \<Rightarrow> Spin t)"

definition seqK :: "('s, 'a) kop \<Rightarrow> ('s, 'b) kop \<Rightarrow> ('s, 'b) kop" where
  "seqK m n = bindK m (\<lambda>_. n)"

definition panic :: "string \<Rightarrow> ('s, 'a) kop" where
  "panic msg s = Panic msg"

definition gets :: "('s \<Rightarrow> 'a) \<Rightarrow> ('s, 'a) kop" where
  "gets f s = Ret (f s) s"

definition modify :: "('s \<Rightarrow> 's) \<Rightarrow> ('s, unit) kop" where
  "modify f s = Ret () (f s)"

text \<open>\<^verbatim>\<open>if(c) panic(msg);\<close>\<close>

definition panic_if :: "bool \<Rightarrow> string \<Rightarrow> ('s, unit) kop" where
  "panic_if c msg s = (if c then Panic msg else Ret () s)"

text \<open>A \<^verbatim>\<open>for\<close> loop over a list of indices whose body returns nothing.\<close>

fun forK :: "'i list \<Rightarrow> ('i \<Rightarrow> ('s, unit) kop) \<Rightarrow> ('s, unit) kop" where
  "forK [] body = ret ()"
| "forK (i # is) body = seqK (body i) (forK is body)"

text \<open>
  A function body as the list of its actions, run in order. Where other processors can act
  between two of them, a proof takes the list apart.
\<close>

fun stepsK :: "('s, unit) kop list \<Rightarrow> ('s, unit) kop" where
  "stepsK [] = ret ()"
| "stepsK (m # ms) = seqK m (stepsK ms)"

text \<open>
  The array search of the C code: \<^verbatim>\<open>for(p = a; p < &a[N]; p++) if(P(p)) goto found;\<close>.
  The result is the least index that satisfies \<open>P\<close>.
\<close>

fun find_from :: "nat \<Rightarrow> ('a \<Rightarrow> bool) \<Rightarrow> 'a list \<Rightarrow> nat option" where
  "find_from k P [] = None"
| "find_from k P (x # xs) = (if P x then Some k else find_from (Suc k) P xs)"

definition find_slot :: "('a \<Rightarrow> bool) \<Rightarrow> 'a list \<Rightarrow> nat option" where
  "find_slot P xs = find_from 0 P xs"

text \<open>Update of one array element through a function, as \<^verbatim>\<open>a[i].f = v\<close> does.\<close>

definition upd_at :: "nat \<Rightarrow> ('a \<Rightarrow> 'a) \<Rightarrow> 'a list \<Rightarrow> 'a list" where
  "upd_at i f xs = (if i < length xs then xs[i := f (xs ! i)] else xs)"

section \<open>Lemmas on sequencing\<close>

lemma ret_eq [simp]: "ret a s = Ret a s"
  by (simp add: ret_def)

lemma panic_eq [simp]: "panic msg s = Panic msg"
  by (simp add: panic_def)

lemma gets_eq [simp]: "gets f s = Ret (f s) s"
  by (simp add: gets_def)

lemma modify_eq [simp]: "modify f s = Ret () (f s)"
  by (simp add: modify_def)

lemma panic_if_eq [simp]: "panic_if c msg s = (if c then Panic msg else Ret () s)"
  by (simp add: panic_if_def)

lemma bindK_Ret [simp]: "m s = Ret a t \<Longrightarrow> bindK m f s = f a t"
  by (simp add: bindK_def)

lemma bindK_Panic [simp]: "m s = Panic e \<Longrightarrow> bindK m f s = Panic e"
  by (simp add: bindK_def)

lemma bindK_Swtch [simp]: "m s = Swtch t \<Longrightarrow> bindK m f s = Swtch t"
  by (simp add: bindK_def)

lemma bindK_Spin [simp]: "m s = Spin t \<Longrightarrow> bindK m f s = Spin t"
  by (simp add: bindK_def)

lemma seqK_Ret [simp]: "m s = Ret a t \<Longrightarrow> seqK m n s = n t"
  by (simp add: seqK_def)

lemma seqK_Panic [simp]: "m s = Panic e \<Longrightarrow> seqK m n s = Panic e"
  by (simp add: seqK_def)

lemma seqK_Swtch [simp]: "m s = Swtch t \<Longrightarrow> seqK m n s = Swtch t"
  by (simp add: seqK_def)

lemma seqK_Spin [simp]: "m s = Spin t \<Longrightarrow> seqK m n s = Spin t"
  by (simp add: seqK_def)

lemma bindK_assoc: "bindK (bindK m f) g = bindK m (\<lambda>a. bindK (f a) g)"
  by (rule ext) (simp add: bindK_def split: out.splits)

lemma seqK_assoc: "seqK (seqK l m) n = seqK l (seqK m n)"
  by (simp add: seqK_def bindK_assoc)

lemma seqK_ret [simp]: "seqK (ret a) m = m" and bindK_ret [simp]: "bindK (ret a) f = f a"
  by (simp_all add: fun_eq_iff)

lemma bindK_RetE [elim!]:
  assumes "bindK m f s = Ret b t"
  obtains a u where "m s = Ret a u" and "f a u = Ret b t"
  using assms by (auto simp: bindK_def split: out.splits)

lemma seqK_RetE [elim!]:
  assumes "seqK m n s = Ret b t"
  obtains a u where "m s = Ret a u" and "n u = Ret b t"
  using assms by (auto simp: seqK_def)

lemma panic_if_Ret [simp]: "(if c then Panic e else Ret a s) = Ret b t \<longleftrightarrow> \<not> c \<and> a = b \<and> s = t"
  by auto

text \<open>An invariant of a loop's body is an invariant of the loop.\<close>

lemma forK_inv:
  assumes "forK is body s = Ret u t" and "I s"
    and "\<And>i s t u. i \<in> set is \<Longrightarrow> I s \<Longrightarrow> body i s = Ret u t \<Longrightarrow> I t"
  shows "I t"
  using assms
proof (induction "is" arbitrary: s)
  case Nil
  then show ?case by simp
next
  case (Cons i "is")
  from Cons.prems(1) obtain a v where "body i s = Ret a v" and rest: "forK is body v = Ret u t"
    by auto
  with Cons.prems(2,3) have "I v" by auto
  with rest Cons.prems(3) show ?case by (intro Cons.IH [OF rest]) auto
qed

lemma forK_append: "forK (is @ js) body = seqK (forK is body) (forK js body)"
  by (induction "is") (auto simp: fun_eq_iff seqK_def bindK_def split: out.splits)

lemma stepsK_append: "stepsK (ms @ ns) = seqK (stepsK ms) (stepsK ns)"
  by (induction ms) (simp_all add: seqK_assoc)

section \<open>Lemmas on array searches\<close>

lemma find_from_Some:
  "find_from k P xs = Some i \<Longrightarrow> k \<le> i \<and> i - k < length xs \<and> P (xs ! (i - k))
     \<and> (\<forall>j < i - k. \<not> P (xs ! j))"
proof (induction xs arbitrary: k)
  case Nil
  then show ?case by simp
next
  case (Cons x xs)
  show ?case
  proof (cases "P x")
    case True
    with Cons.prems show ?thesis by simp
  next
    case False
    with Cons.prems have "find_from (Suc k) P xs = Some i" by simp
    from Cons.IH [OF this] have ih: "Suc k \<le> i" "i - Suc k < length xs" "P (xs ! (i - Suc k))"
      "\<forall>j < i - Suc k. \<not> P (xs ! j)" by auto
    from ih(1) have e: "i - k = Suc (i - Suc k)" by simp
    have "\<forall>j < i - k. \<not> P ((x # xs) ! j)"
      using ih(4) False by (auto simp: e less_Suc_eq_0_disj)
    with ih show ?thesis by (simp add: e)
  qed
qed

lemma find_from_None: "find_from k P xs = None \<longleftrightarrow> (\<forall>x \<in> set xs. \<not> P x)"
  by (induction xs arbitrary: k) auto

lemma find_slot_Some:
  assumes "find_slot P xs = Some i"
  shows "i < length xs" and "P (xs ! i)" and "\<And>j. j < i \<Longrightarrow> \<not> P (xs ! j)"
  using find_from_Some [OF assms [unfolded find_slot_def]] by auto

lemma find_slot_None [simp]: "find_slot P xs = None \<longleftrightarrow> (\<forall>x \<in> set xs. \<not> P x)"
  by (simp add: find_slot_def find_from_None)

lemma find_slot_eqI:
  assumes "i < length xs" and "P (xs ! i)" and "\<And>j. j < i \<Longrightarrow> \<not> P (xs ! j)"
  shows "find_slot P xs = Some i"
proof (cases "find_slot P xs")
  case None
  with assms(1,2) show ?thesis by (auto dest: nth_mem)
next
  case (Some k)
  note k = find_slot_Some [OF Some]
  have "\<not> k < i" using assms(3) k(2) by blast
  moreover have "\<not> i < k" using k(3) assms(2) by blast
  ultimately show ?thesis using Some by simp
qed

lemma find_slot_exists: "i < length xs \<Longrightarrow> P (xs ! i) \<Longrightarrow> \<exists>k \<le> i. find_slot P xs = Some k"
proof -
  assume a: "i < length xs" "P (xs ! i)"
  then obtain k where k: "find_slot P xs = Some k"
    by (cases "find_slot P xs") (auto dest: nth_mem)
  with find_slot_Some(3) [OF k] a(2) show ?thesis
    by (metis leI)
qed

lemma length_upd_at [simp]: "length (upd_at i f xs) = length xs"
  by (simp add: upd_at_def)

lemma nth_upd_at: "j < length xs \<Longrightarrow> upd_at i f xs ! j = (if i = j then f (xs ! j) else xs ! j)"
  by (simp add: upd_at_def)

lemma nth_upd_at_same [simp]: "i < length xs \<Longrightarrow> upd_at i f xs ! i = f (xs ! i)"
  by (simp add: upd_at_def)

lemma nth_upd_at_other [simp]: "i \<noteq> j \<Longrightarrow> upd_at i f xs ! j = xs ! j"
  by (simp add: upd_at_def)

lemma upd_at_comp: "upd_at i f (upd_at i g xs) = upd_at i (f \<circ> g) xs"
  by (simp add: upd_at_def)

lemma map_upd_at_same: "(\<And>x. g (f x) = g x) \<Longrightarrow> map g (upd_at i f xs) = map g xs"
  by (rule nth_equalityI) (auto simp: nth_upd_at)

section \<open>What a kernel function leaves alone\<close>

text \<open>The state a kernel function leaves, if it leaves one: a panic does not.\<close>

fun outst :: "('a, 's) out \<Rightarrow> 's option" where
  "outst (Ret a s) = Some s"
| "outst (Panic e) = None"
| "outst (Swtch s) = Some s"
| "outst (Spin s) = Some s"

text \<open>\<open>keeps f m\<close>: however \<open>m\<close> ends, the observation \<open>f\<close> of the state is as before.\<close>

definition keeps :: "('s \<Rightarrow> 'b) \<Rightarrow> ('s, 'a) kop \<Rightarrow> bool" where
  "keeps f m \<longleftrightarrow> (\<forall>s t. outst (m s) = Some t \<longrightarrow> f t = f s)"

lemma keepsD: "keeps f m \<Longrightarrow> outst (m s) = Some t \<Longrightarrow> f t = f s"
  by (simp add: keeps_def)

lemma keeps_Ret: "keeps f m \<Longrightarrow> m s = Ret a t \<Longrightarrow> f t = f s"
  and keeps_Swtch: "keeps f m \<Longrightarrow> m s = Swtch t \<Longrightarrow> f t = f s"
  by (simp_all add: keeps_def)

lemma keeps_basic [keep_rules]:
  "keeps f (ret a)" "keeps f (gets g)" "keeps f (panic e)" "keeps f (panic_if c e)" "keeps f (\<lambda>s. Swtch s)" "keeps f (\<lambda>s. Spin s)"
  by (simp_all add: keeps_def)

lemma keeps_modify [keep_rules]: "(\<And>s. f (g s) = f s) \<Longrightarrow> keeps f (modify g)"
  by (simp add: keeps_def)

lemma keeps_bindK [keep_rules]: "keeps f m \<Longrightarrow> (\<And>a. keeps f (n a)) \<Longrightarrow> keeps f (bindK m n)"
  unfolding keeps_def by (fastforce simp: bindK_def split: out.splits)

lemma keeps_seqK [keep_rules]: "keeps f m \<Longrightarrow> keeps f n \<Longrightarrow> keeps f (seqK m n)"
  by (simp add: seqK_def keeps_bindK)

lemma keeps_if [keep_rules]: "(c \<Longrightarrow> keeps f m) \<Longrightarrow> (\<not> c \<Longrightarrow> keeps f n) \<Longrightarrow> keeps f (if c then m else n)"
  by simp

lemma keeps_option [keep_rules]:
  "keeps f m \<Longrightarrow> (\<And>a. keeps f (n a)) \<Longrightarrow> keeps f (case x of None \<Rightarrow> m | Some a \<Rightarrow> n a)"
  by (simp split: option.split)

lemma keeps_stepsK_nil [keep_rules]: "keeps f (stepsK [])"
  and keeps_stepsK_cons [keep_rules]: "keeps f m \<Longrightarrow> keeps f (stepsK ms) \<Longrightarrow> keeps f (stepsK (m # ms))"
  and keeps_stepsK_append [keep_rules]:
    "keeps f (stepsK ms) \<Longrightarrow> keeps f (stepsK ns) \<Longrightarrow> keeps f (stepsK (ms @ ns))"
  by (auto simp: stepsK_append intro: keep_rules)

lemma keeps_stepsK_if [keep_rules]:
  "(c \<Longrightarrow> keeps f (stepsK ms)) \<Longrightarrow> (\<not> c \<Longrightarrow> keeps f (stepsK ns)) \<Longrightarrow> keeps f (stepsK (if c then ms else ns))"
  by simp

lemma keeps_forK [keep_rules]: "(\<And>i. keeps f (body i)) \<Longrightarrow> keeps f (forK is body)"
  by (induction "is") (auto intro: keep_rules)

end
