(* ===== verification/CBytes.thy ===== *)
theory CBytes
  imports Prelude
begin

text \<open>
  Bytes, byte memories and little-endian integers. A \<open>mem\<close> is the flat memory the C
  code reads and writes through \<^verbatim>\<open>char*\<close>; addresses are natural numbers, so a pointer
  never wraps. A read-only C string is a view \<open>nat \<Rightarrow> byte\<close>: the bytes from a pointer
  on. A fixed \<^verbatim>\<open>char\<close> array or a NUL-terminated string that is kept as a list is read
  through \<open>cview\<close>, which answers NUL past the end of the list.
\<close>

unbundle bit_operations_syntax

type_synonym byte = "8 word"
type_synonym u16 = "16 word"
type_synonym u32 = "32 word"
type_synonym mem = "nat \<Rightarrow> byte"

section \<open>Views and blocks of bytes\<close>

definition cview :: "byte list \<Rightarrow> nat \<Rightarrow> byte" where
  "cview xs i = (if i < length xs then xs ! i else 0)"

text \<open>The C string at the front of a view, cut off after \<open>n\<close> bytes.\<close>

definition cstr :: "nat \<Rightarrow> (nat \<Rightarrow> byte) \<Rightarrow> byte list" where
  "cstr n x = takeWhile (\<lambda>b. b \<noteq> 0) (map x [0..<n])"

text \<open>Character literals of the C source as bytes.\<close>

definition lit :: "string \<Rightarrow> byte list" where
  "lit cs = map (\<lambda>c. of_nat (of_char c)) cs"

definition bytes_at :: "mem \<Rightarrow> nat \<Rightarrow> nat \<Rightarrow> byte list" where
  "bytes_at m a n = map m [a..<a + n]"

definition write_bytes :: "mem \<Rightarrow> nat \<Rightarrow> byte list \<Rightarrow> mem" where
  "write_bytes m a bs = (\<lambda>x. if a \<le> x \<and> x < a + length bs then bs ! (x - a) else m x)"

text \<open>\<^verbatim>\<open>memmove(blk + off, src, len)\<close> into a block that is kept as a list.\<close>

definition splice :: "byte list \<Rightarrow> nat \<Rightarrow> byte list \<Rightarrow> byte list" where
  "splice blk off src = take off blk @ src @ drop (off + length src) blk"

section \<open>Little-endian integers\<close>

definition le16 :: "nat \<Rightarrow> byte list" where
  "le16 v = [of_nat v, of_nat (v div 256)]"

definition le32 :: "nat \<Rightarrow> byte list" where
  "le32 v = [of_nat v, of_nat (v div 256), of_nat (v div 65536), of_nat (v div 16777216)]"

definition rd16 :: "(nat \<Rightarrow> byte) \<Rightarrow> nat" where
  "rd16 x = unat (x 0) + 256 * unat (x 1)"

definition rd32 :: "(nat \<Rightarrow> byte) \<Rightarrow> nat" where
  "rd32 x = unat (x 0) + 256 * unat (x 1) + 65536 * unat (x 2) + 16777216 * unat (x 3)"

text \<open>A C \<^verbatim>\<open>short\<close> holds the signed value of 16 bits.\<close>

definition to_short :: "int \<Rightarrow> int" where
  "to_short i = (i + 32768) mod 65536 - 32768"

section \<open>Lemmas\<close>

lemma length_lit [simp]: "length (lit cs) = length cs"
  by (simp add: lit_def)

lemma length_bytes_at [simp]: "length (bytes_at m a n) = n"
  by (simp add: bytes_at_def)

lemma nth_bytes_at [simp]: "i < n \<Longrightarrow> bytes_at m a n ! i = m (a + i)"
  by (simp add: bytes_at_def)

lemma write_bytes_Nil [simp]: "write_bytes m a [] = m"
  by (rule ext) (auto simp: write_bytes_def)

lemma write_bytes_Cons: "write_bytes m a (b # bs) = write_bytes (m(a := b)) (Suc a) bs"
  by (rule ext) (auto simp: write_bytes_def nth_Cons' Suc_diff_Suc)

lemma write_bytes_in: "i < length bs \<Longrightarrow> write_bytes m a bs (a + i) = bs ! i"
  by (simp add: write_bytes_def)

lemma write_bytes_out: "x < a \<or> a + length bs \<le> x \<Longrightarrow> write_bytes m a bs x = m x"
  by (auto simp: write_bytes_def)

lemma bytes_at_write: "bytes_at (write_bytes m a bs) a (length bs) = bs"
  by (rule nth_equalityI) (auto simp: write_bytes_in)

lemma cview_less [simp]: "i < length xs \<Longrightarrow> cview xs i = xs ! i"
  by (simp add: cview_def)

lemma cview_ge [simp]: "length xs \<le> i \<Longrightarrow> cview xs i = 0"
  by (simp add: cview_def)

lemma cstr_0 [simp]: "cstr 0 x = []"
  by (simp add: cstr_def)

lemma cstr_Suc:
  "cstr (Suc n) x = (if x 0 = 0 then [] else x 0 # cstr n (\<lambda>i. x (Suc i)))"
  by (simp add: cstr_def map_upt_Suc del: upt_Suc)

lemma length_cstr_le: "length (cstr n x) \<le> n"
  by (induction n arbitrary: x) (auto simp: cstr_Suc)

lemma cstr_nonzero: "b \<in> set (cstr n x) \<Longrightarrow> b \<noteq> 0"
  by (auto simp: cstr_def dest: set_takeWhileD)

lemma cstr_cong: "(\<And>i. i < n \<Longrightarrow> x i = y i) \<Longrightarrow> cstr n x = cstr n y"
  unfolding cstr_def by (rule arg_cong [where f = "takeWhile _"]) simp

lemma cstr_cview:
  assumes "0 \<notin> set xs" and "length xs \<le> n"
  shows "cstr n (cview (xs @ replicate k 0)) = xs"
  using assms
proof (induction n arbitrary: xs)
  case 0
  then show ?case by simp
next
  case (Suc n)
  show ?case
  proof (cases xs)
    case Nil
    then show ?thesis by (simp add: cstr_Suc cview_def)
  next
    case (Cons b bs)
    have "(\<lambda>i. cview (xs @ replicate k 0) (Suc i)) = cview (bs @ replicate k 0)"
      by (auto simp: cview_def Cons)
    with Suc.IH [of bs] Suc.prems Cons show ?thesis
      by (simp add: cstr_Suc)
  qed
qed

lemma cstr_cview_self: "0 \<notin> set xs \<Longrightarrow> length xs \<le> n \<Longrightarrow> cstr n (cview xs) = xs"
  using cstr_cview [of xs n 0] by simp

text \<open>Reading the encoded integers back.\<close>

lemma length_le16 [simp]: "length (le16 v) = 2"
  by (simp add: le16_def)

lemma length_le32 [simp]: "length (le32 v) = 4"
  by (simp add: le32_def)

lemma rd16_le16: "v < 65536 \<Longrightarrow> rd16 (\<lambda>i. (le16 v @ r) ! i) = v"
proof -
  assume v: "v < 65536"
  have "v div 256 < 256" using v by (simp add: less_mult_imp_div_less)
  then have "v mod 256 + 256 * (v div 256 mod 256) = v" by simp
  then show ?thesis by (simp add: rd16_def le16_def unat_of_nat)
qed

lemma byte_digits: "v < 4294967296 \<Longrightarrow>
    v mod 256 + 256 * (v div 256 mod 256) + 65536 * (v div 65536 mod 256)
      + 16777216 * (v div 16777216 mod 256) = (v::nat)"
proof -
  assume v: "v < 4294967296"
  have a: "v div 65536 = v div 256 div 256" "v div 16777216 = v div 256 div 256 div 256"
    by (simp_all add: div_mult2_eq [symmetric])
  have "v div 256 div 256 div 256 < 256" using v by (simp add: div_mult2_eq [symmetric] less_mult_imp_div_less)
  then have b: "v div 256 div 256 div 256 mod 256 = v div 256 div 256 div 256" by simp
  have c: "v = 256 * (v div 256) + v mod 256"
    "v div 256 = 256 * (v div 256 div 256) + v div 256 mod 256"
    "v div 256 div 256 = 256 * (v div 256 div 256 div 256) + v div 256 div 256 mod 256"
    by simp_all
  show ?thesis unfolding a b using c by linarith
qed

lemma rd32_le32: "v < 4294967296 \<Longrightarrow> rd32 (\<lambda>i. (le32 v @ r) ! i) = v"
  using byte_digits [of v] by (simp add: rd32_def le32_def unat_of_nat)

lemma unat_u32_less: "unat (w :: u32) < 4294967296"
  by (rule order_less_le_trans [OF unsigned_less]) simp

lemma rd32_cong: "(\<And>i. i < 4 \<Longrightarrow> x i = y i) \<Longrightarrow> rd32 x = rd32 y"
  by (simp add: rd32_def)

lemma rd32_bound: "rd32 x < 4294967296"
proof -
  have "unat (x i) < 256" for i using unsigned_less [of "x i"] by simp
  from this [of 0] this [of 1] this [of 2] this [of 3] show ?thesis
    by (simp add: rd32_def)
qed

lemma to_short_id [simp]: "-32768 \<le> i \<Longrightarrow> i < 32768 \<Longrightarrow> to_short i = i"
  by (simp add: to_short_def)

lemma length_splice [simp]:
  "off + length src \<le> length blk \<Longrightarrow> length (splice blk off src) = length blk"
  by (simp add: splice_def)

lemma nth_splice:
  assumes "off + length src \<le> length blk" and "i < length blk"
  shows "splice blk off src ! i =
    (if off \<le> i \<and> i < off + length src then src ! (i - off) else blk ! i)"
  using assms by (auto simp: splice_def nth_append not_less)

text \<open>Masking the low bits of a word.\<close>

lemma and_low_mask: "(a :: u32) AND 0xFFF = take_bit 12 a" "(a :: u32) AND 0x3FF = take_bit 10 a"
  by (simp_all add: take_bit_eq_mask mask_eq_exp_minus_1)

lemma unat_and_low: "unat ((a :: u32) AND 0xFFF) = unat a mod 4096" "unat ((a :: u32) AND 0x3FF) = unat a mod 1024"
  by (simp_all add: and_low_mask take_bit_eq_mod unat_mod)

lemma split_low: "(a :: u32) AND NOT 0xFFF = a - (a AND 0xFFF)"
proof -
  have "(a AND NOT 0xFFF) AND (a AND 0xFFF) = 0" by (rule bit_word_eqI) (auto simp: bit_simps)
  then have "(a AND NOT 0xFFF) + (a AND 0xFFF) = (a AND NOT 0xFFF) OR (a AND 0xFFF)"
    by (rule disjunctive_add_eq_or)
  also have "\<dots> = a" by (rule bit_word_eqI) (auto simp: bit_simps)
  finally show ?thesis by (metis add_diff_cancel_right')
qed

lemma unat_and_high: "unat ((a :: u32) AND NOT 0xFFF) = unat a - unat a mod 4096"
proof -
  have "a AND 0xFFF \<le> a" by (simp add: word_le_nat_alt unat_and_low)
  then show ?thesis by (simp only: split_low unat_sub unat_and_low)
qed

lemma unat_drop: "unat (drop_bit n (a::u32)) = unat a div 2 ^ n"
  unfolding unat_drop_bit_eq by (rule drop_bit_eq_div)

end
