(* ===== verification/StringLib.thy ===== *)
theory StringLib
  imports CBytes
begin

text \<open>
  The kernel's string.c and the string part of the user library ulib.c. Each C loop is
  one recursive function over the number of bytes left. The lemmas give every routine a
  closed form, independent of the loop, which the rest of the development uses.
\<close>

section \<open>string.c\<close>

text \<open>x86.h \<^verbatim>\<open>stosb\<close> and \<^verbatim>\<open>stosl\<close>: the \<^verbatim>\<open>rep stos\<close> instructions store \<open>n\<close> bytes or words.\<close>

fun stosb :: "mem \<Rightarrow> nat \<Rightarrow> byte \<Rightarrow> nat \<Rightarrow> mem" where
  "stosb m a c 0 = m"
| "stosb m a c (Suc n) = stosb (m(a := c)) (a + 1) c n"

fun stosl :: "mem \<Rightarrow> nat \<Rightarrow> u32 \<Rightarrow> nat \<Rightarrow> mem" where
  "stosl m a w 0 = m"
| "stosl m a w (Suc n) =
     stosl (m(a := ucast w, a + 1 := ucast (drop_bit 8 w), a + 2 := ucast (drop_bit 16 w),
              a + 3 := ucast (drop_bit 24 w))) (a + 4) w n"

definition memset :: "mem \<Rightarrow> nat \<Rightarrow> u32 \<Rightarrow> nat \<Rightarrow> mem" where
  "memset m dst c n =
     (if dst mod 4 = 0 \<and> n mod 4 = 0
      then let c = c AND 0xFF
           in stosl m dst (push_bit 24 c OR push_bit 16 c OR push_bit 8 c OR c) (n div 4)
      else stosb m dst (ucast c) n)"

fun memcmp :: "mem \<Rightarrow> nat \<Rightarrow> nat \<Rightarrow> nat \<Rightarrow> int" where
  "memcmp m s1 s2 0 = 0"
| "memcmp m s1 s2 (Suc n) =
     (if m s1 \<noteq> m s2 then uint (m s1) - uint (m s2) else memcmp m (s1 + 1) (s2 + 1) n)"

fun memmove_down :: "mem \<Rightarrow> nat \<Rightarrow> nat \<Rightarrow> nat \<Rightarrow> mem" where
  "memmove_down m d s 0 = m"
| "memmove_down m d s (Suc n) = memmove_down (m(d - 1 := m (s - 1))) (d - 1) (s - 1) n"

fun memmove_up :: "mem \<Rightarrow> nat \<Rightarrow> nat \<Rightarrow> nat \<Rightarrow> mem" where
  "memmove_up m d s 0 = m"
| "memmove_up m d s (Suc n) = memmove_up (m(d := m s)) (d + 1) (s + 1) n"

definition memmove :: "mem \<Rightarrow> nat \<Rightarrow> nat \<Rightarrow> nat \<Rightarrow> mem" where
  "memmove m dst src n =
     (if src < dst \<and> src + n > dst then memmove_down m (dst + n) (src + n) n
      else memmove_up m dst src n)"

definition memcpy :: "mem \<Rightarrow> nat \<Rightarrow> nat \<Rightarrow> nat \<Rightarrow> mem" where
  "memcpy m dst src n = memmove m dst src n"

fun strncmp :: "(nat \<Rightarrow> byte) \<Rightarrow> (nat \<Rightarrow> byte) \<Rightarrow> nat \<Rightarrow> int" where
  "strncmp p q 0 = 0"
| "strncmp p q (Suc n) =
     (if p 0 \<noteq> 0 \<and> p 0 = q 0 then strncmp (\<lambda>i. p (Suc i)) (\<lambda>i. q (Suc i)) n
      else uint (p 0) - uint (q 0))"

fun strncpy_pad :: "mem \<Rightarrow> nat \<Rightarrow> nat \<Rightarrow> mem" where
  "strncpy_pad m s 0 = m"
| "strncpy_pad m s (Suc n) = strncpy_pad (m(s := 0)) (s + 1) n"

fun strncpy :: "mem \<Rightarrow> nat \<Rightarrow> nat \<Rightarrow> nat \<Rightarrow> mem" where
  "strncpy m s t 0 = m"
| "strncpy m s t (Suc n) =
     (if m t \<noteq> 0 then strncpy (m(s := m t)) (s + 1) (t + 1) n
      else strncpy_pad (m(s := m t)) (s + 1) n)"

text \<open>The loop of \<^verbatim>\<open>safestrcpy\<close> after its first \<^verbatim>\<open>--n\<close>; \<^verbatim>\<open>n <= 0\<close> returns at once.\<close>

fun safestrcpy_loop :: "mem \<Rightarrow> nat \<Rightarrow> nat \<Rightarrow> nat \<Rightarrow> mem" where
  "safestrcpy_loop m s t 0 = m(s := 0)"
| "safestrcpy_loop m s t (Suc k) =
     (if m t \<noteq> 0 then safestrcpy_loop (m(s := m t)) (s + 1) (t + 1) k
      else m(s := m t, s + 1 := 0))"

definition safestrcpy :: "mem \<Rightarrow> nat \<Rightarrow> nat \<Rightarrow> int \<Rightarrow> mem" where
  "safestrcpy m s t n = (if n \<le> 0 then m else safestrcpy_loop m s t (nat n - 1))"

partial_function (option) strlen_from :: "(nat \<Rightarrow> byte) \<Rightarrow> nat \<Rightarrow> nat option" where
  "strlen_from s n = (if s n = 0 then Some n else strlen_from s (n + 1))"

definition strlen :: "(nat \<Rightarrow> byte) \<Rightarrow> nat option" where
  "strlen s = strlen_from s 0"

section \<open>The bytes a fixed array holds after a copy\<close>

text \<open>
  \<^verbatim>\<open>strncpy(a, t, n)\<close> into a \<^verbatim>\<open>char a[n]\<close> that does not overlap \<open>t\<close> leaves these bytes
  in \<open>a\<close>; \<^verbatim>\<open>safestrcpy\<close> leaves its bytes up to and including the final NUL.
\<close>

definition strncpy_bytes :: "nat \<Rightarrow> (nat \<Rightarrow> byte) \<Rightarrow> byte list" where
  "strncpy_bytes n t = cstr n t @ replicate (n - length (cstr n t)) 0"

definition strncpy_arr :: "byte list \<Rightarrow> (nat \<Rightarrow> byte) \<Rightarrow> nat \<Rightarrow> byte list" where
  "strncpy_arr a t n = splice a 0 (strncpy_bytes n t)"

definition safestrcpy_bytes :: "nat \<Rightarrow> (nat \<Rightarrow> byte) \<Rightarrow> byte list" where
  "safestrcpy_bytes n t =
     (let c = cstr (n - 1) t in if length c < n - 1 then c @ [0, 0] else c @ [0])"

definition safestrcpy_arr :: "byte list \<Rightarrow> (nat \<Rightarrow> byte) \<Rightarrow> nat \<Rightarrow> byte list" where
  "safestrcpy_arr a t n = (if n = 0 then a else splice a 0 (safestrcpy_bytes n t))"

section \<open>ulib.c\<close>

text \<open>User-level strings are kept as the list of bytes before the terminating NUL.\<close>

definition strcpy_u :: "mem \<Rightarrow> nat \<Rightarrow> byte list \<Rightarrow> mem" where
  "strcpy_u m s t = write_bytes m s (t @ [0])"

fun strcmp_u :: "byte list \<Rightarrow> byte list \<Rightarrow> int" where
  "strcmp_u [] [] = 0"
| "strcmp_u [] (q # qs) = - uint q"
| "strcmp_u (p # ps) [] = uint p"
| "strcmp_u (p # ps) (q # qs) = (if p = q then strcmp_u ps qs else uint p - uint q)"

fun strchr_u :: "byte list \<Rightarrow> byte \<Rightarrow> nat option" where
  "strchr_u [] c = None"
| "strchr_u (x # xs) c = (if x = c then Some 0 else map_option Suc (strchr_u xs c))"

text \<open>
  \<^verbatim>\<open>n*10 + *s++ - '0'\<close> is evaluated from the left in \<^verbatim>\<open>int\<close>; where a sum leaves the type the C
  code is undefined, and the result is \<open>None\<close>.
\<close>

fun atoi_loop :: "int \<Rightarrow> byte list \<Rightarrow> int option" where
  "atoi_loop n [] = Some n"
| "atoi_loop n (c # cs) =
     (if 48 \<le> c \<and> c \<le> 57 then
        if n * 10 + uint c \<le> 2147483647 then atoi_loop (n * 10 + uint c - 48) cs else None
      else Some n)"

definition atoi :: "byte list \<Rightarrow> int option" where
  "atoi s = atoi_loop 0 s"

text \<open>
  \<^verbatim>\<open>gets(buf, max)\<close> on the bytes that the successive \<^verbatim>\<open>read(0, &c, 1)\<close> calls return; the
  list ends where \<^verbatim>\<open>read\<close> returns less than 1. The result is the buffer before its NUL.
\<close>

fun gets_loop :: "nat \<Rightarrow> byte list \<Rightarrow> byte list" where
  "gets_loop i [] = []"
| "gets_loop 0 (c # cs) = []"
| "gets_loop (Suc i) (c # cs) = (if c = 10 \<or> c = 13 then [c] else c # gets_loop i cs)"

definition gets_u :: "int \<Rightarrow> byte list \<Rightarrow> byte list" where
  "gets_u mx inp = gets_loop (nat (mx - 1)) inp"

definition memset_u :: "mem \<Rightarrow> nat \<Rightarrow> u32 \<Rightarrow> nat \<Rightarrow> mem" where
  "memset_u m dst c n = stosb m dst (ucast c) n"

definition memmove_u :: "mem \<Rightarrow> nat \<Rightarrow> nat \<Rightarrow> int \<Rightarrow> mem" where
  "memmove_u m vdst vsrc n = memmove_up m vdst vsrc (nat n)"

section \<open>Closed forms\<close>

lemma stosb_eq: "stosb m a c n = write_bytes m a (replicate n c)"
  by (induction n arbitrary: m a) (simp_all add: write_bytes_Cons)

lemma stosl_eq:
  assumes "ucast w = c" and "ucast (drop_bit 8 w) = c" and "ucast (drop_bit 16 w) = c"
    and "ucast (drop_bit 24 w) = c"
  shows "stosl m a w n = write_bytes m a (replicate (4 * n) c)"
  using assms
proof (induction n arbitrary: m a)
  case 0
  then show ?case by simp
next
  case (Suc n)
  have "replicate (4 * Suc n) c = c # c # c # c # replicate (4 * n) c"
    by (simp add: numeral_eq_Suc)
  with Suc show ?case by (simp add: write_bytes_Cons eval_nat_numeral)
qed

lemma bit_255: "bit (255 :: int) n \<longleftrightarrow> n < 8"
proof -
  have "(255 :: int) = mask 8" by (simp add: mask_eq_exp_minus_1)
  then show ?thesis by (simp only: bit_mask_iff) simp
qed

lemma fill_word_bytes:
  fixes c :: u32
  defines "b \<equiv> c AND 0xFF"
  defines "w \<equiv> push_bit 24 b OR push_bit 16 b OR push_bit 8 b OR b"
  shows "ucast w = (ucast c :: byte)" "ucast (drop_bit 8 w) = (ucast c :: byte)"
    "ucast (drop_bit 16 w) = (ucast c :: byte)" "ucast (drop_bit 24 w) = (ucast c :: byte)"
  unfolding w_def b_def
  by (auto intro!: bit_word_eqI simp: bit_simps bit_255)

lemma memset_eq: "memset m dst c n = write_bytes m dst (replicate n (ucast c))"
proof (cases "dst mod 4 = 0 \<and> n mod 4 = 0")
  case True
  then have "4 * (n div 4) = n" by presburger
  with True show ?thesis
    by (simp only: memset_def Let_def stosl_eq [OF fill_word_bytes] simp_thms if_True)
next
  case False
  then show ?thesis by (auto simp: memset_def stosb_eq)
qed

lemma memmove_up_eq:
  assumes "\<not> (s < d \<and> d < s + n)"
  shows "memmove_up m d s n = write_bytes m d (bytes_at m s n)"
  using assms
proof (induction n arbitrary: m d s)
  case 0
  then show ?case by (simp add: bytes_at_def)
next
  case (Suc n)
  have "bytes_at m s (Suc n) = m s # bytes_at m (s + 1) n"
    by (rule nth_equalityI) (auto simp: nth_Cons')
  moreover have "bytes_at (m(d := m s)) (s + 1) n = bytes_at m (s + 1) n"
    using Suc.prems by (cases "n = 0") (auto simp: bytes_at_def)
  moreover have "\<not> (s + 1 < d + 1 \<and> d + 1 < s + 1 + n)"
    using Suc.prems by linarith
  ultimately show ?case
    by (simp add: write_bytes_Cons Suc.IH del: fun_upd_apply)
qed

lemma memmove_down_eq:
  assumes "s < d"
  shows "memmove_down m (d + n) (s + n) n = write_bytes m d (bytes_at m s n)"
proof (induction n arbitrary: m)
  case 0
  then show ?case by (simp add: bytes_at_def)
next
  case (Suc n)
  have "bytes_at (m(d + n := m (s + n))) s n = bytes_at m s n"
    using assms by (auto simp: bytes_at_def)
  then have "memmove_down m (d + Suc n) (s + Suc n) (Suc n)
      = write_bytes (m(d + n := m (s + n))) d (bytes_at m s n)"
    by (simp add: Suc.IH del: fun_upd_apply)
  also have "\<dots> = write_bytes m d (bytes_at m s (Suc n))"
    by (rule ext) (auto simp: write_bytes_def less_Suc_eq nth_append bytes_at_def)
  finally show ?case .
qed

lemma memmove_eq: "memmove m d s n = write_bytes m d (bytes_at m s n)"
  using memmove_down_eq [of s d m n] memmove_up_eq [of s d n m]
  by (auto simp: memmove_def)

lemma strncmp_0_iff: "strncmp p q n = 0 \<longleftrightarrow> cstr n p = cstr n q"
proof (induction n arbitrary: p q)
  case 0
  then show ?case by simp
next
  case (Suc n)
  show ?case
  proof (cases "p 0 \<noteq> 0 \<and> p 0 = q 0")
    case True
    then show ?thesis using Suc by (simp add: cstr_Suc)
  next
    case False
    then have "strncmp p q (Suc n) = 0 \<longleftrightarrow> p 0 = q 0"
      by (auto simp: word_uint_eq_iff)
    with False show ?thesis by (auto simp: cstr_Suc)
  qed
qed

lemma strncmp_sym_0: "strncmp p q n = 0 \<longleftrightarrow> strncmp q p n = 0"
  by (auto simp: strncmp_0_iff)

lemma strncpy_pad_eq: "strncpy_pad m s n = write_bytes m s (replicate n 0)"
  by (induction n arbitrary: m s) (simp_all add: write_bytes_Cons)

lemma strncpy_bytes_Suc:
  "strncpy_bytes (Suc n) t =
     (if t 0 = 0 then replicate (Suc n) 0 else t 0 # strncpy_bytes n (\<lambda>i. t (Suc i)))"
  by (simp add: strncpy_bytes_def cstr_Suc)

lemma length_strncpy_bytes [simp]: "length (strncpy_bytes n t) = n"
  using length_cstr_le [of n t] by (simp add: strncpy_bytes_def)

lemma strncpy_bytes_cong: "(\<And>i. i < n \<Longrightarrow> x i = y i) \<Longrightarrow> strncpy_bytes n x = strncpy_bytes n y"
  using cstr_cong [of n x y] by (simp add: strncpy_bytes_def)

lemma strncpy_eq:
  assumes "s + n \<le> t \<or> t + n \<le> s"
  shows "strncpy m s t n = write_bytes m s (strncpy_bytes n (\<lambda>i. m (t + i)))"
  using assms
proof (induction n arbitrary: m s t)
  case 0
  then show ?case by (simp add: strncpy_bytes_def)
next
  case (Suc n)
  have "strncpy_bytes n (\<lambda>i. (m(s := m t)) (t + 1 + i)) = strncpy_bytes n (\<lambda>i. m (t + Suc i))"
    using Suc.prems by (intro strncpy_bytes_cong) auto
  with Suc.IH [of "s + 1" "t + 1" "m(s := m t)"] Suc.prems show ?case
    by (auto simp: strncpy_bytes_Suc strncpy_pad_eq write_bytes_Cons simp del: fun_upd_apply)
qed

lemma cstr_strncpy_bytes: "cstr n (cview (strncpy_bytes n t)) = cstr n t"
  using length_cstr_le [of n t] cstr_nonzero [of 0 n t]
  by (auto simp: strncpy_bytes_def intro!: cstr_cview)

lemma length_strncpy_arr [simp]: "n \<le> length a \<Longrightarrow> length (strncpy_arr a t n) = length a"
  by (simp add: strncpy_arr_def)

lemma strncpy_arr_full [simp]: "length a = n \<Longrightarrow> strncpy_arr a t n = strncpy_bytes n t"
  by (simp add: strncpy_arr_def splice_def)

lemma cview_append_left: "i < length xs \<Longrightarrow> cview (xs @ ys) i = cview xs i"
  by (simp add: cview_def nth_append)

lemma cstr_strncpy_arr: "n \<le> length a \<Longrightarrow> cstr n (cview (strncpy_arr a t n)) = cstr n t"
proof -
  assume "n \<le> length a"
  have "cstr n (cview (strncpy_arr a t n)) = cstr n (cview (strncpy_bytes n t))"
    by (rule cstr_cong) (simp add: strncpy_arr_def splice_def cview_def nth_append)
  then show ?thesis by (simp add: cstr_strncpy_bytes)
qed

lemma safestrcpy_loop_eq:
  assumes "s + Suc k \<le> t \<or> t + Suc k \<le> s"
  shows "safestrcpy_loop m s t k =
    write_bytes m s (safestrcpy_bytes (Suc k) (\<lambda>i. m (t + i)))"
  using assms
proof (induction k arbitrary: m s t)
  case 0
  then show ?case by (simp add: safestrcpy_bytes_def write_bytes_Cons)
next
  case (Suc k)
  have "cstr k (\<lambda>i. (m(s := m t)) (t + 1 + i)) = cstr k (\<lambda>i. m (t + Suc i))"
    using Suc.prems by (intro cstr_cong) auto
  with Suc.IH [of "s + 1" "t + 1" "m(s := m t)"] Suc.prems show ?case
    by (auto simp: safestrcpy_bytes_def Let_def cstr_Suc write_bytes_Cons simp del: fun_upd_apply)
qed

lemma strlen_from_eq:
  assumes "s k = 0" and "n \<le> k" and "\<And>i. n \<le> i \<Longrightarrow> i < k \<Longrightarrow> s i \<noteq> 0"
  shows "strlen_from s n = Some k"
  using assms
proof (induction "k - n" arbitrary: n)
  case 0
  then show ?case by (simp add: strlen_from.simps)
next
  case (Suc d)
  then have "strlen_from s (n + 1) = Some k" by (intro Suc.hyps(1)) auto
  with Suc show ?case by (subst strlen_from.simps) auto
qed

lemma strlen_eq: "s k = 0 \<Longrightarrow> (\<And>i. i < k \<Longrightarrow> s i \<noteq> 0) \<Longrightarrow> strlen s = Some k"
  by (auto simp: strlen_def intro: strlen_from_eq)

lemma strcmp_u_0_iff: "strcmp_u p q = 0 \<longleftrightarrow> p = q" if "0 \<notin> set p" "0 \<notin> set q"
  using that by (induction p q rule: strcmp_u.induct) (auto simp: word_uint_eq_iff)

end
