(* ===== verification/Spinlock.thy ===== *)
theory Spinlock
  imports Prelude
begin

text \<open>
  spinlock.c on a machine with several processors, and \<^verbatim>\<open>mycpu\<close> of proc.c, which it
  calls. A processor is known to the hardware by its local APIC id \<open>a\<close>; the interrupt
  flag of its \<^verbatim>\<open>EFLAGS\<close> is \<open>eflags_if m a\<close>. The table \<open>cpus\<close> is proc.h's
  \<^verbatim>\<open>struct cpu cpus[NCPU]\<close>, of which the lock code uses \<^verbatim>\<open>apicid\<close>, \<^verbatim>\<open>ncli\<close> and
  \<^verbatim>\<open>intena\<close>. A lock keeps \<^verbatim>\<open>locked\<close> and \<^verbatim>\<open>cpu\<close>; its name and the call stack it records
  are debugging output and are left out. The type of lock names is a parameter.

  The first part translates the functions. The second part states what client code
  relies on as the locale \<open>lock_interface\<close> and interprets it on these functions. The
  third part breaks \<^verbatim>\<open>acquire\<close> and \<^verbatim>\<open>release\<close> into their memory operations and proves
  mutual exclusion for every interleaving of the processors.
\<close>

section \<open>Data and functions\<close>

record cpu =
  apicid :: nat
  ncli :: int
  intena :: bool

record spinlock =
  locked :: bool
  lk_cpu :: "nat option"

record 'l machine =
  eflags_if :: "nat \<Rightarrow> bool"
  cpus :: "cpu list"
  lks :: "'l \<Rightarrow> spinlock"

text \<open>x86.h \<^verbatim>\<open>cli\<close> and \<^verbatim>\<open>sti\<close> on the processor with APIC id \<open>a\<close>.\<close>

definition cli :: "nat \<Rightarrow> ('l machine, unit) kop" where
  "cli a = modify (\<lambda>m. m\<lparr>eflags_if := (eflags_if m)(a := False)\<rparr>)"

definition sti :: "nat \<Rightarrow> ('l machine, unit) kop" where
  "sti a = modify (\<lambda>m. m\<lparr>eflags_if := (eflags_if m)(a := True)\<rparr>)"

definition mycpu :: "nat \<Rightarrow> ('l machine, nat) kop" where
  "mycpu a =
     seqK (bindK (gets (\<lambda>m. eflags_if m a)) (\<lambda>fl. panic_if fl ''mycpu called with interrupts enabled''))
     (bindK (gets (\<lambda>m. find_slot (\<lambda>c. apicid c = a) (cpus m)))
     (\<lambda>r. case r of Some i \<Rightarrow> ret i | None \<Rightarrow> panic ''unknown apicid''))"

definition upd_cpu :: "nat \<Rightarrow> (cpu \<Rightarrow> cpu) \<Rightarrow> ('l machine, unit) kop" where
  "upd_cpu i f = modify (\<lambda>m. m\<lparr>cpus := upd_at i f (cpus m)\<rparr>)"

definition pushcli :: "nat \<Rightarrow> ('l machine, unit) kop" where
  "pushcli a =
     bindK (gets (\<lambda>m. eflags_if m a)) (\<lambda>eflags.
     seqK (cli a)
     (bindK (mycpu a) (\<lambda>i.
     seqK (upd_cpu i (\<lambda>c. if ncli c = 0 then c\<lparr>intena := eflags\<rparr> else c))
          (upd_cpu i (\<lambda>c. c\<lparr>ncli := ncli c + 1\<rparr>)))))"

definition popcli :: "nat \<Rightarrow> ('l machine, unit) kop" where
  "popcli a =
     seqK (bindK (gets (\<lambda>m. eflags_if m a)) (\<lambda>fl. panic_if fl ''popcli - interruptible''))
     (bindK (mycpu a) (\<lambda>i.
     seqK (upd_cpu i (\<lambda>c. c\<lparr>ncli := ncli c - 1\<rparr>))
     (bindK (gets (\<lambda>m. cpus m ! i)) (\<lambda>c.
     seqK (panic_if (ncli c < 0) ''popcli'')
          (if ncli c = 0 \<and> intena c then sti a else ret ())))))"

definition holding :: "nat \<Rightarrow> 'l \<Rightarrow> ('l machine, bool) kop" where
  "holding a l =
     seqK (pushcli a)
     (bindK (mycpu a) (\<lambda>i.
      bindK (gets (\<lambda>m. locked (lks m l) \<and> lk_cpu (lks m l) = Some i)) (\<lambda>r.
      seqK (popcli a) (ret r))))"

definition initlock :: "'l \<Rightarrow> ('l machine, unit) kop" where
  "initlock l = modify (\<lambda>m. m\<lparr>lks := (lks m)(l := \<lparr>locked = False, lk_cpu = None\<rparr>)\<rparr>)"

definition upd_lock :: "'l \<Rightarrow> (spinlock \<Rightarrow> spinlock) \<Rightarrow> ('l machine, unit) kop" where
  "upd_lock l f = modify (\<lambda>m. m\<lparr>lks := (lks m)(l := f (lks m l))\<rparr>)"

text \<open>\<^verbatim>\<open>while(xchg(&lk->locked, 1) != 0);\<close>: the exchange that reads 0 leaves 1 and ends the loop.\<close>

definition xchg_locked :: "'l \<Rightarrow> ('l machine, unit) kop" where
  "xchg_locked l m =
     (if locked (lks m l) then Spin m else upd_lock l (\<lambda>k. k\<lparr>locked := True\<rparr>) m)"

definition acquire :: "nat \<Rightarrow> 'l \<Rightarrow> ('l machine, unit) kop" where
  "acquire a l =
     seqK (pushcli a)
     (seqK (bindK (holding a l) (\<lambda>h. panic_if h ''acquire''))
     (seqK (xchg_locked l)
     (bindK (mycpu a) (\<lambda>i. upd_lock l (\<lambda>k. k\<lparr>lk_cpu := Some i\<rparr>)))))"

definition release :: "nat \<Rightarrow> 'l \<Rightarrow> ('l machine, unit) kop" where
  "release a l =
     seqK (bindK (holding a l) (\<lambda>h. panic_if (\<not> h) ''release''))
     (seqK (upd_lock l (\<lambda>k. k\<lparr>lk_cpu := None\<rparr>))
     (seqK (upd_lock l (\<lambda>k. k\<lparr>locked := False\<rparr>))
     (popcli a)))"

text \<open>
  The state the lock code expects on the processor with APIC id \<open>a\<close>, entry \<open>i\<close> of the
  table: the entry exists, its nesting depth is not negative, and interrupts are off
  while the depth is positive.
\<close>

definition cpu_ok :: "nat \<Rightarrow> nat \<Rightarrow> 'l machine \<Rightarrow> bool" where
  "cpu_ok a i m \<longleftrightarrow>
     find_slot (\<lambda>c. apicid c = a) (cpus m) = Some i
     \<and> 0 \<le> ncli (cpus m ! i) \<and> (0 < ncli (cpus m ! i) \<longrightarrow> \<not> eflags_if m a)"

text \<open>The locks that processor \<open>i\<close> holds, and whether another processor has a lock.\<close>

definition holds :: "nat \<Rightarrow> 'l machine \<Rightarrow> 'l set" where
  "holds i m = {l. locked (lks m l) \<and> lk_cpu (lks m l) = Some i}"

definition lock_avail :: "nat \<Rightarrow> 'l machine \<Rightarrow> 'l \<Rightarrow> bool" where
  "lock_avail i m l \<longleftrightarrow> l \<in> holds i m \<or> \<not> locked (lks m l)"

text \<open>The state that \<^verbatim>\<open>pushcli\<close> leaves, in closed form.\<close>

definition pushed :: "nat \<Rightarrow> nat \<Rightarrow> 'l machine \<Rightarrow> 'l machine" where
  "pushed a i m = m\<lparr>eflags_if := (eflags_if m)(a := False),
     cpus := upd_at i (\<lambda>c. c\<lparr>intena := if ncli c = 0 then eflags_if m a else intena c,
       ncli := ncli c + 1\<rparr>) (cpus m)\<rparr>"

fun nest :: "nat \<Rightarrow> ('s, unit) kop \<Rightarrow> ('s, unit) kop" where
  "nest 0 f = ret ()"
| "nest (Suc n) f = seqK f (nest n f)"

section \<open>pushcli and popcli\<close>

lemma ncli_upd_same [simp]: "ncli c = k \<Longrightarrow> c\<lparr>intena := x, ncli := k\<rparr> = c\<lparr>intena := x\<rparr>"
  by (cases c) simp

lemma find_slot_upd_cpu:
  assumes "\<And>c. apicid (f c) = apicid c"
  shows "find_slot (\<lambda>c. apicid c = a) (upd_at i f cs) = find_slot (\<lambda>c. apicid c = a) cs"
proof (cases "find_slot (\<lambda>c. apicid c = a) cs")
  case None
  then have "\<forall>c \<in> set (upd_at i f cs). apicid c \<noteq> a"
    using assms by (auto simp: upd_at_def dest!: set_update_subset_insert [THEN subsetD])
  then have "find_slot (\<lambda>c. apicid c = a) (upd_at i f cs) = None" by simp
  with None show ?thesis by (simp only:)
next
  case (Some k)
  note k = find_slot_Some [OF Some]
  show ?thesis unfolding Some
    by (rule find_slot_eqI) (use k assms in \<open>auto simp: nth_upd_at\<close>)
qed

lemma cpu_okD:
  assumes "cpu_ok a i m"
  shows "i < length (cpus m)" and "apicid (cpus m ! i) = a"
  using assms find_slot_Some [of _ "cpus m" i] by (auto simp: cpu_ok_def)

lemma mycpu_ok: "cpu_ok a i m \<Longrightarrow> \<not> eflags_if m a \<Longrightarrow> mycpu a m = Ret i m"
  by (simp add: mycpu_def cpu_ok_def)

lemma cpu_ok_pushed: "cpu_ok a i m \<Longrightarrow> cpu_ok a i (pushed a i m)"
  using cpu_okD [of a i m]
  by (auto simp: cpu_ok_def pushed_def find_slot_upd_cpu)

lemma pushcli_ok:
  assumes "cpu_ok a i m"
  shows "pushcli a m = Ret () (pushed a i m)"
proof -
  have "mycpu a (m\<lparr>eflags_if := (eflags_if m)(a := False)\<rparr>)
      = Ret i (m\<lparr>eflags_if := (eflags_if m)(a := False)\<rparr>)"
    using assms by (intro mycpu_ok) (auto simp: cpu_ok_def)
  moreover have "upd_at i (\<lambda>c. c\<lparr>ncli := ncli c + 1\<rparr>)
      (upd_at i (\<lambda>c. if ncli c = 0 then c\<lparr>intena := e\<rparr> else c) cs)
      = upd_at i (\<lambda>c. c\<lparr>intena := if ncli c = 0 then e else intena c, ncli := ncli c + 1\<rparr>) cs"
    for e and cs :: "cpu list"
    by (auto simp: upd_at_def)
  ultimately show ?thesis
    by (simp add: pushcli_def cli_def upd_cpu_def pushed_def)
qed

lemma popcli_eq:
  assumes "cpu_ok a i m" and "0 < ncli (cpus m ! i)"
  shows "popcli a m = Ret () (m\<lparr>
      eflags_if := (eflags_if m)(a := ncli (cpus m ! i) = 1 \<and> intena (cpus m ! i)),
      cpus := upd_at i (\<lambda>c. c\<lparr>ncli := ncli c - 1\<rparr>) (cpus m)\<rparr>)"
proof -
  have off: "\<not> eflags_if m a" using assms by (auto simp: cpu_ok_def)
  have "mycpu a m = Ret i m" using assms(1) off by (rule mycpu_ok)
  moreover have "i < length (cpus m)" by (rule cpu_okD [OF assms(1)])
  ultimately show ?thesis
    using off assms(2) by (auto simp: popcli_def upd_cpu_def sti_def fun_upd_idem)
qed

lemma popcli_pushed:
  assumes "cpu_ok a i m"
  shows "popcli a (pushed a i m) = Ret () (m\<lparr>cpus := upd_at i (\<lambda>c. c\<lparr>
      intena := if ncli c = 0 then eflags_if m a else intena c\<rparr>) (cpus m)\<rparr>)"
proof -
  have i: "i < length (cpus m)" by (rule cpu_okD [OF assms])
  with assms have "0 < ncli (cpus (pushed a i m) ! i)" by (simp add: pushed_def cpu_ok_def)
  with i assms show ?thesis
    by (auto simp: popcli_eq [OF cpu_ok_pushed [OF assms]]) 
      (auto simp: pushed_def upd_at_def cpu_ok_def fun_upd_idem)
qed

lemma popcli_cpu_ok:
  assumes "cpu_ok a i m" and "0 < ncli (cpus m ! i)" and "popcli a m = Ret u t"
  shows "cpu_ok a i t" and "ncli (cpus t ! i) = ncli (cpus m ! i) - 1" and "lks t = lks m"
proof -
  have t: "t = m\<lparr>eflags_if := (eflags_if m)(a := ncli (cpus m ! i) = 1 \<and> intena (cpus m ! i)),
      cpus := upd_at i (\<lambda>c. c\<lparr>ncli := ncli c - 1\<rparr>) (cpus m)\<rparr>"
    using assms(3) by (simp add: popcli_eq [OF assms(1,2)])
  show "cpu_ok a i t" "ncli (cpus t ! i) = ncli (cpus m ! i) - 1" "lks t = lks m"
    using assms(1,2) cpu_okD [OF assms(1)] by (auto simp: t cpu_ok_def find_slot_upd_cpu)
qed

section \<open>holding, acquire and release\<close>

lemma holds_cong: "lks m = lks n \<Longrightarrow> holds i m = holds i n"
  by (simp add: holds_def)

lemma upd_at_id: "(\<And>x. x = xs ! i \<Longrightarrow> f x = x) \<Longrightarrow> upd_at i f xs = xs"
  by (simp add: upd_at_def)

lemma intena_upd_same [simp]: "c\<lparr>intena := intena c\<rparr> = (c :: cpu)"
  by (cases c) simp

lemma holding_eq:
  assumes "cpu_ok a i m" and "0 < ncli (cpus m ! i)"
  shows "holding a l m = Ret (l \<in> holds i m) m"
proof -
  have "mycpu a (pushed a i m) = Ret i (pushed a i m)"
    using cpu_ok_pushed [OF assms(1)] by (rule mycpu_ok) (simp add: pushed_def)
  moreover have "upd_at i (\<lambda>c. c\<lparr>intena := if ncli c = 0 then eflags_if m a else intena c\<rparr>) (cpus m)
      = cpus m"
    using assms(2) by (intro upd_at_id) auto
  then have "popcli a (pushed a i m) = Ret () m"
    by (simp add: popcli_pushed [OF assms(1)])
  ultimately show ?thesis
    by (simp add: holding_def pushcli_ok [OF assms(1)]) (simp add: holds_def pushed_def)
qed

lemma ncli_pushed: "cpu_ok a i m \<Longrightarrow> ncli (cpus (pushed a i m) ! i) = ncli (cpus m ! i) + 1"
  using cpu_okD [of a i m] by (simp add: pushed_def)

lemma pushed_simps [simp]:
  "lks (pushed a i m) = lks m" "\<not> eflags_if (pushed a i m) a"
  "length (cpus (pushed a i m)) = length (cpus m)" "holds i (pushed a i m) = holds i m"
  by (simp_all add: pushed_def holds_def)

lemma acquire_eq:
  assumes "cpu_ok a i m"
  shows "acquire a l m =
    (if l \<in> holds i m then Panic ''acquire''
     else if locked (lks m l) then Spin (pushed a i m)
     else Ret () ((pushed a i m)\<lparr>lks := (lks m)(l := (lks m l)\<lparr>locked := True, lk_cpu := Some i\<rparr>)\<rparr>))"
proof -
  let ?p = "pushed a i m"
  have p: "cpu_ok a i ?p" by (rule cpu_ok_pushed [OF assms])
  have "0 < ncli (cpus ?p ! i)"
    using assms by (simp add: ncli_pushed cpu_ok_def)
  then have h: "holding a l ?p = Ret (l \<in> holds i m) ?p"
    by (simp add: holding_eq [OF p])
  have my: "mycpu a (?p\<lparr>lks := k\<rparr>) = Ret i (?p\<lparr>lks := k\<rparr>)" for k
    using p by (intro mycpu_ok) (auto simp: cpu_ok_def)
  show ?thesis
    by (simp add: acquire_def pushcli_ok [OF assms] h xchg_locked_def upd_lock_def my)
qed

lemma release_eq:
  assumes "cpu_ok a i m" and "0 < ncli (cpus m ! i)"
  shows "release a l m =
    (if l \<in> holds i m
     then popcli a (m\<lparr>lks := (lks m)(l := (lks m l)\<lparr>lk_cpu := None, locked := False\<rparr>)\<rparr>)
     else Panic ''release'')"
  by (simp add: release_def holding_eq [OF assms] upd_lock_def)

lemma holding_returns:
  assumes "cpu_ok a i m"
  shows "\<exists>t. holding a l m = Ret (l \<in> holds i m) t"
proof -
  have "mycpu a (pushed a i m) = Ret i (pushed a i m)"
    using cpu_ok_pushed [OF assms] by (rule mycpu_ok) simp
  then show ?thesis
    by (simp add: holding_def pushcli_ok [OF assms] popcli_pushed [OF assms] holds_def)
qed

text \<open>Nested \<^verbatim>\<open>pushcli\<close> and \<^verbatim>\<open>popcli\<close> calls cancel.\<close>

lemma nest_Suc: "nest (Suc n) f = seqK (nest n f) f"
proof (induction n)
  case 0
  show ?case by (simp add: fun_eq_iff seqK_def bindK_def split: out.splits)
next
  case (Suc n)
  show ?case
    by (subst nest.simps(2), subst Suc.IH) (simp add: seqK_assoc)
qed

lemma nest_push_pop_deep:
  assumes "cpu_ok a i m" and "0 < ncli (cpus m ! i)"
  shows "seqK (nest n (pushcli a)) (nest n (popcli a)) m = Ret () m"
  using assms
proof (induction n arbitrary: m)
  case 0
  then show ?case by simp
next
  case (Suc n)
  let ?p = "pushed a i m"
  have "0 < ncli (cpus ?p ! i)" using Suc.prems by (simp add: ncli_pushed)
  then have "seqK (nest n (pushcli a)) (nest n (popcli a)) ?p = Ret () ?p"
    using cpu_ok_pushed [OF Suc.prems(1)] by (intro Suc.IH)
  moreover have "upd_at i (\<lambda>c. c\<lparr>intena := if ncli c = 0 then eflags_if m a else intena c\<rparr>) (cpus m)
      = cpus m"
    using Suc.prems(2) by (intro upd_at_id) auto
  then have "popcli a ?p = Ret () m" by (simp add: popcli_pushed [OF Suc.prems(1)])
  moreover have "nest (Suc n) (pushcli a) m = nest n (pushcli a) ?p"
    by (simp add: pushcli_ok [OF Suc.prems(1)])
  ultimately show ?case
    unfolding nest_Suc [of n "popcli a"]
    by (auto simp: seqK_def bindK_def split: out.splits)
qed

text \<open>
  The invariant of a processor between calls: as many locks held as \<^verbatim>\<open>ncli\<close> counts at
  most, so a processor that holds a lock runs with interrupts off.
\<close>

definition lock_inv :: "nat \<Rightarrow> nat \<Rightarrow> 'l machine \<Rightarrow> bool" where
  "lock_inv a i m \<longleftrightarrow>
     cpu_ok a i m \<and> finite (holds i m) \<and> int (card (holds i m)) \<le> ncli (cpus m ! i)"

lemma lock_inv_pos: "lock_inv a i m \<Longrightarrow> l \<in> holds i m \<Longrightarrow> 0 < ncli (cpus m ! i)"
  using card_gt_0_iff [of "holds i m"] by (auto simp: lock_inv_def)

lemma acquire_inv:
  assumes "lock_inv a i m" and "l \<notin> holds i m" and "lock_avail i m l"
  shows "\<exists>t. acquire a l m = Ret () t \<and> lock_inv a i t \<and> holds i t = insert l (holds i m)
    \<and> (\<forall>k. lock_avail i t k = lock_avail i m k)"
proof -
  have ok: "cpu_ok a i m" using assms(1) by (simp add: lock_inv_def)
  have free: "\<not> locked (lks m l)" using assms(2,3) by (simp add: lock_avail_def)
  define t where "t = (pushed a i m)\<lparr>lks := (lks m)(l := (lks m l)\<lparr>locked := True, lk_cpu := Some i\<rparr>)\<rparr>"
  have "acquire a l m = Ret () t"
    using assms(2) free by (simp add: acquire_eq [OF ok] t_def)
  moreover have h: "holds i t = insert l (holds i m)"
    by (auto simp: holds_def t_def)
  moreover have "\<forall>k. lock_avail i t k = lock_avail i m k"
    using free by (auto simp: lock_avail_def h) (auto simp: t_def split: if_splits)
  moreover have "cpu_ok a i t"
    using cpu_ok_pushed [OF ok] by (simp add: t_def cpu_ok_def)
  moreover have "ncli (cpus t ! i) = ncli (cpus m ! i) + 1"
    by (simp add: t_def ncli_pushed [OF ok])
  ultimately show ?thesis
    using assms(1,2) by (auto simp: lock_inv_def)
qed

lemma release_inv:
  assumes "lock_inv a i m" and "l \<in> holds i m"
  shows "\<exists>t. release a l m = Ret () t \<and> lock_inv a i t \<and> holds i t = holds i m - {l}
    \<and> (\<forall>k. lock_avail i t k = lock_avail i m k)"
proof -
  have ok: "cpu_ok a i m" using assms(1) by (simp add: lock_inv_def)
  have pos: "0 < ncli (cpus m ! i)" by (rule lock_inv_pos [OF assms])
  define n where "n = m\<lparr>lks := (lks m)(l := (lks m l)\<lparr>lk_cpu := None, locked := False\<rparr>)\<rparr>"
  have nok: "cpu_ok a i n" and npos: "0 < ncli (cpus n ! i)"
    using ok pos by (simp_all add: n_def cpu_ok_def)
  obtain t where t: "popcli a n = Ret () t" using popcli_eq [OF nok npos] by simp
  note tok = popcli_cpu_ok [OF nok npos t]
  have h: "holds i t = holds i m - {l}"
    using tok(3) by (auto simp: holds_def n_def)
  have "release a l m = Ret () t"
    using assms(2) t by (simp add: release_eq [OF ok pos] n_def)
  moreover have "\<forall>k. lock_avail i t k = lock_avail i m k"
    using tok(3) assms(2) by (auto simp: lock_avail_def holds_def n_def)
  moreover have "ncli (cpus t ! i) = ncli (cpus m ! i) - 1"
    using tok(2) by (simp add: n_def)
  moreover have "int (card (holds i m - {l})) = int (card (holds i m)) - 1"
  proof -
    have "finite (holds i m)" using assms(1) by (simp add: lock_inv_def)
    with card_Suc_Diff1 [OF this assms(2)] show ?thesis by linarith
  qed
  ultimately show ?thesis
    using assms(1) tok(1) h by (auto simp: lock_inv_def)
qed

section \<open>The interface client code relies on\<close>

text \<open>
  What a critical section needs of a lock implementation: taking a lock the caller does
  not hold succeeds when no one else has it, taking one twice panics, giving back a lock
  that is held succeeds, giving back one that is not held panics.
\<close>

locale lock_interface =
  fixes acq :: "'l \<Rightarrow> ('s, unit) kop"
    and rel :: "'l \<Rightarrow> ('s, unit) kop"
    and held :: "'s \<Rightarrow> 'l set"
    and avail :: "'s \<Rightarrow> 'l \<Rightarrow> bool"
    and inv :: "'s \<Rightarrow> bool"
  assumes acq_ok: "inv s \<Longrightarrow> l \<notin> held s \<Longrightarrow> avail s l \<Longrightarrow>
      \<exists>t. acq l s = Ret () t \<and> inv t \<and> held t = insert l (held s) \<and> (\<forall>k. avail t k = avail s k)"
    and acq_self: "inv s \<Longrightarrow> l \<in> held s \<Longrightarrow> acq l s = Panic ''acquire''"
    and rel_ok: "inv s \<Longrightarrow> l \<in> held s \<Longrightarrow>
      \<exists>t. rel l s = Ret () t \<and> inv t \<and> held t = held s - {l} \<and> (\<forall>k. avail t k = avail s k)"
    and rel_other: "inv s \<Longrightarrow> l \<notin> held s \<Longrightarrow> rel l s = Panic ''release''"
begin

lemma critical_section:
  assumes "inv s" and "l \<notin> held s" and "avail s l"
    and body: "\<And>u. inv u \<Longrightarrow> held u = insert l (held s) \<Longrightarrow>
      \<exists>r v. body u = Ret r v \<and> inv v \<and> held v = held u"
  shows "\<exists>r t. seqK (acq l) (bindK body (\<lambda>r. seqK (rel l) (ret r))) s = Ret r t
    \<and> inv t \<and> held t = held s"
proof -
  obtain u where u: "acq l s = Ret () u" "inv u" "held u = insert l (held s)"
    using acq_ok [OF assms(1-3)] by blast
  obtain r v where v: "body u = Ret r v" "inv v" "held v = held u"
    using body [OF u(2,3)] by blast
  obtain t where "rel l v = Ret () t" "inv t" "held t = held v - {l}"
    using rel_ok [OF v(2), of l] v(3) u(3) by blast
  with u v assms(2) show ?thesis by auto
qed

lemma double_acquire:
  assumes "inv s" and "l \<notin> held s" and "avail s l"
  shows "seqK (acq l) (acq l) s = Panic ''acquire''"
proof -
  obtain u where "acq l s = Ret () u" "inv u" "held u = insert l (held s)"
    using acq_ok [OF assms] by blast
  then show ?thesis by (simp add: acq_self)
qed

end

interpretation sl: lock_interface "acquire a" "release a" "holds i" "lock_avail i" "lock_inv a i"
  for a i :: nat
proof unfold_locales
  fix m :: "'l machine" and l
  assume inv: "lock_inv a i m"
  then have ok: "cpu_ok a i m" by (simp add: lock_inv_def)
  show "l \<notin> holds i m \<Longrightarrow> lock_avail i m l \<Longrightarrow>
      \<exists>t. acquire a l m = Ret () t \<and> lock_inv a i t \<and> holds i t = insert l (holds i m)
        \<and> (\<forall>k. lock_avail i t k = lock_avail i m k)"
    using acquire_inv [OF inv] by blast
  show "l \<in> holds i m \<Longrightarrow> acquire a l m = Panic ''acquire''"
    by (simp add: acquire_eq [OF ok])
  show "l \<in> holds i m \<Longrightarrow>
      \<exists>t. release a l m = Ret () t \<and> lock_inv a i t \<and> holds i t = holds i m - {l}
        \<and> (\<forall>k. lock_avail i t k = lock_avail i m k)"
    by (rule release_inv [OF inv])
  show "l \<notin> holds i m \<Longrightarrow> release a l m = Panic ''release''"
    using holding_returns [OF ok, of l] by (auto simp: release_def)
qed

section \<open>Every interleaving of the processors\<close>

text \<open>
  The memory operations of \<^verbatim>\<open>acquire\<close> and \<^verbatim>\<open>release\<close> as separate steps that any
  processor may take next: the \<^verbatim>\<open>holding\<close> test, each round of the \<^verbatim>\<open>xchg\<close> loop, the
  store to \<^verbatim>\<open>lk->cpu\<close>, the store that clears it and the store that clears
  \<^verbatim>\<open>lk->locked\<close>. \<^verbatim>\<open>pushcli\<close> and \<^verbatim>\<open>popcli\<close> touch only the processor's own entry and
  are not steps. \<open>owns\<close> records which locks a processor has acquired and not yet
  released; no step reads it.
\<close>

datatype 'l lock_pc = Idle | Spinning 'l | Locking 'l | Unlocking 'l

record 'l smp =
  smp_lks :: "'l \<Rightarrow> spinlock"
  pc :: "nat \<Rightarrow> 'l lock_pc"
  owns :: "nat \<Rightarrow> 'l set"

definition smp_init :: "'l smp" where
  "smp_init = \<lparr>smp_lks = (\<lambda>_. \<lparr>locked = False, lk_cpu = None\<rparr>), pc = (\<lambda>_. Idle), owns = (\<lambda>_. {})\<rparr>"

inductive lock_step :: "'l smp \<Rightarrow> 'l smp \<Rightarrow> bool" where
  acq_start: "pc s i = Idle \<Longrightarrow> \<not> (locked (smp_lks s l) \<and> lk_cpu (smp_lks s l) = Some i) \<Longrightarrow>
    lock_step s (s\<lparr>pc := (pc s)(i := Spinning l)\<rparr>)"
| xchg_busy: "pc s i = Spinning l \<Longrightarrow> locked (smp_lks s l) \<Longrightarrow> lock_step s s"
| xchg_won: "pc s i = Spinning l \<Longrightarrow> \<not> locked (smp_lks s l) \<Longrightarrow>
    lock_step s (s\<lparr>smp_lks := (smp_lks s)(l := (smp_lks s l)\<lparr>locked := True\<rparr>),
      pc := (pc s)(i := Locking l)\<rparr>)"
| acq_done: "pc s i = Locking l \<Longrightarrow>
    lock_step s (s\<lparr>smp_lks := (smp_lks s)(l := (smp_lks s l)\<lparr>lk_cpu := Some i\<rparr>),
      pc := (pc s)(i := Idle), owns := (owns s)(i := insert l (owns s i))\<rparr>)"
| rel_start: "pc s i = Idle \<Longrightarrow> locked (smp_lks s l) \<and> lk_cpu (smp_lks s l) = Some i \<Longrightarrow>
    lock_step s (s\<lparr>smp_lks := (smp_lks s)(l := (smp_lks s l)\<lparr>lk_cpu := None\<rparr>),
      pc := (pc s)(i := Unlocking l)\<rparr>)"
| rel_done: "pc s i = Unlocking l \<Longrightarrow>
    lock_step s (s\<lparr>smp_lks := (smp_lks s)(l := (smp_lks s l)\<lparr>locked := False\<rparr>),
      pc := (pc s)(i := Idle), owns := (owns s)(i := owns s i - {l})\<rparr>)"

inductive smp_reachable :: "'l smp \<Rightarrow> bool" where
  start: "smp_reachable smp_init"
| step: "smp_reachable s \<Longrightarrow> lock_step s t \<Longrightarrow> smp_reachable t"

text \<open>The processor is past its winning \<^verbatim>\<open>xchg\<close> and before the store that frees the lock.\<close>

definition inside :: "'l smp \<Rightarrow> nat \<Rightarrow> 'l \<Rightarrow> bool" where
  "inside s i l \<longleftrightarrow> l \<in> owns s i \<or> pc s i = Locking l"

definition smp_inv :: "'l smp \<Rightarrow> bool" where
  "smp_inv s \<longleftrightarrow>
     (\<forall>i l. inside s i l \<longrightarrow> locked (smp_lks s l))
     \<and> (\<forall>i j l. inside s i l \<longrightarrow> inside s j l \<longrightarrow> i = j)
     \<and> (\<forall>i l. pc s i = Unlocking l \<longrightarrow> l \<in> owns s i)
     \<and> (\<forall>i l. pc s i = Locking l \<longrightarrow> l \<notin> owns s i)
     \<and> (\<forall>i l. lk_cpu (smp_lks s l) = Some i \<longleftrightarrow> l \<in> owns s i \<and> pc s i \<noteq> Unlocking l)"

lemma smp_inv_init: "smp_inv smp_init"
  by (simp add: smp_inv_def smp_init_def inside_def)

lemma smp_inv_step: "lock_step s t \<Longrightarrow> smp_inv s \<Longrightarrow> smp_inv t"
proof (induction rule: lock_step.induct)
  case (acq_start s i l)
  then show ?case unfolding smp_inv_def inside_def by (auto split: if_splits)
next
  case (xchg_busy s i l)
  then show ?case by simp
next
  case (xchg_won s i l)
  then show ?case unfolding smp_inv_def inside_def
    by (intro conjI allI impI; auto split: if_splits)
next
  case (acq_done s i l)
  then show ?case unfolding smp_inv_def inside_def
    by (intro conjI allI impI; auto split: if_splits)
next
  case (rel_start s i l)
  then show ?case unfolding smp_inv_def inside_def
    by (intro conjI allI impI; auto split: if_splits)
next
  case (rel_done s i l)
  then show ?case unfolding smp_inv_def inside_def
    by (intro conjI allI impI; auto split: if_splits)
qed

lemma smp_reachable_inv: "smp_reachable s \<Longrightarrow> smp_inv s"
  by (induction rule: smp_reachable.induct) (auto intro: smp_inv_init smp_inv_step)

lemma smp_reachable_own:
  "smp_reachable (smp_init\<lparr>smp_lks := (smp_lks smp_init)(l := \<lparr>locked = True, lk_cpu = Some i\<rparr>),
     owns := (owns smp_init)(i := {l})\<rparr>)"
proof -
  let ?s1 = "smp_init\<lparr>pc := (pc smp_init)(i := Spinning l)\<rparr>"
  let ?s2 = "?s1\<lparr>smp_lks := (smp_lks ?s1)(l := (smp_lks ?s1 l)\<lparr>locked := True\<rparr>),
      pc := (pc ?s1)(i := Locking l)\<rparr>"
  let ?s3 = "?s2\<lparr>smp_lks := (smp_lks ?s2)(l := (smp_lks ?s2 l)\<lparr>lk_cpu := Some i\<rparr>),
      pc := (pc ?s2)(i := Idle), owns := (owns ?s2)(i := insert l (owns ?s2 i))\<rparr>"
  have "smp_reachable ?s1"
    by (rule smp_reachable.step [OF smp_reachable.start]) (rule acq_start; simp add: smp_init_def)
  moreover have "lock_step ?s1 ?s2" by (rule xchg_won) (simp_all add: smp_init_def)
  moreover have "lock_step ?s2 ?s3" by (rule acq_done) simp
  ultimately have "smp_reachable ?s3" by (blast intro: smp_reachable.step)
  moreover have "?s3 = smp_init\<lparr>smp_lks := (smp_lks smp_init)(l := \<lparr>locked = True, lk_cpu = Some i\<rparr>),
     owns := (owns smp_init)(i := {l})\<rparr>"
    by (simp add: smp_init_def fun_eq_iff)
  ultimately show ?thesis by simp
qed

section \<open>Properties\<close>

text \<open>
  C1. Mutual exclusion of spin locks: in every state that any interleaving of the
  processors' \<^verbatim>\<open>acquire\<close> and \<^verbatim>\<open>release\<close> memory operations can reach, two processors that
  both own a lock are the same processor, and \<^verbatim>\<open>holding\<close>'s test (\<^verbatim>\<open>locked\<close> set and
  \<^verbatim>\<open>cpu\<close> equal to the caller) is true exactly of the owner, until its \<^verbatim>\<open>release\<close> has
  cleared \<^verbatim>\<open>cpu\<close>.
\<close>

theorem spinlock_mutual_exclusion:
  assumes "smp_reachable s" and "l \<in> owns s i"
  shows "(l \<in> owns s j \<longrightarrow> i = j)
    \<and> (locked (smp_lks s l) \<and> lk_cpu (smp_lks s l) = Some i \<longleftrightarrow> pc s i \<noteq> Unlocking l)"
  using smp_reachable_inv [OF assms(1)] assms(2)
  unfolding smp_inv_def inside_def by blast

theorem spinlock_mutual_exclusion_witness:
  "let s = smp_init\<lparr>smp_lks := (smp_lks smp_init)(''ptable'' := \<lparr>locked = True, lk_cpu = Some 1\<rparr>),
     owns := (owns smp_init)(1 := {''ptable''})\<rparr>
   in smp_reachable s \<and> ''ptable'' \<in> owns s 1 \<and> ''ptable'' \<notin> owns s 0
     \<and> (locked (smp_lks s ''ptable'') \<and> lk_cpu (smp_lks s ''ptable'') = Some 1)"
proof -
  let ?s = "smp_init\<lparr>smp_lks := (smp_lks smp_init)(''ptable'' := \<lparr>locked = True, lk_cpu = Some 1\<rparr>),
     owns := (owns smp_init)(1 := {''ptable''})\<rparr>"
  have r: "smp_reachable ?s" by (rule smp_reachable_own)
  have o: "''ptable'' \<in> owns ?s 1" by simp
  show ?thesis using spinlock_mutual_exclusion [OF r o, of 0] r o
    by (auto simp: Let_def smp_init_def)
qed

text \<open>
  C8. What \<^verbatim>\<open>acquire\<close> does on every branch, on a processor whose entry is in order: it
  panics when this processor already holds the lock, spins when another one has it, and
  otherwise returns with the lock marked as held by this processor, the nesting depth one
  higher and interrupts off on this processor; \<^verbatim>\<open>release\<close> then gives back exactly that
  lock and the nesting depth, and puts the interrupt flag back as it was.
\<close>

theorem acquire_release_contract:
  assumes "lock_inv a i m"
  shows "(l \<in> holds i m \<longrightarrow> acquire a l m = Panic ''acquire'')
    \<and> (l \<notin> holds i m \<and> locked (lks m l) \<longrightarrow> (\<exists>t. acquire a l m = Spin t))
    \<and> (\<not> locked (lks m l) \<longrightarrow>
        (\<exists>t. acquire a l m = Ret () t \<and> holds i t = insert l (holds i m) \<and> \<not> eflags_if t a
           \<and> ncli (cpus t ! i) = ncli (cpus m ! i) + 1
           \<and> (\<exists>u. release a l t = Ret () u \<and> holds i u = holds i m
                \<and> ncli (cpus u ! i) = ncli (cpus m ! i) \<and> eflags_if u = eflags_if m)))"
proof (intro conjI impI)
  have ok: "cpu_ok a i m" using assms by (simp add: lock_inv_def)
  show "l \<in> holds i m \<Longrightarrow> acquire a l m = Panic ''acquire''"
    by (rule sl.acq_self [OF assms])
  show "l \<notin> holds i m \<and> locked (lks m l) \<Longrightarrow> \<exists>t. acquire a l m = Spin t"
    by (simp add: acquire_eq [OF ok])
  assume free: "\<not> locked (lks m l)"
  then have nh: "l \<notin> holds i m" by (simp add: holds_def)
  define t where "t = (pushed a i m)\<lparr>lks := (lks m)(l := (lks m l)\<lparr>locked := True, lk_cpu := Some i\<rparr>)\<rparr>"
  have a: "acquire a l m = Ret () t" using free nh by (simp add: acquire_eq [OF ok] t_def)
  have "lock_avail i m l" using free by (simp add: lock_avail_def)
  with acquire_inv [OF assms nh] a have t: "lock_inv a i t" "holds i t = insert l (holds i m)" by auto
  then obtain u where u: "release a l t = Ret () u" "holds i u = holds i t - {l}"
    using release_inv [of a i t l] by auto
  have n: "ncli (cpus t ! i) = ncli (cpus m ! i) + 1" by (simp add: t_def ncli_pushed [OF ok])
  have tok: "cpu_ok a i t" "0 < ncli (cpus t ! i)"
    using t n assms by (auto simp: lock_inv_def)
  let ?v = "(pushed a i m)\<lparr>lks := (lks t)(l := (lks t l)\<lparr>lk_cpu := None, locked := False\<rparr>)\<rparr>"
  have v: "cpu_ok a i ?v" "0 < ncli (cpus ?v ! i)"
    using tok by (simp_all add: t_def cpu_ok_def)
  have "release a l t = popcli a ?v"
    using t(2) by (simp add: release_eq [OF tok]) (simp add: t_def)
  with u(1) have "popcli a ?v = Ret () u" by simp
  note pv = this popcli_eq [OF v]
  have i: "i < length (cpus m)" by (rule cpu_okD [OF ok])
  have "eflags_if u a = eflags_if m a"
    using pv i assms by (auto simp: pushed_def lock_inv_def cpu_ok_def)
  then have fl: "eflags_if u = eflags_if m"
    using pv by (auto simp: pushed_def fun_eq_iff)
  have "ncli (cpus u ! i) = ncli (cpus m ! i)"
    using pv i by (auto simp: pushed_def)
  with a t n u fl nh show "\<exists>t. acquire a l m = Ret () t \<and> holds i t = insert l (holds i m)
      \<and> \<not> eflags_if t a \<and> ncli (cpus t ! i) = ncli (cpus m ! i) + 1
      \<and> (\<exists>u. release a l t = Ret () u \<and> holds i u = holds i m
           \<and> ncli (cpus u ! i) = ncli (cpus m ! i) \<and> eflags_if u = eflags_if m)"
    by (auto simp: t_def)
qed

definition demo_machine :: "string machine" where
  "demo_machine = \<lparr>eflags_if = (\<lambda>_. True),
     cpus = [\<lparr>apicid = 0, ncli = 0, intena = False\<rparr>, \<lparr>apicid = 4, ncli = 0, intena = False\<rparr>],
     lks = (\<lambda>_. \<lparr>locked = False, lk_cpu = None\<rparr>)\<rparr>"

lemma demo_machine_inv: "lock_inv 4 1 demo_machine"
  by (simp add: lock_inv_def cpu_ok_def demo_machine_def holds_def find_slot_def)

theorem acquire_release_contract_witness:
  "lock_inv 4 1 demo_machine
   \<and> (\<exists>t. acquire 4 ''kmem'' demo_machine = Ret () t \<and> holds 1 t = {''kmem''} \<and> \<not> eflags_if t 4)"
  using acquire_release_contract [OF demo_machine_inv, of "''kmem''"] demo_machine_inv
  by (auto simp: demo_machine_def holds_def)

lemma nest_push_pop:
  assumes "cpu_ok a i m"
  shows "\<exists>t. seqK (nest n (pushcli a)) (nest n (popcli a)) m = Ret () t
    \<and> eflags_if t = eflags_if m \<and> ncli (cpus t ! i) = ncli (cpus m ! i) \<and> lks t = lks m"
proof (cases n)
  case 0
  then show ?thesis by simp
next
  case (Suc k)
  let ?p = "pushed a i m"
  have "0 < ncli (cpus ?p ! i)" using assms by (simp add: ncli_pushed cpu_ok_def)
  then have "seqK (nest k (pushcli a)) (nest k (popcli a)) ?p = Ret () ?p"
    by (rule nest_push_pop_deep [OF cpu_ok_pushed [OF assms]])
  moreover have "nest n (pushcli a) m = nest k (pushcli a) ?p"
    by (simp add: Suc pushcli_ok [OF assms])
  ultimately have "seqK (nest n (pushcli a)) (nest n (popcli a)) m = popcli a ?p"
    unfolding Suc nest_Suc [of k "popcli a"]
    by (auto simp: seqK_def bindK_def split: out.splits)
  moreover have "i < length (cpus m)" by (rule cpu_okD [OF assms])
  ultimately show ?thesis by (simp add: popcli_pushed [OF assms])
qed

lemma ncli_nest_pushcli:
  "cpu_ok a i m \<Longrightarrow>
     \<exists>t. nest k (pushcli a) m = Ret () t \<and> cpu_ok a i t \<and> ncli (cpus t ! i) = ncli (cpus m ! i) + int k"
proof (induction k arbitrary: m)
  case (Suc k)
  note p = pushcli_ok [OF Suc.prems] ncli_pushed [OF Suc.prems] cpu_ok_pushed [OF Suc.prems]
  with Suc.IH [OF p(3)] show ?case by (simp add: add.assoc)
qed simp

text \<open>
  C13. \<^verbatim>\<open>pushcli\<close> and \<^verbatim>\<open>popcli\<close> are matched: after any number of \<^verbatim>\<open>pushcli\<close> calls the same
  number of \<^verbatim>\<open>popcli\<close> calls returns without a panic, with the nesting depth, the locks and
  the interrupt flag of every processor as they were; in particular interrupts that were
  off stay off. The depth is stated for nestings that the \<^verbatim>\<open>int\<close> \<^verbatim>\<open>ncli\<close> can count: on the
  way in every value it takes is at most \<^verbatim>\<open>INT_MAX\<close>, so the unbounded counter of the model
  and the one of the code agree, and interrupts are off at every depth but 0.
\<close>

theorem pushcli_popcli_matched:
  assumes "cpu_ok a i m" and "ncli (cpus m ! i) + int n < 2 ^ 31"
  shows "(\<exists>t. seqK (nest n (pushcli a)) (nest n (popcli a)) m = Ret () t
      \<and> eflags_if t = eflags_if m \<and> ncli (cpus t ! i) = ncli (cpus m ! i) \<and> lks t = lks m)
    \<and> (\<forall>k\<le>n. \<exists>u. nest k (pushcli a) m = Ret () u \<and> ncli (cpus u ! i) = ncli (cpus m ! i) + int k
         \<and> 0 \<le> ncli (cpus u ! i) \<and> ncli (cpus u ! i) < 2 ^ 31 \<and> (0 < k \<longrightarrow> \<not> eflags_if u a))"
proof
  show "\<exists>t. seqK (nest n (pushcli a)) (nest n (popcli a)) m = Ret () t
      \<and> eflags_if t = eflags_if m \<and> ncli (cpus t ! i) = ncli (cpus m ! i) \<and> lks t = lks m"
    by (rule nest_push_pop [OF assms(1)])
  show "\<forall>k\<le>n. \<exists>u. nest k (pushcli a) m = Ret () u \<and> ncli (cpus u ! i) = ncli (cpus m ! i) + int k
         \<and> 0 \<le> ncli (cpus u ! i) \<and> ncli (cpus u ! i) < 2 ^ 31 \<and> (0 < k \<longrightarrow> \<not> eflags_if u a)"
  proof (intro allI impI)
    fix k assume "k \<le> n"
    obtain u where u: "nest k (pushcli a) m = Ret () u" "cpu_ok a i u"
      "ncli (cpus u ! i) = ncli (cpus m ! i) + int k"
      using ncli_nest_pushcli [OF assms(1)] by blast
    moreover have "0 \<le> ncli (cpus m ! i)" using assms(1) by (simp add: cpu_ok_def)
    ultimately show "\<exists>u. nest k (pushcli a) m = Ret () u \<and> ncli (cpus u ! i) = ncli (cpus m ! i) + int k
         \<and> 0 \<le> ncli (cpus u ! i) \<and> ncli (cpus u ! i) < 2 ^ 31 \<and> (0 < k \<longrightarrow> \<not> eflags_if u a)"
      using assms(2) \<open>k \<le> n\<close> by (auto simp: cpu_ok_def)
  qed
qed

theorem pushcli_popcli_matched_witness:
  "cpu_ok 4 1 demo_machine
   \<and> (\<exists>t. seqK (nest 2 (pushcli 4)) (nest 2 (popcli 4)) demo_machine = Ret () t
        \<and> eflags_if t = eflags_if demo_machine)"
proof -
  have c: "cpu_ok 4 1 demo_machine" using demo_machine_inv by (simp add: lock_inv_def)
  have "ncli (cpus demo_machine ! 1) + int 2 < 2 ^ 31" by (simp add: demo_machine_def)
  from pushcli_popcli_matched [OF c this] c show ?thesis by (auto simp del: nest.simps)
qed

end
