(* ===== verification/KBase.thy ===== *)
theory KBase
  imports Spinlock StringLib
begin

text \<open>
  The part of the kernel state that every component uses: the spin locks the running
  processor holds, the process table and the current process, with the constants of
  param.h. The state is an extensible record; each component's theory extends it with
  its own fields (\<open>kst\<close> here, then memory, buffers, log, inodes, files, accounts), so a
  function of a lower component runs unchanged on the state of a higher one.

  One processor runs at a time, so the locks are the list \<open>held\<close> of what it has
  acquired, most recent first; \<^verbatim>\<open>ncli\<close> is the length of the list. The theorem
  \<open>kernel_locks_refine\<close> relates \<open>acq\<close> and \<open>rel\<close> on this list to \<^verbatim>\<open>acquire\<close> and
  \<^verbatim>\<open>release\<close> of spinlock.c.
\<close>

section \<open>Constants (param.h, fs.h, mmu.h, memlayout.h)\<close>

definition NPROC :: nat where "NPROC = 64"
definition NOFILE :: nat where "NOFILE = 16"
definition NFILE :: nat where "NFILE = 100"
definition NINODE :: nat where "NINODE = 50"
definition NDEV :: nat where "NDEV = 10"
definition ROOTDEV :: nat where "ROOTDEV = 1"
definition MAXARG :: nat where "MAXARG = 32"
definition MAXOPBLOCKS :: nat where "MAXOPBLOCKS = 10"
definition LOGSIZE :: nat where "LOGSIZE = MAXOPBLOCKS * 3"
definition NBUF :: nat where "NBUF = MAXOPBLOCKS * 3"
definition FSSIZE :: nat where "FSSIZE = 3000"
definition KSTACKSIZE :: u32 where "KSTACKSIZE = 4096"

lemmas param_defs = NPROC_def NOFILE_def NFILE_def NINODE_def NDEV_def ROOTDEV_def MAXARG_def
  MAXOPBLOCKS_def LOGSIZE_def NBUF_def FSSIZE_def KSTACKSIZE_def

section \<open>Names of locks and of sleep channels\<close>

text \<open>
  A lock is named by the object that contains it. A sleep channel is an address in the C
  code; here it is named by what lives at that address.
\<close>

datatype sleeplock_id = SL_buf nat | SL_inode nat

datatype lock_id = L_ptable | L_kmem | L_cons | L_ticks | L_ide | L_bcache | L_log | L_icache
  | L_ftable | L_utable | L_pipe u32 | L_sleep sleeplock_id

datatype chan = Ch_proc nat | Ch_log | Ch_sleep sleeplock_id | Ch_ticks | Ch_buf nat
  | Ch_nread u32 | Ch_nwrite u32 | Ch_input

section \<open>Processes (proc.h, x86.h)\<close>

datatype procstate = UNUSED | EMBRYO | SLEEPING | RUNNABLE | RUNNING | ZOMBIE

record trapframe =
  tf_edi :: u32
  tf_esi :: u32
  tf_ebp :: u32
  tf_oesp :: u32
  tf_ebx :: u32
  tf_edx :: u32
  tf_ecx :: u32
  tf_eax :: u32
  tf_gs :: u16
  tf_fs :: u16
  tf_es :: u16
  tf_ds :: u16
  tf_trapno :: u32
  tf_err :: u32
  tf_eip :: u32
  tf_cs :: u16
  tf_eflags :: u32
  tf_esp :: u32
  tf_ss :: u16

definition zero_tf :: trapframe where
  "zero_tf = \<lparr>tf_edi = 0, tf_esi = 0, tf_ebp = 0, tf_oesp = 0, tf_ebx = 0, tf_edx = 0, tf_ecx = 0,
     tf_eax = 0, tf_gs = 0, tf_fs = 0, tf_es = 0, tf_ds = 0, tf_trapno = 0, tf_err = 0, tf_eip = 0,
     tf_cs = 0, tf_eflags = 0, tf_esp = 0, tf_ss = 0\<rparr>"

text \<open>
  \<^verbatim>\<open>p->tf\<close> and \<^verbatim>\<open>p->context\<close> point into the kernel stack: the record keeps both the
  addresses and what is stored there. A saved context starts either at \<^verbatim>\<open>forkret\<close> or
  inside the kernel. Pointers to files and inodes are indices into \<^verbatim>\<open>ftable\<close> and
  \<^verbatim>\<open>icache\<close>, \<open>None\<close> is the null pointer. The fields of the MLFQ build are always there.
\<close>

datatype saved_context = At_forkret | In_kernel

record proc =
  p_sz :: u32
  p_pgdir :: u32
  p_kstack :: u32
  p_state :: procstate
  p_pid :: int
  p_parent :: "nat option"
  p_tf :: trapframe
  p_tf_addr :: u32
  p_context :: saved_context
  p_context_addr :: u32
  p_chan :: "chan option"
  p_killed :: bool
  p_ofile :: "nat option list"
  p_cwd :: "nat option"
  p_priority :: int
  p_tq :: int
  p_qlvl :: int
  p_name :: "byte list"
  p_id :: "byte list"

text \<open>The static \<^verbatim>\<open>ptable.proc\<close> array before the kernel runs: all bytes zero.\<close>

definition zero_proc :: proc where
  "zero_proc = \<lparr>p_sz = 0, p_pgdir = 0, p_kstack = 0, p_state = UNUSED, p_pid = 0, p_parent = None,
     p_tf = zero_tf, p_tf_addr = 0, p_context = In_kernel, p_context_addr = 0, p_chan = None,
     p_killed = False, p_ofile = replicate 16 None, p_cwd = None, p_priority = 0, p_tq = 0,
     p_qlvl = 0, p_name = replicate 16 0, p_id = replicate 16 0\<rparr>"

section \<open>The common state\<close>

record kst =
  held :: "lock_id list"
  procs :: "proc list"
  cur :: "nat option"
  initproc :: "nat option"
  nextpid :: int
  ticks :: u32

definition acq :: "lock_id \<Rightarrow> ('z kst_scheme, unit) kop" where
  "acq l s = (if l \<in> set (held s) then Panic ''acquire'' else Ret () (s\<lparr>held := l # held s\<rparr>))"

definition rel :: "lock_id \<Rightarrow> ('z kst_scheme, unit) kop" where
  "rel l s = (if l \<notin> set (held s) then Panic ''release''
              else Ret () (s\<lparr>held := remove1 l (held s)\<rparr>))"

text \<open>
  \<^verbatim>\<open>myproc()\<close> followed by a field access. With no current process the access goes through
  a null pointer: the page fault ends in \<^verbatim>\<open>panic("trap")\<close> of trap.c.
\<close>

definition myproc :: "('z kst_scheme, nat) kop" where
  "myproc s = (case cur s of Some p \<Rightarrow> Ret p s | None \<Rightarrow> Panic ''trap'')"

definition proc_at :: "nat \<Rightarrow> 'z kst_scheme \<Rightarrow> proc" where
  "proc_at p s = procs s ! p"

definition upd_proc :: "nat \<Rightarrow> (proc \<Rightarrow> proc) \<Rightarrow> ('z kst_scheme, unit) kop" where
  "upd_proc p f = modify (\<lambda>s. s\<lparr>procs := upd_at p f (procs s)\<rparr>)"

text \<open>\<^verbatim>\<open>strncmp(myproc()->id, "root", 16) == 0\<close> and the like, on a process's account name.\<close>

definition is_root :: "byte list \<Rightarrow> bool" where
  "is_root who \<longleftrightarrow> strncmp (cview who) (cview (lit ''root'')) 16 = 0"

section \<open>Lemmas\<close>

lemma acq_ok [lock_simps]: "l \<notin> set (held s) \<Longrightarrow> acq l s = Ret () (s\<lparr>held := l # held s\<rparr>)"
  by (simp add: acq_def)

lemma acq_panic [lock_simps]: "l \<in> set (held s) \<Longrightarrow> acq l s = Panic ''acquire''"
  by (simp add: acq_def)

lemma rel_ok [lock_simps]: "l \<in> set (held s) \<Longrightarrow> rel l s = Ret () (s\<lparr>held := remove1 l (held s)\<rparr>)"
  by (simp add: rel_def)

lemma rel_panic [lock_simps]: "l \<notin> set (held s) \<Longrightarrow> rel l s = Panic ''release''"
  by (simp add: rel_def)

lemma acq_RetD: "acq l s = Ret u t \<Longrightarrow> t = s\<lparr>held := l # held s\<rparr> \<and> l \<notin> set (held s)"
  by (simp add: acq_def split: if_splits)

lemma rel_RetD: "rel l s = Ret u t \<Longrightarrow> t = s\<lparr>held := remove1 l (held s)\<rparr> \<and> l \<in> set (held s)"
  by (simp add: rel_def split: if_splits)

lemma myproc_Some [simp]: "cur s = Some p \<Longrightarrow> myproc s = Ret p s"
  by (simp add: myproc_def)

lemma myproc_RetD: "myproc s = Ret p t \<Longrightarrow> t = s \<and> cur s = Some p"
  by (auto simp: myproc_def split: option.splits)

lemma held_upd_same [simp]: "held s = h \<Longrightarrow> s\<lparr>held := h\<rparr> = s"
  by simp

lemma keeps_locks [keep_rules]:
  "(\<And>s h. f (s\<lparr>held := h\<rparr>) = f s) \<Longrightarrow> keeps f (acq l)"
  "(\<And>s h. f (s\<lparr>held := h\<rparr>) = f s) \<Longrightarrow> keeps f (rel l)"
  by (auto simp: keeps_def acq_def rel_def)

lemma keeps_proc [keep_rules]:
  "keeps f myproc" "(\<And>s ps. f (s\<lparr>procs := ps\<rparr>) = f s) \<Longrightarrow> keeps f (upd_proc p g)"
  by (auto simp: keeps_def myproc_def upd_proc_def split: option.splits)

text \<open>Updates of different fields, in the order the record declares them.\<close>

lemma kst_order:
  "s\<lparr>procs := ps, held := h\<rparr> = s\<lparr>held := h, procs := ps\<rparr>"
  "s\<lparr>cur := c, held := h\<rparr> = s\<lparr>held := h, cur := c\<rparr>"
  "s\<lparr>cur := c, procs := ps\<rparr> = s\<lparr>procs := ps, cur := c\<rparr>"
  "s\<lparr>nextpid := n, procs := ps\<rparr> = s\<lparr>procs := ps, nextpid := n\<rparr>"
  "s\<lparr>nextpid := n, held := h\<rparr> = s\<lparr>held := h, nextpid := n\<rparr>"
  by (cases s; simp)+

interpretation kl: lock_interface acq rel "\<lambda>s. set (held s)" "\<lambda>_ _. True" "\<lambda>s. distinct (held s)"
  by unfold_locales (auto simp: lock_simps)

section \<open>The lock list implements spinlock.c\<close>

text \<open>
  A machine state \<open>m\<close> of spinlock.c and a kernel state \<open>s\<close> agree on processor \<open>i\<close>:
  the list holds exactly the locks the processor holds, and its length is \<^verbatim>\<open>ncli\<close>. No
  other processor has a lock (only one processor runs).
\<close>

definition lock_rel :: "nat \<Rightarrow> nat \<Rightarrow> lock_id machine \<Rightarrow> 'z kst_scheme \<Rightarrow> bool" where
  "lock_rel a i m s \<longleftrightarrow>
     lock_inv a i m \<and> distinct (held s) \<and> set (held s) = holds i m
     \<and> ncli (cpus m ! i) = int (length (held s)) \<and> (\<forall>l. lock_avail i m l)"

lemma lock_rel_acquire:
  assumes "lock_rel a i m s"
  shows "(acq l s = Panic ''acquire'' \<and> acquire a l m = Panic ''acquire'')
    \<or> (\<exists>s' m'. acq l s = Ret () s' \<and> acquire a l m = Ret () m' \<and> lock_rel a i m' s')"
proof (cases "l \<in> holds i m")
  case True
  then show ?thesis
    using assms sl.acq_self [of a i m l] by (simp add: lock_rel_def lock_simps)
next
  case False
  have inv: "lock_inv a i m" and ok: "cpu_ok a i m"
    using assms by (simp_all add: lock_rel_def lock_inv_def)
  with False assms obtain m' where m': "acquire a l m = Ret () m'" "lock_inv a i m'"
    "holds i m' = insert l (holds i m)" "\<forall>k. lock_avail i m' k = lock_avail i m k"
    using acquire_inv [OF inv False] by (auto simp: lock_rel_def)
  have "\<not> locked (lks m l)"
    using False assms by (auto simp: lock_rel_def lock_avail_def)
  with m'(1) False inv have "m' = (pushed a i m)\<lparr>lks := (lks m)(l := (lks m l)\<lparr>locked := True, lk_cpu := Some i\<rparr>)\<rparr>"
    by (simp add: acquire_eq [OF ok])
  then have "ncli (cpus m' ! i) = ncli (cpus m ! i) + 1"
    using inv by (simp add: lock_inv_def ncli_pushed)
  with m' False assms show ?thesis
    by (auto simp: lock_rel_def lock_simps)
qed

lemma lock_rel_release:
  assumes "lock_rel a i m s"
  shows "(rel l s = Panic ''release'' \<and> release a l m = Panic ''release'')
    \<or> (\<exists>s' m'. rel l s = Ret () s' \<and> release a l m = Ret () m' \<and> lock_rel a i m' s')"
proof (cases "l \<in> holds i m")
  case False
  then show ?thesis
    using assms sl.rel_other [of a i m l] by (simp add: lock_rel_def lock_simps)
next
  case True
  have inv: "lock_inv a i m" and ok: "cpu_ok a i m"
    using assms by (simp_all add: lock_rel_def lock_inv_def)
  have pos: "0 < ncli (cpus m ! i)" by (rule lock_inv_pos [OF inv True])
  obtain m' where m': "release a l m = Ret () m'" "lock_inv a i m'"
    "holds i m' = holds i m - {l}" "\<forall>k. lock_avail i m' k = lock_avail i m k"
    using release_inv [OF inv True] by auto
  let ?n = "m\<lparr>lks := (lks m)(l := (lks m l)\<lparr>lk_cpu := None, locked := False\<rparr>)\<rparr>"
  have "popcli a ?n = Ret () m'" "cpu_ok a i ?n" "0 < ncli (cpus ?n ! i)"
    using m'(1) True ok pos by (simp_all add: release_eq [OF ok pos] cpu_ok_def)
  then have "ncli (cpus m' ! i) = ncli (cpus m ! i) - 1"
    using popcli_cpu_ok(2) by fastforce
  moreover have "l \<in> set (held s)" using True assms by (simp add: lock_rel_def)
  moreover have "Suc (length (remove1 l (held s))) = length (held s)"
    using \<open>l \<in> set (held s)\<close> length_pos_if_in_set [of l "held s"] by (simp add: length_remove1)
  ultimately show ?thesis
    using m' assms by (auto simp: lock_rel_def lock_simps)
qed

text \<open>
  C9. The kernel model's lock list refines spinlock.c: from agreeing states, taking or
  giving back any lock either panics with the same message on both sides or returns on
  both sides in states that agree again; the implementation never spins.
\<close>

theorem kernel_locks_refine:
  assumes "lock_rel a i m s"
  shows "((acq l s = Panic ''acquire'' \<and> acquire a l m = Panic ''acquire'')
      \<or> (\<exists>s' m'. acq l s = Ret () s' \<and> acquire a l m = Ret () m' \<and> lock_rel a i m' s'))
    \<and> ((rel l s = Panic ''release'' \<and> release a l m = Panic ''release'')
      \<or> (\<exists>s' m'. rel l s = Ret () s' \<and> release a l m = Ret () m' \<and> lock_rel a i m' s'))"
  using lock_rel_acquire [OF assms] lock_rel_release [OF assms] by blast

definition demo_kst :: kst where
  "demo_kst = \<lparr>held = [], procs = [], cur = None, initproc = None, nextpid = 1, ticks = 0\<rparr>"

definition demo_lock_machine :: "lock_id machine" where
  "demo_lock_machine = \<lparr>eflags_if = (\<lambda>_. True),
     cpus = [\<lparr>apicid = 0, ncli = 0, intena = False\<rparr>],
     lks = (\<lambda>_. \<lparr>locked = False, lk_cpu = None\<rparr>)\<rparr>"

lemma demo_lock_rel: "lock_rel 0 0 demo_lock_machine demo_kst"
  by (simp add: lock_rel_def lock_inv_def cpu_ok_def demo_lock_machine_def demo_kst_def holds_def
      lock_avail_def find_slot_def)

theorem kernel_locks_refine_witness:
  "lock_rel 0 0 demo_lock_machine demo_kst
   \<and> (\<exists>s' m'. acq L_ptable demo_kst = Ret () s' \<and> acquire 0 L_ptable demo_lock_machine = Ret () m'
        \<and> lock_rel 0 0 m' s')
   \<and> release 0 L_ptable demo_lock_machine = Panic ''release''"
proof -
  have "acq L_ptable demo_kst \<noteq> Panic ''acquire''" and "\<nexists>t. rel L_ptable demo_kst = Ret () t"
    by (simp_all add: acq_def rel_def demo_kst_def)
  with kernel_locks_refine [OF demo_lock_rel, of L_ptable] demo_lock_rel show ?thesis by blast
qed

end
