(* ===== verification/Sched.thy ===== *)
theory Sched
  imports KBase "HOL-Library.Sublist"
begin

text \<open>
  The scheduling part of proc.c: \<^verbatim>\<open>wakeup\<close>, \<^verbatim>\<open>sched\<close>, \<^verbatim>\<open>yield\<close>, \<^verbatim>\<open>sleep\<close>, \<^verbatim>\<open>kill\<close>, the
  bookkeeping of the multi-level feedback queue and the three bodies of \<^verbatim>\<open>scheduler\<close> that
  the preprocessor selects. \<open>policy\<close> is the build's \<^verbatim>\<open>-D\<close> flag; the Makefile has it
  commented out, so the default build is \<open>RR_SCHED\<close>. \<^verbatim>\<open>MLFQ_K\<close> is the argument of
  \<open>MLFQ_SCHED\<close>.

  What a process does between being switched to and switching back is a parameter \<open>run\<close>
  of the scheduler passes. \<^verbatim>\<open>sched\<close> ends in the outcome \<open>Swtch\<close>; the code after it in
  \<^verbatim>\<open>sleep\<close> is \<open>sleep_resume\<close>, which runs when the scheduler switches back.
\<close>

datatype policy = RR_SCHED | MULTILEVEL_SCHED | MLFQ_SCHED int

definition is_mlfq :: "policy \<Rightarrow> bool" where
  "is_mlfq pol \<longleftrightarrow> (case pol of MLFQ_SCHED _ \<Rightarrow> True | _ \<Rightarrow> False)"

section \<open>Sleep and wakeup\<close>

definition wake_if :: "chan option \<Rightarrow> proc \<Rightarrow> proc" where
  "wake_if c p = (if p_state p = SLEEPING \<and> p_chan p = c then p\<lparr>p_state := RUNNABLE\<rparr> else p)"

definition wakeup1 :: "chan option \<Rightarrow> ('z kst_scheme, unit) kop" where
  "wakeup1 c = modify (\<lambda>s. s\<lparr>procs := map (wake_if c) (procs s)\<rparr>)"

text \<open>
  The bodies of \<^verbatim>\<open>wakeup\<close> and \<^verbatim>\<open>sleep\<close> are lists of actions, because other processors act
  between them: the interleavings are in theory \<open>Sleeplock\<close>.
\<close>

definition wakeup_steps :: "chan \<Rightarrow> ('z kst_scheme, unit) kop list" where
  "wakeup_steps c = [acq L_ptable, wakeup1 (Some c), rel L_ptable]"

definition wakeup :: "chan \<Rightarrow> ('z kst_scheme, unit) kop" where
  "wakeup c = stepsK (wakeup_steps c)"

text \<open>
  The test \<^verbatim>\<open>readeflags()&FL_IF\<close> of \<^verbatim>\<open>sched\<close> cannot fire here: a processor that holds
  \<^verbatim>\<open>ptable.lock\<close> has interrupts off (\<open>acquire_release_contract\<close>).
\<close>

definition sched :: "('z kst_scheme, unit) kop" where
  "sched =
     bindK myproc (\<lambda>p.
     seqK (bindK (gets held) (\<lambda>h. panic_if (L_ptable \<notin> set h) ''sched ptable.lock''))
     (seqK (bindK (gets held) (\<lambda>h. panic_if (length h \<noteq> 1) ''sched locks''))
     (seqK (bindK (gets (proc_at p)) (\<lambda>q. panic_if (p_state q = RUNNING) ''sched running''))
     (\<lambda>s. Swtch s))))"

definition yield :: "('z kst_scheme, unit) kop" where
  "yield =
     seqK (acq L_ptable)
     (bindK myproc (\<lambda>p.
     seqK (upd_proc p (\<lambda>q. q\<lparr>p_state := RUNNABLE\<rparr>))
     (seqK sched (rel L_ptable))))"

definition yield_mlfq :: "policy \<Rightarrow> ('z kst_scheme, unit) kop" where
  "yield_mlfq pol =
     (if is_mlfq pol then
        seqK (acq L_ptable)
        (bindK myproc (\<lambda>p.
        seqK (upd_proc p (\<lambda>q. q\<lparr>p_state := RUNNABLE\<rparr>))
        (seqK (upd_proc p (\<lambda>q. q\<lparr>p_tq := 0\<rparr>))
        (seqK (upd_proc p (\<lambda>q. q\<lparr>p_qlvl := 0\<rparr>))
        (seqK sched (rel L_ptable))))))
      else ret ())"

definition resume_steps :: "nat \<Rightarrow> lock_id \<Rightarrow> ('z kst_scheme, unit) kop list" where
  "resume_steps p lk =
     upd_proc p (\<lambda>q. q\<lparr>p_chan := None\<rparr>) # (if lk \<noteq> L_ptable then [rel L_ptable, acq lk] else [])"

definition sleep_resume :: "nat \<Rightarrow> lock_id \<Rightarrow> ('z kst_scheme, unit) kop" where
  "sleep_resume p lk = stepsK (resume_steps p lk)"

definition sleep_steps :: "nat \<Rightarrow> chan \<Rightarrow> lock_id \<Rightarrow> ('z kst_scheme, unit) kop list" where
  "sleep_steps p c lk =
     (if lk \<noteq> L_ptable then [acq L_ptable, rel lk] else [])
     @ [upd_proc p (\<lambda>q. q\<lparr>p_chan := Some c\<rparr>),
        upd_proc p (\<lambda>q. q\<lparr>p_state := SLEEPING\<rparr>),
        sched]"

definition sleep :: "chan \<Rightarrow> lock_id \<Rightarrow> ('z kst_scheme, unit) kop" where
  "sleep c lk =
     bindK (gets cur) (\<lambda>o_p. case o_p of None \<Rightarrow> panic ''sleep'' | Some p \<Rightarrow>
     seqK (stepsK (sleep_steps p c lk)) (sleep_resume p lk))"

definition sleep_mlfq :: "policy \<Rightarrow> chan \<Rightarrow> lock_id \<Rightarrow> ('z kst_scheme, unit) kop" where
  "sleep_mlfq pol c lk =
     (if is_mlfq pol then
        bindK (gets cur) (\<lambda>o_p. case o_p of None \<Rightarrow> panic ''sleep'' | Some p \<Rightarrow>
        seqK (if lk \<noteq> L_ptable then seqK (acq L_ptable) (rel lk) else ret ())
        (seqK (upd_proc p (\<lambda>q. q\<lparr>p_chan := Some c\<rparr>))
        (seqK (upd_proc p (\<lambda>q. q\<lparr>p_state := SLEEPING\<rparr>))
        (seqK (upd_proc p (\<lambda>q. q\<lparr>p_tq := 0\<rparr>))
        (seqK (upd_proc p (\<lambda>q. q\<lparr>p_qlvl := 0\<rparr>))
        (seqK sched
        (sleep_resume p lk)))))))
      else ret ())"

section \<open>kill\<close>

definition kill_mark :: "proc \<Rightarrow> proc" where
  "kill_mark q = (let q = q\<lparr>p_killed := True\<rparr>
     in if p_state q = SLEEPING then q\<lparr>p_state := RUNNABLE\<rparr> else q)"

definition kill :: "int \<Rightarrow> ('z kst_scheme, int) kop" where
  "kill pid =
     seqK (acq L_ptable)
     (bindK (gets (\<lambda>s. find_slot (\<lambda>q. p_pid q = pid) (procs s))) (\<lambda>r. case r of
        Some p \<Rightarrow> seqK (upd_proc p kill_mark) (seqK (rel L_ptable) (ret 0))
      | None \<Rightarrow> seqK (rel L_ptable) (ret (- 1))))"

section \<open>Multi-level feedback queue bookkeeping\<close>

definition priority_boost :: "policy \<Rightarrow> ('z kst_scheme, unit) kop" where
  "priority_boost pol =
     (if is_mlfq pol then
        seqK (acq L_ptable)
        (seqK (modify (\<lambda>s. s\<lparr>procs := map (\<lambda>q. q\<lparr>p_tq := 0, p_qlvl := 0\<rparr>) (procs s)\<rparr>))
        (rel L_ptable))
      else ret ())"

text \<open>
  The loop of \<^verbatim>\<open>setpriority\<close>: \<^verbatim>\<open>p->parent->pid\<close> is read only for a process whose pid
  matches, and faults when that process has no parent.
\<close>

fun setpriority_scan :: "int \<Rightarrow> int \<Rightarrow> nat list \<Rightarrow> ('z kst_scheme, int) kop" where
  "setpriority_scan pid prio [] = seqK (rel L_ptable) (ret (- 1))"
| "setpriority_scan pid prio (p # ps) =
     bindK (gets (proc_at p)) (\<lambda>q.
     if p_pid q = pid then
       (case p_parent q of
          None \<Rightarrow> panic ''trap''
        | Some pp \<Rightarrow>
            bindK (gets (proc_at pp)) (\<lambda>qp.
            bindK myproc (\<lambda>me.
            bindK (gets (proc_at me)) (\<lambda>qm.
            if p_pid qp = p_pid qm then
              seqK (upd_proc p (\<lambda>q. q\<lparr>p_priority := prio\<rparr>)) (seqK (rel L_ptable) (ret 0))
            else setpriority_scan pid prio ps))))
     else setpriority_scan pid prio ps)"

definition setpriority :: "policy \<Rightarrow> int \<Rightarrow> int \<Rightarrow> ('z kst_scheme, int) kop" where
  "setpriority pol pid prio =
     (if is_mlfq pol then
        seqK (acq L_ptable) (bindK (gets (\<lambda>s. [0..<length (procs s)])) (setpriority_scan pid prio))
      else ret 0)"

definition qlvl_down :: "policy \<Rightarrow> ('z kst_scheme, unit) kop" where
  "qlvl_down pol =
     (if is_mlfq pol then
        seqK (acq L_ptable)
        (bindK myproc (\<lambda>p.
        seqK (upd_proc p (\<lambda>q. q\<lparr>p_tq := 0\<rparr>))
        (seqK (upd_proc p (\<lambda>q. q\<lparr>p_qlvl := p_qlvl q + 1\<rparr>))
        (rel L_ptable))))
      else ret ())"

definition update_tq :: "policy \<Rightarrow> ('z kst_scheme, unit) kop" where
  "update_tq pol =
     (if is_mlfq pol then
        seqK (acq L_ptable)
        (bindK myproc (\<lambda>p.
        seqK (upd_proc p (\<lambda>q. q\<lparr>p_tq := p_tq q + 1\<rparr>))
        (rel L_ptable)))
      else ret ())"

definition getlev :: "policy \<Rightarrow> ('z kst_scheme, int) kop" where
  "getlev pol =
     (if is_mlfq pol then bindK myproc (\<lambda>p. gets (\<lambda>s. p_qlvl (proc_at p s))) else ret 0)"

section \<open>scheduler\<close>

text \<open>
  \<^verbatim>\<open>switchuvm\<close> of vm.c: its three checks. What it loads into the task register, the task
  state segment and \<^verbatim>\<open>cr3\<close> is processor state outside the model.
\<close>

definition switchuvm :: "nat option \<Rightarrow> ('z kst_scheme, unit) kop" where
  "switchuvm o_p = (case o_p of None \<Rightarrow> panic ''switchuvm: no process'' | Some p \<Rightarrow>
     bindK (gets (proc_at p)) (\<lambda>q.
     seqK (panic_if (p_kstack q = 0) ''switchuvm: no kstack'')
     (panic_if (p_pgdir q = 0) ''switchuvm: no pgdir'')))"

text \<open>Switch to process \<open>p\<close>, let it run until it switches back, forget it.\<close>

definition sched_run :: "(nat \<Rightarrow> ('z kst_scheme, unit) kop) \<Rightarrow> nat \<Rightarrow> ('z kst_scheme, unit) kop" where
  "sched_run run p =
     seqK (modify (\<lambda>s. s\<lparr>cur := Some p\<rparr>))
     (seqK (switchuvm (Some p))
     (seqK (upd_proc p (\<lambda>q. q\<lparr>p_state := RUNNING\<rparr>))
     (seqK (run p)
     (modify (\<lambda>s. s\<lparr>cur := None\<rparr>)))))"

text \<open>
  One round of each \<^verbatim>\<open>for(;;)\<close> body over the process table, whose length is \<^verbatim>\<open>NPROC\<close>. The
  result lists the processes switched to, in order.
\<close>

fun rr_loop :: "(nat \<Rightarrow> ('z kst_scheme, unit) kop) \<Rightarrow> nat list \<Rightarrow> ('z kst_scheme, nat list) kop" where
  "rr_loop run [] = ret []"
| "rr_loop run (p # ps) =
     bindK (gets (proc_at p)) (\<lambda>q.
     if p_state q \<noteq> RUNNABLE then rr_loop run ps
     else seqK (sched_run run p) (bindK (rr_loop run ps) (\<lambda>tr. ret (p # tr))))"

definition scheduler_rr :: "(nat \<Rightarrow> ('z kst_scheme, unit) kop) \<Rightarrow> ('z kst_scheme, nat list) kop" where
  "scheduler_rr run =
     seqK (acq L_ptable)
     (bindK (gets (\<lambda>s. [0..<length (procs s)])) (\<lambda>tab.
      bindK (rr_loop run tab) (\<lambda>tr. seqK (rel L_ptable) (ret tr))))"

text \<open>
  The \<^verbatim>\<open>MULTILEVEL_SCHED\<close> loop carries \<^verbatim>\<open>proc_odd\<close> and \<^verbatim>\<open>evenproc_exist\<close>. C's \<^verbatim>\<open>%\<close> gives 1 only
  for positive odd numbers.
\<close>

fun ml_loop :: "(nat \<Rightarrow> ('z kst_scheme, unit) kop) \<Rightarrow> nat list \<Rightarrow> nat option \<Rightarrow> bool
    \<Rightarrow> ('z kst_scheme, nat option \<times> bool \<times> nat list) kop" where
  "ml_loop run [] odd_p evn = ret (odd_p, evn, [])"
| "ml_loop run (p # ps) odd_p evn =
     bindK (gets (proc_at p)) (\<lambda>q.
     if p_state q \<noteq> RUNNABLE then ml_loop run ps odd_p evn
     else if p_pid q mod 2 = 0 then
       seqK (sched_run run p)
       (bindK (ml_loop run ps odd_p True) (\<lambda>(o', e', tr). ret (o', e', p # tr)))
     else if 0 < p_pid q then
       (case odd_p of
          None \<Rightarrow> ml_loop run ps (Some p) evn
        | Some k \<Rightarrow> bindK (gets (proc_at k)) (\<lambda>qk.
            if p_pid qk > p_pid q then ml_loop run ps (Some p) evn
            else ml_loop run ps odd_p evn))
     else ml_loop run ps odd_p evn)"

definition scheduler_multilevel :: "(nat \<Rightarrow> ('z kst_scheme, unit) kop) \<Rightarrow> ('z kst_scheme, nat list) kop" where
  "scheduler_multilevel run =
     seqK (acq L_ptable)
     (bindK (gets (\<lambda>s. [0..<length (procs s)])) (\<lambda>tab.
      bindK (ml_loop run tab None False) (\<lambda>(odd_p, evn, tr).
      bindK (case odd_p of
               Some p \<Rightarrow> if evn then ret tr else seqK (sched_run run p) (ret (tr @ [p]))
             | None \<Rightarrow> ret tr) (\<lambda>tr.
      seqK (rel L_ptable) (ret tr)))))"

definition mlfq_prefer :: "proc \<Rightarrow> proc \<Rightarrow> bool" where
  "mlfq_prefer sel p =
     (if p_qlvl sel > p_qlvl p then True
      else if p_qlvl sel = p_qlvl p then
        (p_tq sel = 0 \<and> p_priority sel < p_priority p) \<or> (p_tq sel = 0 \<and> p_tq p \<noteq> 0)
      else False)"

definition mlfq_eligible :: "int \<Rightarrow> proc \<Rightarrow> bool" where
  "mlfq_eligible K p \<longleftrightarrow> \<not> (p_state p \<noteq> RUNNABLE \<or> p_qlvl p = K)"

definition mlfq_visit :: "int \<Rightarrow> proc list \<Rightarrow> nat option \<Rightarrow> nat \<Rightarrow> nat option" where
  "mlfq_visit K ps sel i =
     (if \<not> mlfq_eligible K (ps ! i) then sel
      else case sel of
        None \<Rightarrow> Some i
      | Some j \<Rightarrow> if mlfq_prefer (ps ! j) (ps ! i) then Some i else sel)"

definition mlfq_select :: "int \<Rightarrow> proc list \<Rightarrow> nat option" where
  "mlfq_select K ps = foldl (mlfq_visit K ps) None [0..<length ps]"

definition scheduler_mlfq :: "int \<Rightarrow> (nat \<Rightarrow> ('z kst_scheme, unit) kop) \<Rightarrow> ('z kst_scheme, nat list) kop" where
  "scheduler_mlfq K run =
     seqK (acq L_ptable)
     (bindK (gets (\<lambda>s. mlfq_select K (procs s))) (\<lambda>sel.
      bindK (case sel of Some p \<Rightarrow> seqK (sched_run run p) (ret [p]) | None \<Rightarrow> ret []) (\<lambda>tr.
      seqK (modify (\<lambda>s. s\<lparr>cur := None\<rparr>))
      (seqK (rel L_ptable) (ret tr)))))"

definition scheduler :: "policy \<Rightarrow> (nat \<Rightarrow> ('z kst_scheme, unit) kop) \<Rightarrow> ('z kst_scheme, nat list) kop" where
  "scheduler pol run = (case pol of
     MULTILEVEL_SCHED \<Rightarrow> scheduler_multilevel run
   | MLFQ_SCHED K \<Rightarrow> scheduler_mlfq K run
   | RR_SCHED \<Rightarrow> scheduler_rr run)"

section \<open>Sleep and wakeup: lemmas\<close>

lemma proc_at_upd [simp]:
  "p < length (procs s) \<Longrightarrow> proc_at p (s\<lparr>procs := upd_at p f (procs s)\<rparr>) = f (proc_at p s)"
  by (simp add: proc_at_def)

lemma proc_at_cur [simp]: "proc_at p (s\<lparr>cur := c\<rparr>) = proc_at p s"
  by (simp add: proc_at_def)

lemma proc_at_held [simp]: "proc_at p (s\<lparr>held := h\<rparr>) = proc_at p s"
  by (simp add: proc_at_def)

lemma upd_proc_eq [simp]: "upd_proc p f s = Ret () (s\<lparr>procs := upd_at p f (procs s)\<rparr>)"
  by (simp add: upd_proc_def)

lemma sched_Swtch:
  assumes "held s = [L_ptable]" "cur s = Some p" "p_state (proc_at p s) \<noteq> RUNNING"
  shows "sched s = Swtch s"
  using assms by (simp add: sched_def)

lemma wakeup1_eq [simp]: "wakeup1 c s = Ret () (s\<lparr>procs := map (wake_if c) (procs s)\<rparr>)"
  by (simp add: wakeup1_def)

text \<open>Going to sleep from a state whose only lock is the caller's.\<close>

lemma sleep_steps_Swtch:
  assumes "held s = [lk]" "cur s = Some p" "p < length (procs s)"
  shows "stepsK (sleep_steps p c lk) s = Swtch (s\<lparr>held := [L_ptable],
           procs := upd_at p (\<lambda>q. q\<lparr>p_chan := Some c, p_state := SLEEPING\<rparr>) (procs s)\<rparr>)"
proof -
  have "upd_at p (\<lambda>q. q\<lparr>p_state := SLEEPING\<rparr>) (upd_at p (\<lambda>q. q\<lparr>p_chan := Some c\<rparr>) (procs s))
      = upd_at p (\<lambda>q. q\<lparr>p_chan := Some c, p_state := SLEEPING\<rparr>) (procs s)"
    by (simp add: upd_at_comp comp_def)
  with assms show ?thesis
    by (cases "lk = L_ptable") (auto simp: sleep_steps_def lock_simps sched_Swtch proc_at_def)
qed

lemma sleep_Swtch:
  assumes "held s = [lk]" "cur s = Some p" "p < length (procs s)"
  shows "sleep c lk s = Swtch (s\<lparr>held := [L_ptable],
           procs := upd_at p (\<lambda>q. q\<lparr>p_chan := Some c, p_state := SLEEPING\<rparr>) (procs s)\<rparr>)"
  using assms by (simp add: sleep_def sleep_steps_Swtch)

lemma wakeup_eq:
  "L_ptable \<notin> set (held s) \<Longrightarrow>
     wakeup c s = Ret () (s\<lparr>procs := map (wake_if (Some c)) (procs s)\<rparr>)"
  by (simp add: wakeup_def wakeup_steps_def lock_simps)

lemma keeps_wakeup [keep_rules]:
  assumes "\<And>s h. f (s\<lparr>held := h\<rparr>) = f s" "\<And>s ps. f (s\<lparr>procs := ps\<rparr>) = f s"
  shows "keeps f (wakeup1 ch)" "keeps f (wakeup c)"
  unfolding wakeup_def wakeup_steps_def wakeup1_def by (intro keep_rules assms)+

lemma keeps_sleep [keep_rules]:
  assumes "\<And>s h. f (s\<lparr>held := h\<rparr>) = f s" "\<And>s ps. f (s\<lparr>procs := ps\<rparr>) = f s"
  shows "keeps f (sleep c lk)" "keeps f (sleep_resume p lk)" "keeps f sched" "keeps f yield"
  unfolding sleep_def sleep_steps_def sleep_resume_def resume_steps_def sched_def yield_def
  by (intro keep_rules assms)+

lemma sleep_not_Ret: "sleep c lk s \<noteq> Ret u t"
  by (auto simp: sleep_def sleep_steps_def stepsK_append sched_def upd_proc_def split: option.splits)

lemma sleep_resume_eq:
  assumes "held s = [L_ptable]"
  shows "sleep_resume p lk s =
    Ret () (s\<lparr>held := [lk], procs := upd_at p (\<lambda>q. q\<lparr>p_chan := None\<rparr>) (procs s)\<rparr>)"
  using assms by (cases "lk = L_ptable") (auto simp: sleep_resume_def resume_steps_def lock_simps)

text \<open>At every point on the way to sleep one of the two locks is held.\<close>

lemma sleep_steps_Ret:
  assumes "held s = [lk]" "cur s = Some p" "k < length (sleep_steps p c lk)"
  shows "\<exists>t. stepsK (take k (sleep_steps p c lk)) s = Ret () t \<and> (held t = [lk] \<or> L_ptable \<in> set (held t))"
proof -
  have "k = 0 \<or> k = 1 \<or> k = 2 \<or> k = 3 \<or> k = 4"
    using assms(3) by (auto simp: sleep_steps_def split: if_splits)
  then show ?thesis
    using assms by (cases "lk = L_ptable") (auto simp: sleep_steps_def lock_simps numeral_eq_Suc)
qed

text \<open>
  C10. The contract of \<^verbatim>\<open>sleep\<close> and \<^verbatim>\<open>wakeup\<close>. A process that calls \<^verbatim>\<open>sleep(chan, lk)\<close>
  with only \<^verbatim>\<open>lk\<close> held leaves for the scheduler with only \<^verbatim>\<open>ptable.lock\<close> held, recorded as
  asleep on the channel. After every action on the way there it holds \<^verbatim>\<open>lk\<close> or
  \<^verbatim>\<open>ptable.lock\<close>, so that a wakeup, whose caller holds the one and takes the other, cannot
  fall between the release of \<^verbatim>\<open>lk\<close> and the sleep. A wakeup of that channel makes it runnable,
  a wakeup of another channel leaves it asleep; and when it is switched to again it holds
  \<^verbatim>\<open>lk\<close> and nothing else.
\<close>

theorem sleep_wakeup_contract:
  assumes "held s = [lk]" "cur s = Some p" "p < length (procs s)"
  shows "(\<exists>t. sleep c lk s = Swtch t \<and> held t = [L_ptable]
      \<and> p_state (proc_at p t) = SLEEPING \<and> p_chan (proc_at p t) = Some c
      \<and> (\<forall>q. q \<noteq> p \<longrightarrow> proc_at q t = proc_at q s)
      \<and> (\<exists>u. wakeup1 (Some c) t = Ret () u \<and> p_state (proc_at p u) = RUNNABLE
           \<and> (\<exists>v. sleep_resume p lk u = Ret () v \<and> held v = [lk] \<and> p_chan (proc_at p v) = None))
      \<and> (\<forall>d. d \<noteq> c \<longrightarrow> (\<exists>u. wakeup1 (Some d) t = Ret () u \<and> p_state (proc_at p u) = SLEEPING)))
    \<and> (\<forall>k<length (sleep_steps p c lk). \<exists>t. stepsK (take k (sleep_steps p c lk)) s = Ret () t
         \<and> (held t = [lk] \<or> L_ptable \<in> set (held t)))"
proof
  define t where "t = s\<lparr>held := [L_ptable],
      procs := upd_at p (\<lambda>q. q\<lparr>p_chan := Some c, p_state := SLEEPING\<rparr>) (procs s)\<rparr>"
  have t: "sleep c lk s = Swtch t" "held t = [L_ptable]" "length (procs t) = length (procs s)"
    using sleep_Swtch [OF assms] by (simp_all add: t_def)
  have p: "p_state (procs t ! p) = SLEEPING" "p_chan (procs t ! p) = Some c"
    using assms(3) by (simp_all add: t_def)
  have others: "\<forall>q. q \<noteq> p \<longrightarrow> proc_at q t = proc_at q s"
    by (simp add: t_def proc_at_def)
  show "\<exists>t. sleep c lk s = Swtch t \<and> held t = [L_ptable]
      \<and> p_state (proc_at p t) = SLEEPING \<and> p_chan (proc_at p t) = Some c
      \<and> (\<forall>q. q \<noteq> p \<longrightarrow> proc_at q t = proc_at q s)
      \<and> (\<exists>u. wakeup1 (Some c) t = Ret () u \<and> p_state (proc_at p u) = RUNNABLE
           \<and> (\<exists>v. sleep_resume p lk u = Ret () v \<and> held v = [lk] \<and> p_chan (proc_at p v) = None))
      \<and> (\<forall>d. d \<noteq> c \<longrightarrow> (\<exists>u. wakeup1 (Some d) t = Ret () u \<and> p_state (proc_at p u) = SLEEPING))"
    using t p others assms(3)
    by (auto simp: proc_at_def wake_if_def sleep_resume_eq)
  show "\<forall>k<length (sleep_steps p c lk). \<exists>t. stepsK (take k (sleep_steps p c lk)) s = Ret () t
      \<and> (held t = [lk] \<or> L_ptable \<in> set (held t))"
    using sleep_steps_Ret [OF assms(1,2)] by blast
qed

definition demo_proc :: "int \<Rightarrow> procstate \<Rightarrow> proc" where
  "demo_proc pid st = zero_proc\<lparr>p_pid := pid, p_state := st, p_kstack := 4096, p_pgdir := 8192\<rparr>"

definition demo_sleeper :: kst where
  "demo_sleeper = \<lparr>held = [L_log], procs = [demo_proc 1 RUNNING, demo_proc 2 RUNNABLE],
     cur = Some 0, initproc = Some 0, nextpid = 3, ticks = 0\<rparr>"

theorem sleep_wakeup_contract_witness:
  "\<exists>t u. sleep Ch_log L_log demo_sleeper = Swtch t \<and> p_state (proc_at 0 t) = SLEEPING
     \<and> wakeup1 (Some Ch_log) t = Ret () u \<and> p_state (proc_at 0 u) = RUNNABLE"
proof -
  have "held demo_sleeper = [L_log]" "cur demo_sleeper = Some 0" "0 < length (procs demo_sleeper)"
    by (simp_all add: demo_sleeper_def)
  from sleep_wakeup_contract [OF this, of Ch_log] show ?thesis by blast
qed

section \<open>MLFQ selection\<close>

text \<open>
  What \<open>mlfq_select\<close> is meant to return among the first \<open>n\<close> slots: a process of the
  lowest occupied level; one that has used part of its quantum goes on; otherwise the
  highest priority wins, the earlier slot on a tie.
\<close>

definition mlfq_wins :: "proc \<Rightarrow> nat \<Rightarrow> proc \<Rightarrow> nat \<Rightarrow> bool" where
  "mlfq_wins w j p i \<longleftrightarrow> p_qlvl w \<le> p_qlvl p
     \<and> (p_qlvl p = p_qlvl w \<longrightarrow>
          (if p_tq w = 0
           then p_tq p = 0 \<and> (p_priority p < p_priority w \<or> p_priority p = p_priority w \<and> j \<le> i)
           else i < j \<longrightarrow> p_tq p = 0))"

definition mlfq_best :: "int \<Rightarrow> proc list \<Rightarrow> nat \<Rightarrow> nat \<Rightarrow> bool" where
  "mlfq_best K ps n j \<longleftrightarrow> j < n \<and> mlfq_eligible K (ps ! j)
     \<and> (\<forall>i<n. mlfq_eligible K (ps ! i) \<longrightarrow> mlfq_wins (ps ! j) j (ps ! i) i)"

lemma mlfq_wins_refl: "mlfq_wins p i p i"
  by (simp add: mlfq_wins_def)

lemma mlfq_wins_trans:
  "mlfq_prefer w q \<Longrightarrow> mlfq_wins w j p i \<Longrightarrow> j < n \<Longrightarrow> i < n \<Longrightarrow> mlfq_wins q n p i"
  unfolding mlfq_wins_def mlfq_prefer_def by (simp split: if_splits) linarith+

lemma mlfq_wins_stays: "\<not> mlfq_prefer w q \<Longrightarrow> j < n \<Longrightarrow> mlfq_wins w j q n"
  unfolding mlfq_wins_def mlfq_prefer_def by (simp split: if_splits) linarith

definition mlfq_inv :: "int \<Rightarrow> proc list \<Rightarrow> nat \<Rightarrow> nat option \<Rightarrow> bool" where
  "mlfq_inv K ps n sel = (case sel of
     None \<Rightarrow> \<forall>i<n. \<not> mlfq_eligible K (ps ! i)
   | Some j \<Rightarrow> mlfq_best K ps n j)"

lemma mlfq_visit_inv: "mlfq_inv K ps n sel \<Longrightarrow> mlfq_inv K ps (Suc n) (mlfq_visit K ps sel n)"
proof (cases sel)
  case None
  then show "mlfq_inv K ps n sel \<Longrightarrow> ?thesis"
    by (auto simp: mlfq_inv_def mlfq_visit_def mlfq_best_def mlfq_wins_refl less_Suc_eq)
next
  case (Some j)
  assume "mlfq_inv K ps n sel"
  then have best: "mlfq_best K ps n j" by (simp add: mlfq_inv_def Some)
  show ?thesis
  proof (cases "mlfq_eligible K (ps ! n) \<and> mlfq_prefer (ps ! j) (ps ! n)")
    case True
    then have "mlfq_best K ps (Suc n) n"
      using best mlfq_wins_refl mlfq_wins_trans [of "ps ! j" "ps ! n" j]
      unfolding mlfq_best_def by (metis lessI less_Suc_eq)
    with True show ?thesis by (simp add: mlfq_inv_def mlfq_visit_def Some)
  next
    case False
    then have "mlfq_best K ps (Suc n) j"
      using best mlfq_wins_stays [of "ps ! j" "ps ! n" j n]
      unfolding mlfq_best_def by (metis less_Suc_eq)
    with False show ?thesis by (auto simp: mlfq_inv_def mlfq_visit_def Some)
  qed
qed

lemma mlfq_scan_inv: "mlfq_inv K ps n (foldl (mlfq_visit K ps) None [0..<n])"
  by (induction n) (simp_all add: mlfq_visit_inv, simp add: mlfq_inv_def)

text \<open>
  C3. The MLFQ scheduler's selection loop returns no process exactly when no process is
  both runnable and above the bottom level \<^verbatim>\<open>MLFQ_K\<close>; otherwise it returns a process of the
  lowest occupied level number, which is the first one in the middle of its quantum if
  there is one and else the first one with the highest priority.
\<close>

theorem mlfq_select_correct:
  "case mlfq_select K ps of
     None \<Rightarrow> \<forall>i<length ps. p_state (ps ! i) \<noteq> RUNNABLE \<or> p_qlvl (ps ! i) = K
   | Some j \<Rightarrow> mlfq_best K ps (length ps) j"
  using mlfq_scan_inv [of K ps "length ps"]
  by (auto simp: mlfq_select_def mlfq_inv_def mlfq_eligible_def split: option.splits)

definition demo_mlfq :: "proc list" where
  "demo_mlfq =
     [demo_proc 1 SLEEPING, (demo_proc 2 RUNNABLE)\<lparr>p_qlvl := 1, p_tq := 2\<rparr>,
      (demo_proc 3 RUNNABLE)\<lparr>p_priority := 5\<rparr>, (demo_proc 4 RUNNABLE)\<lparr>p_tq := 1\<rparr>]"

lemma demo_mlfq_length: "length demo_mlfq = 4"
  by (simp add: demo_mlfq_def)

theorem mlfq_select_correct_witness:
  "mlfq_select 3 demo_mlfq = Some 3 \<and> mlfq_best 3 demo_mlfq 4 3"
proof -
  have "mlfq_select 3 demo_mlfq = Some 3"
    by (simp add: mlfq_select_def demo_mlfq_def mlfq_visit_def mlfq_eligible_def mlfq_prefer_def
        demo_proc_def zero_proc_def upt_rec)
  with mlfq_select_correct [where K = 3 and ps = demo_mlfq] show ?thesis by (simp add: demo_mlfq_length)
qed

section \<open>What the scheduler passes rely on\<close>

text \<open>
  A process that runs gives the processor back with \<^verbatim>\<open>ptable.lock\<close> as it was, keeps every
  other runnable process runnable under its pid, and leaves no runnable process without a
  kernel stack or a page directory.
\<close>

definition table_ok :: "'z kst_scheme \<Rightarrow> bool" where
  "table_ok s \<longleftrightarrow> (\<forall>q<length (procs s). p_state (proc_at q s) = RUNNABLE \<longrightarrow>
     p_kstack (proc_at q s) \<noteq> 0 \<and> p_pgdir (proc_at q s) \<noteq> 0)"

definition run_post :: "nat \<Rightarrow> 'z kst_scheme \<Rightarrow> 'z kst_scheme \<Rightarrow> bool" where
  "run_post p s t \<longleftrightarrow> held t = held s \<and> length (procs t) = length (procs s) \<and> table_ok t
     \<and> (\<forall>q<length (procs s). q \<noteq> p \<and> p_state (proc_at q s) = RUNNABLE \<longrightarrow>
          p_state (proc_at q t) = RUNNABLE \<and> p_pid (proc_at q t) = p_pid (proc_at q s))"

definition run_ok :: "(nat \<Rightarrow> ('z kst_scheme, unit) kop) \<Rightarrow> bool" where
  "run_ok run \<longleftrightarrow> (\<forall>p s. table_ok s \<and> p < length (procs s) \<longrightarrow> (\<exists>t. run p s = Ret () t \<and> run_post p s t))"

lemma sched_run_ok:
  assumes "run_ok run" "table_ok s" "p < length (procs s)" "p_state (proc_at p s) = RUNNABLE"
  shows "\<exists>t. sched_run run p s = Ret () t \<and> run_post p s t"
proof -
  define s1 where "s1 = s\<lparr>cur := Some p, procs := upd_at p (\<lambda>q. q\<lparr>p_state := RUNNING\<rparr>) (procs s)\<rparr>"
  have other: "q \<noteq> p \<Longrightarrow> proc_at q s1 = proc_at q s" for q by (simp add: s1_def proc_at_def)
  have self: "p_state (proc_at p s1) = RUNNING" using assms(3) by (simp add: s1_def proc_at_def)
  have len: "length (procs s1) = length (procs s)" and hd: "held s1 = held s" by (simp_all add: s1_def)
  have "table_ok s1"
    using assms(2) other self len unfolding table_ok_def by (metis procstate.simps(25))
  then obtain t where t: "run p s1 = Ret () t" "run_post p s1 t"
    using assms(1,3) len unfolding run_ok_def by metis
  have "run_post p s (t\<lparr>cur := None\<rparr>)"
    using t(2) other len hd unfolding run_post_def table_ok_def by auto
  moreover have "sched_run run p s = Ret () (t\<lparr>cur := None\<rparr>)"
    using assms t(1) by (simp add: sched_run_def switchuvm_def table_ok_def s1_def)
  ultimately show ?thesis by blast
qed

lemma run_post_trans:
  "run_post p s t \<Longrightarrow> p_state (proc_at q s) = RUNNABLE \<Longrightarrow> q \<noteq> p \<Longrightarrow> q < length (procs s) \<Longrightarrow>
   p_state (proc_at q t) = RUNNABLE \<and> p_pid (proc_at q t) = p_pid (proc_at q s)"
  by (simp add: run_post_def)

section \<open>Round robin\<close>

lemma rr_loop_ok:
  assumes "run_ok run" "table_ok s" "distinct ps" "\<forall>p \<in> set ps. p < length (procs s)"
  shows "\<exists>tr t. rr_loop run ps s = Ret tr t \<and> held t = held s \<and> subseq tr ps
           \<and> (\<forall>q \<in> set ps. p_state (proc_at q s) = RUNNABLE \<longrightarrow> q \<in> set tr)"
  using assms(2-)
proof (induction ps arbitrary: s)
  case (Cons p ps)
  show ?case
  proof (cases "p_state (proc_at p s) = RUNNABLE")
    case False
    with Cons.IH [of s] Cons.prems show ?thesis by fastforce
  next
    case True
    obtain s1 where s1: "sched_run run p s = Ret () s1" "run_post p s s1"
      using sched_run_ok [OF assms(1) Cons.prems(1) _ True] Cons.prems by auto
    then have "table_ok s1" "length (procs s1) = length (procs s)" "held s1 = held s"
      by (simp_all add: run_post_def)
    with Cons.IH [of s1] Cons.prems obtain tr t where
      t: "rr_loop run ps s1 = Ret tr t" "held t = held s" "subseq tr ps"
      "\<forall>q \<in> set ps. p_state (proc_at q s1) = RUNNABLE \<longrightarrow> q \<in> set tr"
      by auto
    have "\<forall>q \<in> set ps. p_state (proc_at q s) = RUNNABLE \<longrightarrow> q \<in> set tr"
      using run_post_trans [OF s1(2)] t(4) Cons.prems by auto
    with s1(1) t True show ?thesis by simp
  qed
qed simp

lemma sorted_wrt_subseq: "subseq xs ys \<Longrightarrow> sorted_wrt P ys \<Longrightarrow> sorted_wrt P xs"
  by (induction rule: list_emb.induct) (auto dest: list_emb_set)

text \<open>
  C11. One pass of the round-robin scheduler is fair: it returns with the locks as they
  were, it switches to processes in slot order and to none twice, and every process that
  is runnable when the pass starts is among them.
\<close>

theorem rr_pass_fair:
  assumes "run_ok run" "table_ok s" "L_ptable \<notin> set (held s)"
  shows "\<exists>tr t. scheduler RR_SCHED run s = Ret tr t \<and> held t = held s
           \<and> sorted_wrt (<) tr
           \<and> (\<forall>q<length (procs s). p_state (proc_at q s) = RUNNABLE \<longrightarrow> q \<in> set tr)"
proof -
  let ?s = "s\<lparr>held := L_ptable # held s\<rparr>"
  have "table_ok ?s" using assms(2) by (simp add: table_ok_def)
  from rr_loop_ok [OF assms(1) this, of "[0..<length (procs s)]"] obtain tr t where
    t: "rr_loop run [0..<length (procs s)] ?s = Ret tr t" "held t = L_ptable # held s"
    "subseq tr [0..<length (procs s)]"
    "\<forall>q<length (procs s). p_state (proc_at q s) = RUNNABLE \<longrightarrow> q \<in> set tr"
    by auto
  have "sorted_wrt (<) tr"
    using t(3) sorted_wrt_subseq sorted_wrt_upt by blast
  then show ?thesis
    using t assms(3) by (auto simp: scheduler_def scheduler_rr_def lock_simps)
qed

definition demo_run :: "nat \<Rightarrow> (kst, unit) kop" where
  "demo_run p = upd_proc p (\<lambda>q. q\<lparr>p_state := ZOMBIE\<rparr>)"

lemma demo_run_ok: "run_ok demo_run"
  by (auto simp: run_ok_def run_post_def table_ok_def demo_run_def proc_at_def nth_upd_at
      split: if_splits)

definition demo_idle :: "proc list \<Rightarrow> kst" where
  "demo_idle ps = \<lparr>held = [], procs = ps, cur = None, initproc = Some 0, nextpid = 9, ticks = 0\<rparr>"

definition demo_table :: "proc list" where
  "demo_table = [demo_proc 1 SLEEPING, demo_proc 7 RUNNABLE, demo_proc 4 RUNNABLE, demo_proc 3 RUNNABLE]"

lemma demo_idle_ok: "table_ok (demo_idle demo_table)" "L_ptable \<notin> set (held (demo_idle demo_table))"
  by (auto simp: table_ok_def demo_idle_def demo_table_def demo_proc_def proc_at_def less_Suc_eq)

theorem rr_pass_fair_witness:
  "\<exists>tr t. scheduler RR_SCHED demo_run (demo_idle demo_table) = Ret tr t \<and> {1, 2, 3} \<subseteq> set tr"
proof -
  have "p_state (proc_at q (demo_idle demo_table)) = RUNNABLE" if "q \<in> {1, 2, 3}" for q
    using that by (auto simp: demo_idle_def demo_table_def demo_proc_def proc_at_def)
  with rr_pass_fair [OF demo_run_ok demo_idle_ok] show ?thesis
    by (fastforce simp: demo_idle_def demo_table_def)
qed

section \<open>Multilevel\<close>

text \<open>What \<^verbatim>\<open>proc_odd\<close> is after visiting a process that is not switched to.\<close>

definition ml_next :: "'z kst_scheme \<Rightarrow> nat \<Rightarrow> nat option \<Rightarrow> nat option" where
  "ml_next s p odd_p =
     (if p_state (proc_at p s) \<noteq> RUNNABLE \<or> p_pid (proc_at p s) \<le> 0 then odd_p
      else case odd_p of None \<Rightarrow> Some p
        | Some k \<Rightarrow> if p_pid (proc_at k s) > p_pid (proc_at p s) then Some p else odd_p)"

lemma ml_loop_skip:
  "\<not> (p_state (proc_at p s) = RUNNABLE \<and> p_pid (proc_at p s) mod 2 = 0) \<Longrightarrow>
   ml_loop run (p # ps) odd_p evn s = ml_loop run ps (ml_next s p odd_p) evn s"
  by (cases odd_p) (auto simp: ml_next_def bindK_def)

lemma ml_loop_even:
  assumes "run_ok run" "table_ok s" "distinct ps" "\<forall>p \<in> set ps. p < length (procs s)"
  shows "\<exists>o' tr t. ml_loop run ps odd_p evn s = Ret (o', evn \<or> tr \<noteq> [], tr) t \<and> held t = held s
           \<and> set tr \<subseteq> set ps
           \<and> (\<forall>q \<in> set ps. p_state (proc_at q s) = RUNNABLE \<longrightarrow>
                (q \<in> set tr \<longleftrightarrow> p_pid (proc_at q s) mod 2 = 0))"
  using assms(2-)
proof (induction ps arbitrary: s odd_p evn)
  case (Cons p ps)
  let ?run_even = "p_state (proc_at p s) = RUNNABLE \<and> p_pid (proc_at p s) mod 2 = 0"
  show ?case
  proof (cases ?run_even)
    case False
    from ml_loop_skip [OF this] False Cons.IH [of s "ml_next s p odd_p" evn] Cons.prems
    show ?thesis by fastforce
  next
    case True
    obtain s1 where s1: "sched_run run p s = Ret () s1" "run_post p s s1"
      using sched_run_ok [OF assms(1) Cons.prems(1)] Cons.prems True by auto
    then have "table_ok s1" "length (procs s1) = length (procs s)" "held s1 = held s"
      by (simp_all add: run_post_def)
    with Cons.IH [of s1 odd_p True] Cons.prems obtain o' tr t where
      t: "ml_loop run ps odd_p True s1 = Ret (o', True, tr) t" "held t = held s" "set tr \<subseteq> set ps"
      "\<forall>q \<in> set ps. p_state (proc_at q s1) = RUNNABLE \<longrightarrow> (q \<in> set tr \<longleftrightarrow> p_pid (proc_at q s1) mod 2 = 0)"
      by auto
    have "\<forall>q \<in> set ps. p_state (proc_at q s) = RUNNABLE \<longrightarrow>
        (q \<in> set tr \<longleftrightarrow> p_pid (proc_at q s) mod 2 = 0)"
    proof (intro ballI impI)
      fix q assume q: "q \<in> set ps" "p_state (proc_at q s) = RUNNABLE"
      then have "q \<noteq> p" "q < length (procs s)" using Cons.prems by auto
      then show "q \<in> set tr \<longleftrightarrow> p_pid (proc_at q s) mod 2 = 0"
        using run_post_trans [OF s1(2) q(2)] t(4) q(1) by fastforce
    qed
    moreover have "ml_loop run (p # ps) odd_p evn s = Ret (o', True, p # tr) t"
      using s1(1) t(1) True by simp
    ultimately show ?thesis using t(2,3) Cons.prems True by auto
  qed
qed simp

text \<open>With no even process runnable the loop only remembers the smallest odd pid.\<close>

definition ml_least :: "'z kst_scheme \<Rightarrow> nat set \<Rightarrow> nat option \<Rightarrow> bool" where
  "ml_least s A o_p = (case o_p of
     None \<Rightarrow> \<forall>q \<in> A. p_state (proc_at q s) \<noteq> RUNNABLE
   | Some p \<Rightarrow> p \<in> A \<and> p_state (proc_at p s) = RUNNABLE
       \<and> (\<forall>q \<in> A. p_state (proc_at q s) = RUNNABLE \<longrightarrow> p_pid (proc_at p s) \<le> p_pid (proc_at q s)))"

lemma ml_loop_odd:
  assumes "\<forall>q \<in> set ps. p_state (proc_at q s) = RUNNABLE \<longrightarrow> 0 < p_pid (proc_at q s) \<and> p_pid (proc_at q s) mod 2 \<noteq> 0"
    and "ml_least s A odd_p"
  shows "\<exists>o'. ml_loop run ps odd_p evn s = Ret (o', evn, []) s \<and> ml_least s (A \<union> set ps) o'"
  using assms
proof (induction ps arbitrary: A odd_p)
  case (Cons p ps)
  have "ml_loop run (p # ps) odd_p evn s = ml_loop run ps (ml_next s p odd_p) evn s"
    using Cons.prems(1) by (intro ml_loop_skip) auto
  moreover have "ml_least s (insert p A) (ml_next s p odd_p)"
    using Cons.prems by (auto simp: ml_least_def ml_next_def split: option.splits)
  ultimately show ?case
    using Cons.IH [of "insert p A" "ml_next s p odd_p"] Cons.prems(1) by simp
qed simp

text \<open>
  C4. One pass of the multilevel scheduler: while a process with an even pid is runnable,
  the pass switches to every runnable process with an even pid and to none of the
  runnable ones with an odd pid; when only odd ones are runnable it switches to exactly
  one, the one with the smallest pid; and when none is runnable it switches to none.
\<close>

theorem multilevel_pass_correct:
  assumes run: "run_ok run" and tab: "table_ok s" and lock: "L_ptable \<notin> set (held s)"
    and pos: "\<forall>q<length (procs s). p_state (proc_at q s) = RUNNABLE \<longrightarrow> 0 < p_pid (proc_at q s)"
  shows "\<exists>tr t. scheduler MULTILEVEL_SCHED run s = Ret tr t \<and> held t = held s \<and>
    (if \<exists>q<length (procs s). p_state (proc_at q s) = RUNNABLE \<and> p_pid (proc_at q s) mod 2 = 0
     then \<forall>q<length (procs s). p_state (proc_at q s) = RUNNABLE \<longrightarrow>
            (q \<in> set tr \<longleftrightarrow> p_pid (proc_at q s) mod 2 = 0)
     else if \<exists>q<length (procs s). p_state (proc_at q s) = RUNNABLE
     then \<exists>p<length (procs s). tr = [p] \<and> p_state (proc_at p s) = RUNNABLE \<and>
            (\<forall>q<length (procs s). p_state (proc_at q s) = RUNNABLE \<longrightarrow>
               p_pid (proc_at p s) \<le> p_pid (proc_at q s))
     else tr = [])"
proof (cases "\<exists>q<length (procs s). p_state (proc_at q s) = RUNNABLE \<and> p_pid (proc_at q s) mod 2 = 0")
  case True
  let ?s = "s\<lparr>held := L_ptable # held s\<rparr>"
  have "table_ok ?s" using tab by (simp add: table_ok_def)
  from ml_loop_even [OF run this, of "[0..<length (procs s)]" None False] obtain o' tr t where
    t: "ml_loop run [0..<length (procs s)] None False ?s = Ret (o', tr \<noteq> [], tr) t"
    "held t = L_ptable # held s"
    "\<forall>q<length (procs s). p_state (proc_at q s) = RUNNABLE \<longrightarrow>
       (q \<in> set tr \<longleftrightarrow> p_pid (proc_at q s) mod 2 = 0)"
    by auto
  then have "tr \<noteq> []" using True by fastforce
  with t True lock show ?thesis
    by (auto simp: scheduler_def scheduler_multilevel_def lock_simps split: option.splits)
next
  case False
  let ?s = "s\<lparr>held := L_ptable # held s\<rparr>"
  have odd: "\<forall>q \<in> set [0..<length (procs s)]. p_state (proc_at q ?s) = RUNNABLE \<longrightarrow>
      0 < p_pid (proc_at q ?s) \<and> p_pid (proc_at q ?s) mod 2 \<noteq> 0"
    using False pos by auto
  have "ml_least ?s {} None" by (simp add: ml_least_def)
  from ml_loop_odd [OF odd this, of run False] obtain o' where
    t: "ml_loop run [0..<length (procs s)] None False ?s = Ret (o', False, []) ?s"
    "ml_least ?s {0..<length (procs s)} o'"
    by auto
  show ?thesis
  proof (cases o')
    case None
    with t False lock show ?thesis
      by (auto simp: scheduler_def scheduler_multilevel_def lock_simps ml_least_def)
  next
    case (Some p)
    then have p: "p < length (procs s)" "p_state (proc_at p s) = RUNNABLE" 
      "\<forall>q<length (procs s). p_state (proc_at q s) = RUNNABLE \<longrightarrow> p_pid (proc_at p s) \<le> p_pid (proc_at q s)"
      using t(2) by (auto simp: ml_least_def)
    have "table_ok ?s" using tab by (simp add: table_ok_def)
    from sched_run_ok [OF run this, of p] p obtain t' where
      t': "sched_run run p ?s = Ret () t'" "held t' = L_ptable # held s"
      by (auto simp: run_post_def)
    have "scheduler MULTILEVEL_SCHED run s = Ret [p] (t'\<lparr>held := held s\<rparr>)"
      using t(1) t' lock Some by (simp add: scheduler_def scheduler_multilevel_def lock_simps)
    with False p show ?thesis by auto
  qed
qed

theorem multilevel_pass_correct_witness:
  "\<exists>tr t. scheduler MULTILEVEL_SCHED demo_run (demo_idle demo_table) = Ret tr t
     \<and> 2 \<in> set tr \<and> 1 \<notin> set tr \<and> 3 \<notin> set tr"
proof -
  have st: "p_state (proc_at q (demo_idle demo_table)) = RUNNABLE" if "q \<in> {1, 2, 3}" for q
    using that by (auto simp: demo_idle_def demo_table_def demo_proc_def proc_at_def)
  have len: "length (procs (demo_idle demo_table)) = 4"
    by (simp add: demo_idle_def demo_table_def)
  have pid: "p_pid (proc_at 1 (demo_idle demo_table)) = 7" "p_pid (proc_at 2 (demo_idle demo_table)) = 4"
    "p_pid (proc_at 3 (demo_idle demo_table)) = 3"
    by (simp_all add: demo_idle_def demo_table_def demo_proc_def proc_at_def)
  have "\<forall>q<length (procs (demo_idle demo_table)). p_state (proc_at q (demo_idle demo_table)) = RUNNABLE \<longrightarrow>
      0 < p_pid (proc_at q (demo_idle demo_table))"
    by (auto simp: demo_idle_def demo_table_def demo_proc_def proc_at_def less_Suc_eq)
  moreover have "\<exists>q<4. p_state (proc_at q (demo_idle demo_table)) = RUNNABLE
      \<and> p_pid (proc_at q (demo_idle demo_table)) mod 2 = 0"
    using st pid by (intro exI [of _ 2]) simp
  ultimately obtain tr t where "scheduler MULTILEVEL_SCHED demo_run (demo_idle demo_table) = Ret tr t"
    "\<forall>q<4. p_state (proc_at q (demo_idle demo_table)) = RUNNABLE \<longrightarrow>
      (q \<in> set tr \<longleftrightarrow> p_pid (proc_at q (demo_idle demo_table)) mod 2 = 0)"
    using multilevel_pass_correct [OF demo_run_ok demo_idle_ok] unfolding len by (simp only: if_True) blast
  then show ?thesis using st [of 1] st [of 2] st [of 3] pid by auto
qed

end
