(* ===== verification/Sleeplock.thy ===== *)
theory Sleeplock
  imports Sched
begin

text \<open>
  sleeplock.c: locks that put their waiters to sleep, on top of the spin lock \<^verbatim>\<open>lk->lk\<close>
  (\<open>L_sleep i\<close>) and of \<^verbatim>\<open>sleep\<close>/\<^verbatim>\<open>wakeup\<close>. The second half runs any number of processes
  against one lock, each step one action of the function a process is in, and proves mutual
  exclusion, that no wakeup is lost, and that some process can always go on.
\<close>

record sleeplock =
  sl_locked :: bool
  sl_pid :: int

record slst = kst +
  slk :: "sleeplock_id \<Rightarrow> sleeplock"

definition upd_slk :: "sleeplock_id \<Rightarrow> (sleeplock \<Rightarrow> sleeplock) \<Rightarrow> ('z slst_scheme, unit) kop" where
  "upd_slk i f = modify (\<lambda>s. s\<lparr>slk := (slk s)(i := f (slk s i))\<rparr>)"

definition initsleeplock :: "sleeplock_id \<Rightarrow> ('z slst_scheme, unit) kop" where
  "initsleeplock i = upd_slk i (\<lambda>l. l\<lparr>sl_locked := False, sl_pid := 0\<rparr>)"

text \<open>
  The test of the \<^verbatim>\<open>while\<close> loop and what follows it. It runs once on entry and again each
  time the sleeping process is switched back in (\<open>acquiresleep_resume\<close>).
\<close>

definition take_steps :: "sleeplock_id \<Rightarrow> ('z slst_scheme, unit) kop list" where
  "take_steps i =
     [upd_slk i (\<lambda>l. l\<lparr>sl_locked := True\<rparr>),
      bindK myproc (\<lambda>p. bindK (gets (\<lambda>s. p_pid (proc_at p s))) (\<lambda>pid. upd_slk i (\<lambda>l. l\<lparr>sl_pid := pid\<rparr>))),
      rel (L_sleep i)]"

definition must_sleep :: "sleeplock_id \<Rightarrow> 'z slst_scheme \<Rightarrow> bool" where
  "must_sleep i s \<longleftrightarrow> sl_locked (slk s i)"

definition acquiresleep_test :: "sleeplock_id \<Rightarrow> ('z slst_scheme, unit) kop" where
  "acquiresleep_test i =
     bindK (gets (must_sleep i)) (\<lambda>b.
     if b then sleep (Ch_sleep i) (L_sleep i) else stepsK (take_steps i))"

definition acquiresleep :: "sleeplock_id \<Rightarrow> ('z slst_scheme, unit) kop" where
  "acquiresleep i = seqK (acq (L_sleep i)) (acquiresleep_test i)"

definition acquiresleep_resume :: "nat \<Rightarrow> sleeplock_id \<Rightarrow> ('z slst_scheme, unit) kop" where
  "acquiresleep_resume p i = seqK (sleep_resume p (L_sleep i)) (acquiresleep_test i)"

definition releasesleep_steps :: "sleeplock_id \<Rightarrow> ('z slst_scheme, unit) kop list" where
  "releasesleep_steps i =
     [acq (L_sleep i),
      upd_slk i (\<lambda>l. l\<lparr>sl_locked := False\<rparr>),
      upd_slk i (\<lambda>l. l\<lparr>sl_pid := 0\<rparr>)]
     @ wakeup_steps (Ch_sleep i)
     @ [rel (L_sleep i)]"

definition releasesleep :: "sleeplock_id \<Rightarrow> ('z slst_scheme, unit) kop" where
  "releasesleep i = stepsK (releasesleep_steps i)"

definition holdingsleep :: "sleeplock_id \<Rightarrow> ('z slst_scheme, bool) kop" where
  "holdingsleep i =
     seqK (acq (L_sleep i))
     (bindK (gets (\<lambda>s. slk s i)) (\<lambda>l.
      bindK (if sl_locked l then bindK myproc (\<lambda>p. gets (\<lambda>s. sl_pid l = p_pid (proc_at p s))) else ret False)
      (\<lambda>r. seqK (rel (L_sleep i)) (ret r))))"

section \<open>Closed forms\<close>

lemma upd_slk_eq [simp]: "upd_slk i f s = Ret () (s\<lparr>slk := (slk s)(i := f (slk s i))\<rparr>)"
  by (simp add: upd_slk_def)

lemma acquiresleep_free:
  assumes "L_sleep i \<notin> set (held s)" "cur s = Some p" "\<not> sl_locked (slk s i)"
  shows "acquiresleep i s =
    Ret () (s\<lparr>slk := (slk s)(i := (slk s i)\<lparr>sl_locked := True, sl_pid := p_pid (proc_at p s)\<rparr>)\<rparr>)"
  using assms by (simp add: acquiresleep_def acquiresleep_test_def must_sleep_def take_steps_def lock_simps proc_at_def)

lemma acquiresleep_busy:
  assumes "held s = []" "cur s = Some p" "p < length (procs s)" "sl_locked (slk s i)"
  shows "acquiresleep i s = Swtch (s\<lparr>held := [L_ptable],
    procs := upd_at p (\<lambda>q. q\<lparr>p_chan := Some (Ch_sleep i), p_state := SLEEPING\<rparr>) (procs s)\<rparr>)"
  using assms sleep_Swtch [of "s\<lparr>held := [L_sleep i]\<rparr>" "L_sleep i" p "Ch_sleep i"]
  by (simp add: acquiresleep_def acquiresleep_test_def must_sleep_def lock_simps)

lemma releasesleep_eq:
  assumes "L_sleep i \<notin> set (held s)" "L_ptable \<notin> set (held s)"
  shows "releasesleep i s =
    Ret () (s\<lparr>slk := (slk s)(i := (slk s i)\<lparr>sl_locked := False, sl_pid := 0\<rparr>),
              procs := map (wake_if (Some (Ch_sleep i))) (procs s)\<rparr>)"
  using assms by (simp add: releasesleep_def releasesleep_steps_def wakeup_steps_def lock_simps)

lemma holdingsleep_eq:
  assumes "L_sleep i \<notin> set (held s)" "cur s = Some p"
  shows "holdingsleep i s = Ret (sl_locked (slk s i) \<and> sl_pid (slk s i) = p_pid (proc_at p s)) s"
  using assms by (simp add: holdingsleep_def lock_simps)

section \<open>Processes contending for one sleep lock\<close>

text \<open>
  Where a process is: outside; about to take \<^verbatim>\<open>lk->lk\<close>; at the test of the loop; before
  action \<open>n\<close> of \<^verbatim>\<open>sleep\<close>; switched out by \<^verbatim>\<open>sched\<close>; before action \<open>n\<close> of the rest of
  \<^verbatim>\<open>sleep\<close>; before action \<open>n\<close> after the loop; inside; before action \<open>n\<close> of \<^verbatim>\<open>releasesleep\<close>.
\<close>

datatype sl_pc = Outside | Entering | Testing | Sleeping nat | Waiting | Resuming nat
  | Taking nat | Inside | Leaving nat

text \<open>
  The processes run at the same time, each on its processor, on one memory \<open>sys_k\<close>; the spin
  locks a processor holds are \<open>sys_held\<close>. (A process that is preempted while it holds no spin
  lock is one that takes no step for a while.)
\<close>

record sl_sys =
  sys_k :: slst
  sys_held :: "nat \<Rightarrow> lock_id list"
  sys_pc :: "nat \<Rightarrow> sl_pc"

fun sl_action :: "sleeplock_id \<Rightarrow> nat \<Rightarrow> sl_pc \<Rightarrow> (slst, unit) kop option" where
  "sl_action i p Entering = Some (acq (L_sleep i))"
| "sl_action i p (Sleeping n) = Some (sleep_steps p (Ch_sleep i) (L_sleep i) ! n)"
| "sl_action i p (Resuming n) = Some (resume_steps p (L_sleep i) ! n)"
| "sl_action i p (Taking n) = Some (take_steps i ! n)"
| "sl_action i p (Leaving n) = Some (releasesleep_steps i ! n)"
| "sl_action i p _ = None"

fun sl_next :: "sleeplock_id \<Rightarrow> sl_pc \<Rightarrow> sl_pc" where
  "sl_next i Entering = Testing"
| "sl_next i (Sleeping n) = Sleeping (Suc n)"
| "sl_next i (Resuming n) =
     (if Suc n < length (resume_steps 0 (L_sleep i) :: (slst, unit) kop list) then Resuming (Suc n) else Testing)"
| "sl_next i (Taking n) =
     (if Suc n < length (take_steps i :: (slst, unit) kop list) then Taking (Suc n) else Inside)"
| "sl_next i (Leaving n) =
     (if Suc n < length (releasesleep_steps i :: (slst, unit) kop list) then Leaving (Suc n) else Outside)"
| "sl_next i at = at"

text \<open>The memory as the processor of \<open>p\<close> sees it, and whether no other processor holds \<open>ls\<close>.\<close>

definition as_running :: "nat \<Rightarrow> sl_sys \<Rightarrow> slst" where
  "as_running p y = (sys_k y)\<lparr>held := sys_held y p, cur := Some p\<rparr>"

definition others_free :: "nat \<Rightarrow> lock_id list \<Rightarrow> sl_sys \<Rightarrow> bool" where
  "others_free p ls y \<longleftrightarrow>
     list_all (\<lambda>q. q = p \<or> set (sys_held y q) \<inter> set ls = {}) [0..<length (procs (sys_k y))]"

definition sl_goto :: "nat \<Rightarrow> slst \<Rightarrow> lock_id list \<Rightarrow> sl_pc \<Rightarrow> sl_sys \<Rightarrow> sl_sys" where
  "sl_goto p t ls at y = y\<lparr>sys_k := t, sys_held := (sys_held y)(p := ls), sys_pc := (sys_pc y)(p := at)\<rparr>"

text \<open>
  One step of process \<open>p\<close>. An action that takes a spin lock waits until no other processor
  holds it (theory \<open>Spinlock\<close> proves that of \<^verbatim>\<open>acquire\<close>). \<^verbatim>\<open>sched\<close> switches to the scheduler,
  which lets go of \<^verbatim>\<open>ptable.lock\<close>; a process that was woken is switched to with
  \<^verbatim>\<open>ptable.lock\<close> taken and marked \<^verbatim>\<open>RUNNING\<close> (\<open>sched_run\<close>).
\<close>

definition sl_exec :: "sleeplock_id \<Rightarrow> nat \<Rightarrow> sl_sys \<Rightarrow> sl_sys option" where
  "sl_exec i p y = (case sl_action i p (sys_pc y p) of
     Some a \<Rightarrow> (case a (as_running p y) of
         Ret _ t \<Rightarrow> if others_free p (held t) y then Some (sl_goto p t (held t) (sl_next i (sys_pc y p)) y) else None
       | Swtch t \<Rightarrow> Some (sl_goto p t [] Waiting y)
       | _ \<Rightarrow> None)
   | None \<Rightarrow> (case sys_pc y p of
         Outside \<Rightarrow> Some (sl_goto p (sys_k y) (sys_held y p) Entering y)
       | Testing \<Rightarrow> Some (sl_goto p (sys_k y) (sys_held y p)
           (if must_sleep i (sys_k y) then Sleeping 0 else Taking 0) y)
       | Waiting \<Rightarrow>
           if p_state (procs (sys_k y) ! p) = RUNNABLE \<and> others_free p [L_ptable] y
           then Some (sl_goto p ((sys_k y)\<lparr>procs := upd_at p (\<lambda>q. q\<lparr>p_state := RUNNING\<rparr>) (procs (sys_k y))\<rparr>)
             [L_ptable] (Resuming 0) y)
           else None
       | Inside \<Rightarrow> Some (sl_goto p (sys_k y) (sys_held y p) (Leaving 0) y)
       | _ \<Rightarrow> None))"

definition sl_init :: "sleeplock_id \<Rightarrow> sl_sys \<Rightarrow> bool" where
  "sl_init i y \<longleftrightarrow> (\<forall>p. sys_pc y p = Outside \<and> sys_held y p = []) \<and> \<not> sl_locked (slk (sys_k y) i)
     \<and> (\<forall>q \<in> set (procs (sys_k y)). p_state q = RUNNING)"

inductive sl_reachable :: "sleeplock_id \<Rightarrow> sl_sys \<Rightarrow> bool" for i where
  init: "sl_init i y \<Longrightarrow> sl_reachable i y"
| step: "sl_reachable i y \<Longrightarrow> p < length (procs (sys_k y)) \<Longrightarrow> sl_exec i p y = Some y' \<Longrightarrow> sl_reachable i y'"

text \<open>
  The invariant. What a process holds, and the state it is in, follow from where it is
  (\<open>sl_locks\<close>, \<open>sl_state_ok\<close>); no spin lock is held twice; \<^verbatim>\<open>locked\<close> is set exactly while one
  process owns the lock; and a process that is on its way to sleep, or asleep, has a
  wakeup coming: the lock is owned, or its last owner is before the wakeup of
  \<^verbatim>\<open>releasesleep\<close> (\<open>sl_waking\<close>).
\<close>

fun sl_pc_ok :: "sl_pc \<Rightarrow> bool" where
  "sl_pc_ok (Sleeping n) = (n < 5)"
| "sl_pc_ok (Resuming n) = (n < 3)"
| "sl_pc_ok (Taking n) = (n < 3)"
| "sl_pc_ok (Leaving n) = (n < 7)"
| "sl_pc_ok at = True"

fun sl_locks :: "sleeplock_id \<Rightarrow> sl_pc \<Rightarrow> lock_id list" where
  "sl_locks i Testing = [L_sleep i]"
| "sl_locks i (Sleeping n) = (if n = 0 then [L_sleep i] else if n = 1 then [L_ptable, L_sleep i] else [L_ptable])"
| "sl_locks i (Resuming n) = (if n < 2 then [L_ptable] else [])"
| "sl_locks i (Taking n) = [L_sleep i]"
| "sl_locks i (Leaving n) =
     (if n = 0 then [] else if n = 4 \<or> n = 5 then [L_ptable, L_sleep i] else [L_sleep i])"
| "sl_locks i at = []"

fun sl_owns :: "sl_pc \<Rightarrow> bool" where
  "sl_owns (Taking n) = (0 < n)"
| "sl_owns Inside = True"
| "sl_owns (Leaving n) = (n < 2)"
| "sl_owns at = False"

fun sl_named :: "sl_pc \<Rightarrow> bool" where
  "sl_named (Taking n) = (1 < n)"
| "sl_named Inside = True"
| "sl_named (Leaving n) = (n < 2)"
| "sl_named at = False"

text \<open>Before it takes the lock, or after it has given it up, with the spin lock held.\<close>

fun sl_clear :: "sl_pc \<Rightarrow> bool" where
  "sl_clear (Taking n) = (n = 0)"
| "sl_clear (Leaving n) = (1 < n)"
| "sl_clear at = False"

fun sl_waking :: "sl_pc \<Rightarrow> bool" where
  "sl_waking (Leaving n) = (1 < n \<and> n < 5)"
| "sl_waking at = False"

fun sl_state_ok :: "sleeplock_id \<Rightarrow> proc \<Rightarrow> sl_pc \<Rightarrow> bool" where
  "sl_state_ok i q (Sleeping n) =
     ((2 < n \<longrightarrow> p_chan q = Some (Ch_sleep i)) \<and> p_state q = (if n < 4 then RUNNING else SLEEPING))"
| "sl_state_ok i q Waiting =
     (p_state q = RUNNABLE \<or> p_state q = SLEEPING \<and> p_chan q = Some (Ch_sleep i))"
| "sl_state_ok i q at = (p_state q = RUNNING)"

fun sl_dozing :: "proc \<Rightarrow> sl_pc \<Rightarrow> bool" where
  "sl_dozing q (Sleeping n) = True"
| "sl_dozing q Waiting = (p_state q = SLEEPING)"
| "sl_dozing q at = False"

definition sl_inv :: "sleeplock_id \<Rightarrow> sl_sys \<Rightarrow> bool" where
  "sl_inv i y \<longleftrightarrow>
     (\<forall>p. sys_held y p = sl_locks i (sys_pc y p) \<and> sl_pc_ok (sys_pc y p))
     \<and> (\<forall>p. length (procs (sys_k y)) \<le> p \<longrightarrow> sys_pc y p = Outside)
     \<and> (\<forall>p q. p \<noteq> q \<longrightarrow> set (sl_locks i (sys_pc y p)) \<inter> set (sl_locks i (sys_pc y q)) = {})
     \<and> (\<forall>p<length (procs (sys_k y)). sl_state_ok i (procs (sys_k y) ! p) (sys_pc y p))
     \<and> (sl_locked (slk (sys_k y) i) \<longleftrightarrow> (\<exists>p. sl_owns (sys_pc y p)))
     \<and> (\<forall>p q. sl_owns (sys_pc y p) \<longrightarrow> sl_owns (sys_pc y q) \<longrightarrow> p = q)
     \<and> (\<forall>p. sl_clear (sys_pc y p) \<longrightarrow> \<not> sl_locked (slk (sys_k y) i))
     \<and> (\<forall>p<length (procs (sys_k y)). sl_named (sys_pc y p) \<longrightarrow> sl_pid (slk (sys_k y) i) = p_pid (procs (sys_k y) ! p))
     \<and> (\<forall>p<length (procs (sys_k y)). sl_dozing (procs (sys_k y) ! p) (sys_pc y p) \<longrightarrow>
          sl_locked (slk (sys_k y) i) \<or> (\<exists>q. sl_waking (sys_pc y q)))"

lemma sl_goto_simps [simp]:
  "sys_k (sl_goto p t ls at y) = t" "sys_held (sl_goto p t ls at y) = (sys_held y)(p := ls)"
  "sys_pc (sl_goto p t ls at y) = (sys_pc y)(p := at)"
  by (simp_all add: sl_goto_def)

lemma as_running_simps [simp]:
  "held (as_running p y) = sys_held y p" "cur (as_running p y) = Some p" "slk (as_running p y) = slk (sys_k y)"
  "procs (as_running p y) = procs (sys_k y)"
  by (simp_all add: as_running_def)

lemma sl_invD:
  assumes "sl_inv i y"
  shows "sys_held y p = sl_locks i (sys_pc y p)" "sl_pc_ok (sys_pc y p)"
    and "length (procs (sys_k y)) \<le> p \<Longrightarrow> sys_pc y p = Outside"
    and "p \<noteq> q \<Longrightarrow> set (sl_locks i (sys_pc y p)) \<inter> set (sl_locks i (sys_pc y q)) = {}"
    and "p < length (procs (sys_k y)) \<Longrightarrow> sl_state_ok i (procs (sys_k y) ! p) (sys_pc y p)"
    and "sl_locked (slk (sys_k y) i) \<longleftrightarrow> (\<exists>p. sl_owns (sys_pc y p))"
    and "sl_owns (sys_pc y p) \<Longrightarrow> sl_owns (sys_pc y q) \<Longrightarrow> p = q"
    and "sl_clear (sys_pc y p) \<Longrightarrow> \<not> sl_locked (slk (sys_k y) i)"
    and "p < length (procs (sys_k y)) \<Longrightarrow> sl_named (sys_pc y p) \<Longrightarrow> sl_pid (slk (sys_k y) i) = p_pid (procs (sys_k y) ! p)"
    and "p < length (procs (sys_k y)) \<Longrightarrow> sl_dozing (procs (sys_k y) ! p) (sys_pc y p) \<Longrightarrow>
      sl_locked (slk (sys_k y) i) \<or> (\<exists>q. sl_waking (sys_pc y q))"
  using assms unfolding sl_inv_def by blast+

lemma sl_named_owns: "sl_named at \<Longrightarrow> sl_owns at"
  by (cases at) simp_all

lemma others_freeD:
  assumes "sl_inv i y" "others_free p ls y" "q \<noteq> p"
  shows "set (sl_locks i (sys_pc y q)) \<inter> set ls = {}"
proof (cases "q < length (procs (sys_k y))")
  case True
  then have "set (sys_held y q) \<inter> set ls = {}"
    using assms(2,3) unfolding others_free_def list_all_iff by (metis atLeastLessThan_iff le0 set_upt)
  then show ?thesis unfolding sl_invD(1) [OF assms(1)] .
next
  case False
  then show ?thesis using sl_invD(3) [OF assms(1), of q] by simp
qed

text \<open>A step that changes neither \<^verbatim>\<open>locked\<close> nor another process.\<close>

lemma sl_inv_goto:
  assumes inv: "sl_inv i y" and p: "p < length (procs (sys_k y))"
    and len: "length (procs t) = length (procs (sys_k y))"
    and oth: "\<And>q. q \<noteq> p \<Longrightarrow> procs t ! q = procs (sys_k y) ! q"
    and free: "others_free p (sl_locks i at) y" and ok: "sl_pc_ok at" "sl_state_ok i (procs t ! p) at"
    and lk: "sl_locked (slk t i) = sl_locked (slk (sys_k y) i)" "sl_owns at = sl_owns (sys_pc y p)"
      "sl_clear at \<Longrightarrow> \<not> sl_locked (slk t i)"
    and pid: "sl_named at \<Longrightarrow> sl_pid (slk t i) = p_pid (procs t ! p)"
      "sl_pid (slk t i) = sl_pid (slk (sys_k y) i) \<or> sl_clear (sys_pc y p) \<or> sl_owns (sys_pc y p)"
    and dz: "sl_dozing (procs t ! p) at \<Longrightarrow> sl_locked (slk (sys_k y) i) \<or> sl_dozing (procs (sys_k y) ! p) (sys_pc y p)"
      "sl_waking (sys_pc y p) \<Longrightarrow> sl_waking at"
  shows "sl_inv i (sl_goto p t (sl_locks i at) at y)"
  unfolding sl_inv_def
proof (intro conjI allI impI)
  note D = sl_invD [OF inv]
  let ?y = "sl_goto p t (sl_locks i at) at y"
  have pcs: "sl_owns (sys_pc ?y q) = sl_owns (sys_pc y q)" for q by (simp add: lk(2))
  show "sl_locked (slk (sys_k ?y) i) \<longleftrightarrow> (\<exists>p. sl_owns (sys_pc ?y p))"
    unfolding pcs using D(6) lk(1) by simp
  show "q = r" if "sl_owns (sys_pc ?y q)" "sl_owns (sys_pc ?y r)" for q r
    using that D(7) unfolding pcs by blast
  fix q
  show "sys_held ?y q = sl_locks i (sys_pc ?y q)" "sl_pc_ok (sys_pc ?y q)" using D(1,2) ok by simp_all
  show "sys_pc ?y q = Outside" if "length (procs (sys_k ?y)) \<le> q" using that D(3) p len by auto
  show "set (sl_locks i (sys_pc ?y q)) \<inter> set (sl_locks i (sys_pc ?y r)) = {}" if "q \<noteq> r" for r
    using that D(4) others_freeD [OF inv free, of q] others_freeD [OF inv free, of r] by auto
  show "sl_state_ok i (procs (sys_k ?y) ! q) (sys_pc ?y q)" if "q < length (procs (sys_k ?y))"
    using that D(5) ok len oth by auto
  show "\<not> sl_locked (slk (sys_k ?y) i)" if "sl_clear (sys_pc ?y q)"
    using that D(8) lk by (auto split: if_splits)
  show "sl_pid (slk (sys_k ?y) i) = p_pid (procs (sys_k ?y) ! q)"
    if q: "q < length (procs (sys_k ?y))" "sl_named (sys_pc ?y q)"
  proof (cases "q = p")
    case False
    then have "sl_named (sys_pc y q)" using q by simp
    with False have "\<not> sl_owns (sys_pc y p)" "sl_locked (slk (sys_k y) i)" using D(6,7) sl_named_owns by blast+
    then show ?thesis using False q D(8,9) pid(2) len oth by auto
  qed (use q pid in simp)
  show "sl_locked (slk (sys_k ?y) i) \<or> (\<exists>r. sl_waking (sys_pc ?y r))"
    if q: "q < length (procs (sys_k ?y))" "sl_dozing (procs (sys_k ?y) ! q) (sys_pc ?y q)"
  proof -
    have "sl_locked (slk (sys_k y) i) \<or> sl_dozing (procs (sys_k y) ! q) (sys_pc y q)"
      using q dz(1) oth by (cases "q = p") auto
    then have "sl_locked (slk (sys_k y) i) \<or> (\<exists>r. sl_waking (sys_pc y r))"
      using D(10) q(1) len by auto
    moreover have "sl_waking (sys_pc y r) \<Longrightarrow> sl_waking (sys_pc ?y r)" for r using dz(2) by auto
    ultimately show ?thesis using lk(1) unfolding sl_goto_simps(1) by blast
  qed
qed

text \<open>The three other steps: \<^verbatim>\<open>locked\<close> is set, it is cleared, and the sleepers are woken.\<close>

lemma sl_holders:
  assumes "sl_inv i y" "L_sleep i \<in> set (sl_locks i (sys_pc y p))" "q \<noteq> p"
  shows "L_sleep i \<notin> set (sl_locks i (sys_pc y q))" "\<not> sl_clear (sys_pc y q)" "\<not> sl_waking (sys_pc y q)"
proof -
  show n: "L_sleep i \<notin> set (sl_locks i (sys_pc y q))"
    using sl_invD(4) [OF assms(1), of p q] assms(2,3) by auto
  then show "\<not> sl_clear (sys_pc y q)" "\<not> sl_waking (sys_pc y q)"
    by (cases "sys_pc y q"; auto split: if_splits)+
qed

lemma sl_inv_take:
  assumes inv: "sl_inv i y" and p: "p < length (procs (sys_k y))" "sys_pc y p = Taking 0"
    and t: "procs t = procs (sys_k y)" "sl_locked (slk t i)"
  shows "sl_inv i (sl_goto p t [L_sleep i] (Taking 1) y)"
proof -
  note D = sl_invD [OF inv]
  have h: "L_sleep i \<in> set (sl_locks i (sys_pc y p))" by (simp add: p(2))
  have none: "\<not> sl_owns (sys_pc y q)" for q using D(6) D(8) [of p] p(2) by auto
  then have "\<not> sl_named (sys_pc y q)" for q using sl_named_owns by blast
  with none show ?thesis
    using D(1-5) D(4) [of p] D(5) [OF p(1)] sl_holders(2) [OF inv h] p t unfolding sl_inv_def by (auto simp: p(2))
qed

lemma sl_inv_clear:
  assumes inv: "sl_inv i y" and p: "p < length (procs (sys_k y))" "sys_pc y p = Leaving 1"
    and t: "procs t = procs (sys_k y)" "\<not> sl_locked (slk t i)"
  shows "sl_inv i (sl_goto p t [L_sleep i] (Leaving 2) y)"
proof -
  note D = sl_invD [OF inv]
  have none: "\<not> sl_owns (sys_pc y q)" if "q \<noteq> p" for q using D(7) [of p q] p(2) that by auto
  then have "\<not> sl_named (sys_pc y q)" if "q \<noteq> p" for q using sl_named_owns that by blast
  with none show ?thesis
    using D(1-5) D(4) [of p] D(5) [OF p(1)] p t unfolding sl_inv_def by (auto simp: p(2))
qed

lemma wake_if_simps [simp]:
  "p_pid (wake_if c q) = p_pid q" "p_chan (wake_if c q) = p_chan q"
  by (simp_all add: wake_if_def)

lemma sl_inv_wake:
  assumes inv: "sl_inv i y" and p: "p < length (procs (sys_k y))" "sys_pc y p = Leaving 4"
    and t: "procs t = map (wake_if (Some (Ch_sleep i))) (procs (sys_k y))" "slk t = slk (sys_k y)"
  shows "sl_inv i (sl_goto p t [L_ptable, L_sleep i] (Leaving 5) y)"
proof -
  note D = sl_invD [OF inv]
  have n: "\<not> sl_locked (slk (sys_k y) i)" using D(8) [of p] p(2) by simp
  then have none: "\<not> sl_owns (sys_pc y q)" for q using D(6) by blast
  then have named: "\<not> sl_named (sys_pc y q)" for q using sl_named_owns by blast
  have awake: "q \<noteq> p \<Longrightarrow> (\<nexists>n. sys_pc y q = Sleeping n)" for q
    using D(4) [of p q] p(2) by (auto split: if_splits)
  have st: "sl_state_ok i (procs t ! q) (sys_pc y q) \<and> \<not> sl_dozing (procs t ! q) (sys_pc y q)"
    if "q < length (procs (sys_k y))" "q \<noteq> p" for q
    using D(5) [OF that(1)] awake [OF that(2)] that t(1)
    by (cases "sys_pc y q") (auto simp: wake_if_def)
  have "p_state (procs t ! p) = RUNNING" using D(5) [OF p(1)] p t(1) by (simp add: wake_if_def)
  then show ?thesis
    using D(1-5) D(4) [of p] none named st n p t unfolding sl_inv_def by (auto simp: p(2))
qed

lemma sl_exec_Ret:
  assumes "sl_exec i p y = Some y'" "sl_action i p (sys_pc y p) \<noteq> None"
    and "the (sl_action i p (sys_pc y p)) (as_running p y) = Ret () t"
  shows "others_free p (held t) y" "y' = sl_goto p t (held t) (sl_next i (sys_pc y p)) y"
  using assms by (auto simp: sl_exec_def split: if_splits)

lemma sl_local:
  assumes "sl_inv i y" "p < length (procs (sys_k y))" "sl_exec i p y = Some y'"
    and "sl_action i p (sys_pc y p) \<noteq> None" "the (sl_action i p (sys_pc y p)) (as_running p y) = Ret () t"
    and "held t = sl_locks i (sl_next i (sys_pc y p))"
    and "length (procs t) = length (procs (sys_k y))"
    and "\<And>q. q \<noteq> p \<Longrightarrow> procs t ! q = procs (sys_k y) ! q"
    and "sl_pc_ok (sl_next i (sys_pc y p))" "sl_state_ok i (procs t ! p) (sl_next i (sys_pc y p))"
    and "sl_locked (slk t i) = sl_locked (slk (sys_k y) i)" "sl_owns (sl_next i (sys_pc y p)) = sl_owns (sys_pc y p)"
    and "sl_clear (sl_next i (sys_pc y p)) \<Longrightarrow> \<not> sl_locked (slk t i)"
    and "sl_named (sl_next i (sys_pc y p)) \<Longrightarrow> sl_pid (slk t i) = p_pid (procs t ! p)"
    and "sl_pid (slk t i) = sl_pid (slk (sys_k y) i) \<or> sl_clear (sys_pc y p) \<or> sl_owns (sys_pc y p)"
    and "sl_dozing (procs t ! p) (sl_next i (sys_pc y p)) \<Longrightarrow>
      sl_locked (slk (sys_k y) i) \<or> sl_dozing (procs (sys_k y) ! p) (sys_pc y p)"
    and "sl_waking (sys_pc y p) \<Longrightarrow> sl_waking (sl_next i (sys_pc y p))"
  shows "sl_inv i y'"
proof -
  note e = sl_exec_Ret [OF assms(3-5), unfolded assms(6)]
  show ?thesis unfolding e(2)
    by (rule sl_inv_goto [OF assms(1,2,7,8) e(1) assms(9-)])
qed

lemmas sl_step_defs = sleep_steps_def resume_steps_def take_steps_def releasesleep_steps_def wakeup_steps_def lock_simps

lemma sl_sleeping_inv:
  assumes inv: "sl_inv i y" and p: "p < length (procs (sys_k y))" and e: "sl_exec i p y = Some y'"
    and at: "sys_pc y p = Sleeping n"
  shows "sl_inv i y'"
proof -
  note D = sl_invD(1,2,5) [OF inv, of p, unfolded at]
  from D(2) have "n = 0 \<or> n = 1 \<or> n = 2 \<or> n = 3 \<or> n = 4" by auto
  then show ?thesis
  proof (elim disjE)
    assume n: "n = 0"
    show ?thesis
      by (rule sl_local [OF inv p e, where t = "(as_running p y)\<lparr>held := [L_ptable, L_sleep i]\<rparr>"])
        (use D p n at in \<open>simp_all add: sl_step_defs\<close>)
  next
    assume n: "n = 1"
    show ?thesis
      by (rule sl_local [OF inv p e, where t = "(as_running p y)\<lparr>held := [L_ptable]\<rparr>"])
        (use D p n at in \<open>simp_all add: sl_step_defs\<close>)
  next
    assume n: "n = 2"
    show ?thesis
      by (rule sl_local [OF inv p e, where t = "(as_running p y)\<lparr>procs := upd_at p (\<lambda>q. q\<lparr>p_chan := Some (Ch_sleep i)\<rparr>) (procs (sys_k y))\<rparr>"])
        (use D p n at in \<open>simp_all add: sl_step_defs\<close>)
  next
    assume n: "n = 3"
    show ?thesis
      by (rule sl_local [OF inv p e, where t = "(as_running p y)\<lparr>procs := upd_at p (\<lambda>q. q\<lparr>p_state := SLEEPING\<rparr>) (procs (sys_k y))\<rparr>"])
        (use D p n at in \<open>simp_all add: sl_step_defs numeral_eq_Suc\<close>)
  next
    assume n: "n = 4"
    have "sched (as_running p y) = Swtch (as_running p y)"
      using D(1,3) p n by (intro sched_Swtch [of _ p]) (simp_all add: proc_at_def)
    then have y': "y' = sl_goto p (as_running p y) (sl_locks i Waiting) Waiting y"
      using e at n by (simp add: sl_exec_def sleep_steps_def)
    show ?thesis unfolding y'
      by (rule sl_inv_goto [OF inv p]) (use D p n at in \<open>simp_all add: others_free_def list_all_iff\<close>)
  qed
qed

lemma sl_resuming_inv:
  assumes inv: "sl_inv i y" and p: "p < length (procs (sys_k y))" and e: "sl_exec i p y = Some y'"
    and at: "sys_pc y p = Resuming n"
  shows "sl_inv i y'"
proof -
  note D = sl_invD(1,2,5) [OF inv, of p, unfolded at]
  from D(2) have "n = 0 \<or> n = 1 \<or> n = 2" by auto
  then show ?thesis
  proof (elim disjE)
    assume n: "n = 0"
    show ?thesis
      by (rule sl_local [OF inv p e, where t = "(as_running p y)\<lparr>procs := upd_at p (\<lambda>q. q\<lparr>p_chan := None\<rparr>) (procs (sys_k y))\<rparr>"])
        (use D p n at in \<open>simp_all add: sl_step_defs\<close>)
  next
    assume n: "n = 1"
    show ?thesis
      by (rule sl_local [OF inv p e, where t = "(as_running p y)\<lparr>held := []\<rparr>"])
        (use D p n at in \<open>simp_all add: sl_step_defs\<close>)
  next
    assume n: "n = 2"
    show ?thesis
      by (rule sl_local [OF inv p e, where t = "(as_running p y)\<lparr>held := [L_sleep i]\<rparr>"])
        (use D p n at in \<open>simp_all add: sl_step_defs\<close>)
  qed
qed

lemma sl_taking_inv:
  assumes inv: "sl_inv i y" and p: "p < length (procs (sys_k y))" and e: "sl_exec i p y = Some y'"
    and at: "sys_pc y p = Taking n"
  shows "sl_inv i y'"
proof -
  note D = sl_invD(1,2,5) [OF inv, of p, unfolded at]
  from D(2) have "n = 0 \<or> n = 1 \<or> n = 2" by auto
  then show ?thesis
  proof (elim disjE)
    assume n: "n = 0"
    define t where "t = (as_running p y)\<lparr>slk := (slk (sys_k y))(i := (slk (sys_k y) i)\<lparr>sl_locked := True\<rparr>)\<rparr>"
    have "y' = sl_goto p t [L_sleep i] (Taking 1) y"
      using sl_exec_Ret(2) [OF e, of t] D n at by (simp add: sl_step_defs t_def)
    then show ?thesis using sl_inv_take [OF inv p, of t] at n by (simp add: t_def)
  next
    assume n: "n = 1"
    show ?thesis
      by (rule sl_local [OF inv p e, where t = "(as_running p y)\<lparr>slk := (slk (sys_k y))(i := (slk (sys_k y) i)\<lparr>sl_pid := p_pid (procs (sys_k y) ! p)\<rparr>)\<rparr>"])
        (use D p n at in \<open>simp_all add: sl_step_defs proc_at_def\<close>)
  next
    assume n: "n = 2"
    show ?thesis
      by (rule sl_local [OF inv p e, where t = "(as_running p y)\<lparr>held := []\<rparr>"])
        (use D p n at sl_invD(9) [OF inv, of p] in \<open>simp_all add: sl_step_defs\<close>)
  qed
qed

lemma sl_leaving_inv:
  assumes inv: "sl_inv i y" and p: "p < length (procs (sys_k y))" and e: "sl_exec i p y = Some y'"
    and at: "sys_pc y p = Leaving n"
  shows "sl_inv i y'"
proof -
  note D = sl_invD(1,2,5,8) [OF inv, of p, unfolded at]
  from D(2) consider "n = 0" | "n = 1" | "n = 2" | "n = 3" | "n = 4" | "n = 5" | "n = 6" by fastforce
  then show ?thesis
  proof cases
    case 2
    define t where "t = (as_running p y)\<lparr>slk := (slk (sys_k y))(i := (slk (sys_k y) i)\<lparr>sl_locked := False\<rparr>)\<rparr>"
    have "y' = sl_goto p t [L_sleep i] (Leaving 2) y"
      using sl_exec_Ret(2) [OF e, of t] D 2 at by (simp add: sl_step_defs t_def numeral_2_eq_2)
    then show ?thesis using sl_inv_clear [OF inv p, of t] at 2 by (simp add: t_def)
  next
    case 5
    define t where "t = (as_running p y)\<lparr>procs := map (wake_if (Some (Ch_sleep i))) (procs (sys_k y))\<rparr>"
    have "y' = sl_goto p t [L_ptable, L_sleep i] (Leaving 5) y"
      using sl_exec_Ret(2) [OF e, of t] D 5 at by (simp add: sl_step_defs t_def numeral_eq_Suc)
    then show ?thesis using sl_inv_wake [OF inv p, of t] at 5 by (simp add: t_def)
  next
    case 1
    show ?thesis
      by (rule sl_local [OF inv p e, where t = "(as_running p y)\<lparr>held := [L_sleep i]\<rparr>"])
        (use D p 1 at sl_invD(9) [OF inv, of p] in \<open>simp_all add: sl_step_defs\<close>)
  next
    case 3
    show ?thesis
      by (rule sl_local [OF inv p e, where t = "(as_running p y)\<lparr>slk := (slk (sys_k y))(i := (slk (sys_k y) i)\<lparr>sl_pid := 0\<rparr>)\<rparr>"])
        (use D p 3 at in \<open>simp_all add: sl_step_defs\<close>)
  next
    case 4
    show ?thesis
      by (rule sl_local [OF inv p e, where t = "(as_running p y)\<lparr>held := [L_ptable, L_sleep i]\<rparr>"])
        (use D p 4 at in \<open>simp_all add: sl_step_defs numeral_eq_Suc\<close>)
  next
    case 6
    show ?thesis
      by (rule sl_local [OF inv p e, where t = "(as_running p y)\<lparr>held := [L_sleep i]\<rparr>"])
        (use D p 6 at in \<open>simp_all add: sl_step_defs numeral_eq_Suc\<close>)
  next
    case 7
    show ?thesis
      by (rule sl_local [OF inv p e, where t = "(as_running p y)\<lparr>held := []\<rparr>"])
        (use D p 7 at in \<open>simp_all add: sl_step_defs numeral_eq_Suc\<close>)
  qed
qed

lemma others_free_own:
  assumes "sl_inv i y" "others_free p ls y" "set ls' \<subseteq> set (sl_locks i (sys_pc y p)) \<union> set ls"
  shows "others_free p ls' y"
  unfolding others_free_def list_all_iff
proof
  fix q assume "q \<in> set [0..<length (procs (sys_k y))]"
  have "set (sl_locks i (sys_pc y q)) \<inter> set ls' = {}" if "q \<noteq> p"
    using sl_invD(4) [OF assms(1) that] others_freeD [OF assms(1,2) that] assms(3) by blast
  then show "q = p \<or> set (sys_held y q) \<inter> set ls' = {}" using sl_invD(1) [OF assms(1)] by auto
qed

lemma others_free_nil [simp]: "others_free p [] y"
  by (simp add: others_free_def list_all_iff)

lemma sl_exec_inv:
  assumes inv: "sl_inv i y" and p: "p < length (procs (sys_k y))" and e: "sl_exec i p y = Some y'"
  shows "sl_inv i y'"
proof -
  note D = sl_invD(1,2,5) [OF inv, of p]
  have own: "others_free p (sl_locks i (sys_pc y p)) y" using others_free_own [OF inv others_free_nil] by simp
  note plain = sl_inv_goto [OF inv p, where t = "sys_k y"]
  show ?thesis
  proof (cases "sys_pc y p")
    case Outside
    then have "y' = sl_goto p (sys_k y) (sl_locks i Entering) Entering y" using e D(1) by (simp add: sl_exec_def)
    then show ?thesis using plain [of Entering] D(3) p Outside own by simp
  next
    case Entering
    show ?thesis
      by (rule sl_local [OF inv p e, where t = "(as_running p y)\<lparr>held := [L_sleep i]\<rparr>"])
        (use D p Entering in \<open>simp_all add: sl_step_defs\<close>)
  next
    case Testing
    let ?at = "if sl_locked (slk (sys_k y) i) then Sleeping 0 else Taking 0"
    have "y' = sl_goto p (sys_k y) (sl_locks i ?at) ?at y" using e D(1) Testing by (auto simp: sl_exec_def must_sleep_def)
    then show ?thesis using plain [of ?at] D(3) p Testing own by (cases "sl_locked (slk (sys_k y) i)") simp_all
  next
    case Waiting
    let ?t = "(sys_k y)\<lparr>procs := upd_at p (\<lambda>q. q\<lparr>p_state := RUNNING\<rparr>) (procs (sys_k y))\<rparr>"
    have "y' = sl_goto p ?t (sl_locks i (Resuming 0)) (Resuming 0) y" "others_free p [L_ptable] y"
      using e Waiting by (simp_all add: sl_exec_def split: if_splits)
    then show ?thesis using sl_inv_goto [OF inv p, of ?t "Resuming 0"] p Waiting by simp
  next
    case Inside
    have "y' = sl_goto p (sys_k y) (sl_locks i (Leaving 0)) (Leaving 0) y" using e D(1) Inside by (simp add: sl_exec_def)
    then show ?thesis using plain [of "Leaving 0"] D(3) p Inside own sl_invD(9) [OF inv p] by simp
  qed (use sl_sleeping_inv sl_resuming_inv sl_taking_inv sl_leaving_inv assms in blast)+
qed

lemma sl_reachable_inv: "sl_reachable i y \<Longrightarrow> sl_inv i y"
proof (induction rule: sl_reachable.induct)
  case (init y)
  then show ?case by (auto simp: sl_init_def sl_inv_def)
qed (rule sl_exec_inv)

section \<open>No step panics, and some step is always possible\<close>

text \<open>The spin lock the next action takes.\<close>

fun sl_needs :: "sleeplock_id \<Rightarrow> sl_pc \<Rightarrow> lock_id list" where
  "sl_needs i Entering = [L_sleep i]"
| "sl_needs i (Sleeping n) = (if n = 0 then [L_ptable] else [])"
| "sl_needs i Waiting = [L_ptable]"
| "sl_needs i (Resuming n) = (if n = 2 then [L_sleep i] else [])"
| "sl_needs i (Leaving n) = (if n = 0 then [L_sleep i] else if n = 3 then [L_ptable] else [])"
| "sl_needs i at = []"

definition sl_runs :: "sleeplock_id \<Rightarrow> nat \<Rightarrow> sl_sys \<Rightarrow> bool" where
  "sl_runs i p y = (case sl_action i p (sys_pc y p) of
     None \<Rightarrow> True
   | Some a \<Rightarrow> (case a (as_running p y) of
       Ret _ t \<Rightarrow> set (held t) \<subseteq> set (sl_locks i (sys_pc y p)) \<union> set (sl_needs i (sys_pc y p))
     | Swtch t \<Rightarrow> True
     | _ \<Rightarrow> False))"

lemma sl_runs_ok:
  assumes inv: "sl_inv i y" and p: "p < length (procs (sys_k y))"
  shows "sl_runs i p y"
proof (cases "sys_pc y p")
  case Entering
  then show ?thesis using sl_invD(1) [OF inv, of p] by (simp add: sl_runs_def lock_simps)
next
  case (Sleeping n)
  note D = sl_invD(1,2,5) [OF inv, of p, unfolded Sleeping]
  have "n = 4 \<Longrightarrow> sched (as_running p y) = Swtch (as_running p y)"
    using D p by (intro sched_Swtch [of _ p]) (simp_all add: proc_at_def)
  moreover from D(2) have "n = 0 \<or> n = 1 \<or> n = 2 \<or> n = 3 \<or> n = 4" by auto
  ultimately show ?thesis
    using D(1) Sleeping by (elim disjE) (simp_all add: sl_runs_def sl_step_defs numeral_eq_Suc)
next
  case (Resuming n)
  note D = sl_invD(1,2) [OF inv, of p, unfolded Resuming]
  from D(2) have "n = 0 \<or> n = 1 \<or> n = 2" by auto
  then show ?thesis using D(1) Resuming by (elim disjE) (simp_all add: sl_runs_def sl_step_defs)
next
  case (Taking n)
  note D = sl_invD(1,2) [OF inv, of p, unfolded Taking]
  from D(2) have "n = 0 \<or> n = 1 \<or> n = 2" by auto
  then show ?thesis using D(1) Taking by (elim disjE) (simp_all add: sl_runs_def sl_step_defs)
next
  case (Leaving n)
  note D = sl_invD(1,2) [OF inv, of p, unfolded Leaving]
  from D(2) have "n = 0 \<or> n = 1 \<or> n = 2 \<or> n = 3 \<or> n = 4 \<or> n = 5 \<or> n = 6" by auto
  then show ?thesis
    using D(1) Leaving by (elim disjE) (simp_all add: sl_runs_def sl_step_defs numeral_eq_Suc)
qed (simp_all add: sl_runs_def)

lemma sl_enabled:
  assumes inv: "sl_inv i y" and p: "p < length (procs (sys_k y))"
    and "others_free p (sl_needs i (sys_pc y p)) y" "\<not> (sys_pc y p = Waiting \<and> p_state (procs (sys_k y) ! p) = SLEEPING)"
  shows "sl_exec i p y \<noteq> None"
proof (cases "sl_action i p (sys_pc y p)")
  case None
  then show ?thesis
    using assms(3,4) sl_invD(5) [OF inv p] by (cases "sys_pc y p") (auto simp: sl_exec_def)
next
  case (Some a)
  with sl_runs_ok [OF inv p] show ?thesis
    using others_free_own [OF inv assms(3)]
    by (cases "a (as_running p y)") (auto simp: sl_exec_def sl_runs_def)
qed

text \<open>
  A processor that holds \<^verbatim>\<open>ptable.lock\<close> takes no further lock, one that holds \<^verbatim>\<open>lk->lk\<close> takes only
  \<^verbatim>\<open>ptable.lock\<close>: someone can move.
\<close>

lemma sl_locks_order:
  "set (sl_locks i at) \<subseteq> {L_ptable, L_sleep i}" "set (sl_needs i at) \<subseteq> {L_ptable, L_sleep i}"
  "L_ptable \<in> set (sl_locks i at) \<Longrightarrow> sl_pc_ok at \<Longrightarrow> sl_needs i at = [] \<and> at \<noteq> Waiting"
  "L_sleep i \<in> set (sl_locks i at) \<Longrightarrow> set (sl_needs i at) \<subseteq> {L_ptable} \<and> at \<noteq> Waiting"
  by (cases at; auto split: if_splits)+

lemma others_freeI:
  assumes "sl_inv i y" "\<And>q. q \<noteq> p \<Longrightarrow> set (sl_locks i (sys_pc y q)) \<inter> set ls = {}"
  shows "others_free p ls y"
  using assms(2) sl_invD(1) [OF assms(1)] by (auto simp: others_free_def list_all_iff)

lemma sl_not_stuck:
  assumes inv: "sl_inv i y" and "procs (sys_k y) \<noteq> []"
  shows "\<exists>p<length (procs (sys_k y)). sl_exec i p y \<noteq> None"
proof -
  note D = sl_invD [OF inv]
  have low: "p < length (procs (sys_k y))" if "sys_pc y p \<noteq> Outside" for p using D(3) [of p] that by force
  have low': "p < length (procs (sys_k y))" if "l \<in> set (sl_locks i (sys_pc y p))" for p l
    by (rule low) (use that in \<open>cases "sys_pc y p"; simp\<close>)
  have empty: "sl_locks i at = []" if "L_ptable \<notin> set (sl_locks i at)" "L_sleep i \<notin> set (sl_locks i at)" for at
    using that sl_locks_order(1) [of i at] by (cases "sl_locks i at") auto
  consider (pt) p where "L_ptable \<in> set (sl_locks i (sys_pc y p))"
    | (lk) p where "\<And>q. L_ptable \<notin> set (sl_locks i (sys_pc y q))" "L_sleep i \<in> set (sl_locks i (sys_pc y p))"
    | (free) "\<And>q. sl_locks i (sys_pc y q) = []"
    using empty by blast
  then show ?thesis
  proof cases
    case pt
    then show ?thesis
      using sl_enabled [OF inv low' [OF pt]] low' [OF pt] sl_locks_order(3) [OF pt D(2)] by auto
  next
    case lk
    then have "others_free p (sl_needs i (sys_pc y p)) y"
      using sl_locks_order(4) [OF lk(2)] by (intro others_freeI [OF inv]) blast
    then show ?thesis
      using sl_enabled [OF inv low' [OF lk(2)]] low' [OF lk(2)] sl_locks_order(4) [OF lk(2)] by auto
  next
    case free
    then have go: "sl_exec i p y \<noteq> None"
      if "p < length (procs (sys_k y))" "\<not> (sys_pc y p = Waiting \<and> p_state (procs (sys_k y) ! p) = SLEEPING)" for p
      using that by (intro sl_enabled [OF inv] others_freeI [OF inv]) simp_all
    have z: "0 < length (procs (sys_k y))" using assms(2) by simp
    show ?thesis
    proof (cases "sys_pc y 0 = Waiting \<and> p_state (procs (sys_k y) ! 0) = SLEEPING")
      case True
      then obtain q where q: "sl_owns (sys_pc y q) \<or> sl_waking (sys_pc y q)" using D(10) [OF z] D(6) by auto
      then have "sys_pc y q \<noteq> Outside" "sys_pc y q \<noteq> Waiting" by auto
      then show ?thesis using go low by blast
    qed (use go z in blast)
  qed
qed

text \<open>
  C5. Any number of processes contending for a sleep lock, with the actions of
  \<^verbatim>\<open>acquiresleep\<close>, \<^verbatim>\<open>sleep\<close>, \<^verbatim>\<open>wakeup\<close> and \<^verbatim>\<open>releasesleep\<close> interleaved in any order the spin locks
  allow. At most one process is between \<^verbatim>\<open>acquiresleep\<close> and \<^verbatim>\<open>releasesleep\<close>, and the lock
  records its pid. No wakeup is lost: once the lock is free and no process is in
  \<^verbatim>\<open>releasesleep\<close>, no process is asleep on it or on its way to sleep, every waiter is runnable.
  No action panics, and some process can always take a step.
\<close>

theorem sleeplock_safe:
  assumes "sl_reachable i y"
  shows "(\<forall>p q. sys_pc y p = Inside \<and> sys_pc y q = Inside \<longrightarrow> p = q)
    \<and> (\<forall>p<length (procs (sys_k y)). sys_pc y p = Inside \<longrightarrow>
         sl_locked (slk (sys_k y) i) \<and> sl_pid (slk (sys_k y) i) = p_pid (procs (sys_k y) ! p))
    \<and> (\<not> sl_locked (slk (sys_k y) i) \<and> (\<forall>q n. sys_pc y q \<noteq> Leaving n) \<longrightarrow>
         (\<forall>p<length (procs (sys_k y)). (\<forall>n. sys_pc y p \<noteq> Sleeping n)
            \<and> (sys_pc y p = Waiting \<longrightarrow> p_state (procs (sys_k y) ! p) = RUNNABLE)))
    \<and> (\<forall>p<length (procs (sys_k y)). \<forall>a msg. sl_action i p (sys_pc y p) = Some a \<longrightarrow> a (as_running p y) \<noteq> Panic msg)
    \<and> (procs (sys_k y) \<noteq> [] \<longrightarrow> (\<exists>p<length (procs (sys_k y)). sl_exec i p y \<noteq> None))"
proof (intro conjI allI impI)
  note inv = sl_reachable_inv [OF assms]
  note D = sl_invD [OF inv]
  show "p = q" if "sys_pc y p = Inside \<and> sys_pc y q = Inside" for p q using that D(7) [of p q] by simp
  show "procs (sys_k y) \<noteq> [] \<Longrightarrow> \<exists>p<length (procs (sys_k y)). sl_exec i p y \<noteq> None" by (rule sl_not_stuck [OF inv])
  fix p assume p: "p < length (procs (sys_k y))"
  show "sl_locked (slk (sys_k y) i)" if "sys_pc y p = Inside" using D(6) that by (metis sl_owns.simps(2))
  show "sl_pid (slk (sys_k y) i) = p_pid (procs (sys_k y) ! p)" if "sys_pc y p = Inside" using D(9) [OF p] that by simp
  show "a (as_running p y) \<noteq> Panic msg" if "sl_action i p (sys_pc y p) = Some a" for a msg
    using sl_runs_ok [OF inv p] that by (auto simp: sl_runs_def)
  assume quiet: "\<not> sl_locked (slk (sys_k y) i) \<and> (\<forall>q n. sys_pc y q \<noteq> Leaving n)"
  then have "\<not> sl_waking (sys_pc y q)" for q by (cases "sys_pc y q") auto
  then have "\<not> sl_dozing (procs (sys_k y) ! p) (sys_pc y p)" using D(10) [OF p] quiet by blast
  then show "sys_pc y p \<noteq> Sleeping n" "sys_pc y p = Waiting \<Longrightarrow> p_state (procs (sys_k y) ! p) = RUNNABLE" for n
    using D(5) [OF p] by auto
qed

text \<open>The processes take steps in the order of a list.\<close>

fun sl_run :: "sleeplock_id \<Rightarrow> nat list \<Rightarrow> sl_sys \<Rightarrow> sl_sys option" where
  "sl_run i [] y = Some y"
| "sl_run i (p # ps) y =
     (if p < length (procs (sys_k y)) then
        case sl_exec i p y of Some y' \<Rightarrow> sl_run i ps y' | None \<Rightarrow> None
      else None)"

lemma sl_run_reachable: "sl_reachable i y \<Longrightarrow> sl_run i ps y = Some z \<Longrightarrow> sl_reachable i z"
  by (induction ps arbitrary: y) (auto intro: sl_reachable.step split: if_splits option.splits)

definition demo_sl0 :: sl_sys where
  "demo_sl0 = \<lparr>sys_k = \<lparr>held = [], procs = [demo_proc 1 RUNNING, demo_proc 2 RUNNING], cur = None,
       initproc = Some 0, nextpid = 3, ticks = 0, slk = (\<lambda>_. \<lparr>sl_locked = False, sl_pid = 0\<rparr>)\<rparr>,
     sys_held = (\<lambda>_. []), sys_pc = (\<lambda>_. Outside)\<rparr>"

text \<open>
  The first process takes the lock; the second finds it taken and has let go of \<^verbatim>\<open>lk->lk\<close> but is
  not yet marked asleep when the first starts \<^verbatim>\<open>releasesleep\<close>, which then waits for
  \<^verbatim>\<open>ptable.lock\<close> until the second is switched out.
\<close>

definition demo_schedule :: "nat list" where
  "demo_schedule = replicate 6 0 @ replicate 5 1 @ replicate 4 0 @ replicate 3 1 @ replicate 4 0"

lemma demo_sl_run:
  "map_option (\<lambda>y. (sys_pc y 0, sys_pc y 1, sl_locked (slk (sys_k y) (SL_buf 0)), length (procs (sys_k y))))
     (sl_run (SL_buf 0) demo_schedule demo_sl0) = Some (Outside, Waiting, False, 2)"
  by code_simp

lemma demo_sl_reach:
  "\<exists>y. sl_reachable (SL_buf 0) y \<and> sys_pc y 0 = Outside \<and> sys_pc y 1 = Waiting
     \<and> \<not> sl_locked (slk (sys_k y) (SL_buf 0)) \<and> length (procs (sys_k y)) = 2"
proof -
  have "sl_reachable (SL_buf 0) demo_sl0"
    by (auto simp: demo_sl0_def sl_init_def demo_proc_def intro!: sl_reachable.init)
  with demo_sl_run show ?thesis using sl_run_reachable by fastforce
qed

theorem sleeplock_safe_witness:
  "\<exists>y. sl_reachable (SL_buf 0) y \<and> sys_pc y 1 = Waiting \<and> p_state (procs (sys_k y) ! 1) = RUNNABLE"
proof -
  obtain y where y: "sl_reachable (SL_buf 0) y" "sys_pc y 0 = Outside" "sys_pc y 1 = Waiting"
    "\<not> sl_locked (slk (sys_k y) (SL_buf 0))" "length (procs (sys_k y)) = 2"
    using demo_sl_reach by blast
  have "sys_pc y q \<noteq> Leaving n" for q n
  proof (cases "q < 2")
    case True
    then have "q = 0 \<or> q = 1" by auto
    then show ?thesis using y(2,3) by auto
  next
    case False
    then show ?thesis using sl_invD(3) [OF sl_reachable_inv [OF y(1)], of q] y(5) by simp
  qed
  then show ?thesis using sleeplock_safe [OF y(1)] y by auto
qed

end
