(* ===== verification/Kalloc.thy ===== *)
theory Kalloc
  imports Sleeplock
begin

text \<open>
  kalloc.c: the allocator of 4096-byte pages. Kernel memory is a function from kernel
  addresses to bytes; the free list is threaded through the free pages themselves, as in
  the code. The linker's symbols \<^verbatim>\<open>end\<close> and \<^verbatim>\<open>data\<close> are the fields \<open>ld_end\<close> and \<open>ld_data\<close>,
  which no operation writes.
\<close>

unbundle bit_operations_syntax

definition PGSIZE :: u32 where "PGSIZE = 4096"
definition KERNBASE :: u32 where "KERNBASE = 0x80000000"
definition PHYSTOP :: u32 where "PHYSTOP = 0xE000000"
definition EXTMEM :: u32 where "EXTMEM = 0x100000"
definition DEVSPACE :: u32 where "DEVSPACE = 0xFE000000"
definition KERNLINK :: u32 where "KERNLINK = KERNBASE + EXTMEM"

definition V2P :: "u32 \<Rightarrow> u32" where "V2P a = a - KERNBASE"
definition P2V :: "u32 \<Rightarrow> u32" where "P2V a = a + KERNBASE"

definition PGROUNDUP :: "u32 \<Rightarrow> u32" where "PGROUNDUP sz = (sz + PGSIZE - 1) AND NOT (PGSIZE - 1)"
definition PGROUNDDOWN :: "u32 \<Rightarrow> u32" where "PGROUNDDOWN a = a AND NOT (PGSIZE - 1)"

text \<open>Loads and stores of aligned and unaligned little-endian words.\<close>

definition ldw :: "mem \<Rightarrow> u32 \<Rightarrow> u32" where
  "ldw m a = of_nat (rd32 (\<lambda>i. m (unat a + i)))"

definition stw :: "mem \<Rightarrow> u32 \<Rightarrow> u32 \<Rightarrow> mem" where
  "stw m a v = write_bytes m (unat a) (le32 (unat v))"

record kmst = slst +
  phys :: mem
  freelist :: u32
  use_lock :: bool
  ld_end :: u32
  ld_data :: u32

definition mstore :: "(mem \<Rightarrow> mem) \<Rightarrow> ('z kmst_scheme, unit) kop" where
  "mstore f = modify (\<lambda>s. s\<lparr>phys := f (phys s)\<rparr>)"

section \<open>Operations\<close>

definition kmem_lock :: "('z kmst_scheme, unit) kop" where
  "kmem_lock = bindK (gets use_lock) (\<lambda>b. if b then acq L_kmem else ret ())"

definition kmem_unlock :: "('z kmst_scheme, unit) kop" where
  "kmem_unlock = bindK (gets use_lock) (\<lambda>b. if b then rel L_kmem else ret ())"

definition kfree :: "u32 \<Rightarrow> ('z kmst_scheme, unit) kop" where
  "kfree v =
     seqK (bindK (gets ld_end) (\<lambda>e.
       panic_if (v mod PGSIZE \<noteq> 0 \<or> v < e \<or> V2P v \<ge> PHYSTOP) ''kfree''))
     (seqK (mstore (\<lambda>m. memset m (unat v) 1 (unat PGSIZE)))
     (seqK kmem_lock
     (seqK (modify (\<lambda>s. s\<lparr>phys := stw (phys s) v (freelist s)\<rparr>))
     (seqK (modify (\<lambda>s. s\<lparr>freelist := v\<rparr>))
     kmem_unlock))))"

definition kalloc :: "('z kmst_scheme, u32) kop" where
  "kalloc =
     seqK kmem_lock
     (bindK (gets freelist) (\<lambda>r.
     seqK (if r \<noteq> 0 then modify (\<lambda>s. s\<lparr>freelist := ldw (phys s) r\<rparr>) else ret ())
     (seqK kmem_unlock (ret r))))"

text \<open>
  Pointer arithmetic does not wrap in \<^verbatim>\<open>freerange\<close> (overflow of a pointer is undefined in
  C), so the loop runs over natural numbers.
\<close>

function freerange_loop :: "nat \<Rightarrow> nat \<Rightarrow> ('z kmst_scheme, unit) kop" where
  "freerange_loop p vend =
     (if p + 4096 \<le> vend then seqK (kfree (of_nat p)) (freerange_loop (p + 4096) vend) else ret ())"
  by auto
termination by (relation "measure (\<lambda>(p, vend). vend - p)") auto

definition freerange :: "u32 \<Rightarrow> u32 \<Rightarrow> ('z kmst_scheme, unit) kop" where
  "freerange vstart vend = freerange_loop (unat (PGROUNDUP vstart)) (unat vend)"

declare freerange_loop.simps [simp del]

definition kinit1 :: "u32 \<Rightarrow> u32 \<Rightarrow> ('z kmst_scheme, unit) kop" where
  "kinit1 vstart vend = seqK (modify (\<lambda>s. s\<lparr>use_lock := False\<rparr>)) (freerange vstart vend)"

definition kinit2 :: "u32 \<Rightarrow> u32 \<Rightarrow> ('z kmst_scheme, unit) kop" where
  "kinit2 vstart vend = seqK (freerange vstart vend) (modify (\<lambda>s. s\<lparr>use_lock := True\<rparr>))"

section \<open>The free list as a list of pages\<close>

fun flist :: "mem \<Rightarrow> u32 \<Rightarrow> u32 list \<Rightarrow> bool" where
  "flist m p [] \<longleftrightarrow> p = 0"
| "flist m p (x # xs) \<longleftrightarrow> p = x \<and> flist m (ldw m x) xs"

definition page_ok :: "'z kmst_scheme \<Rightarrow> u32 \<Rightarrow> bool" where
  "page_ok s v \<longleftrightarrow> v mod PGSIZE = 0 \<and> ld_end s \<le> v \<and> V2P v < PHYSTOP"

definition kmem_ok :: "'z kmst_scheme \<Rightarrow> u32 list \<Rightarrow> bool" where
  "kmem_ok s xs \<longleftrightarrow> flist (phys s) (freelist s) xs \<and> distinct xs \<and> (\<forall>x \<in> set xs. page_ok s x)
     \<and> L_kmem \<notin> set (held s)"

text \<open>Memory outside one page.\<close>

definition same_outside :: "u32 \<Rightarrow> mem \<Rightarrow> mem \<Rightarrow> bool" where
  "same_outside v m m' \<longleftrightarrow> (\<forall>a. a < unat v \<or> unat v + 4096 \<le> a \<longrightarrow> m' a = m a)"

lemma page_ok_range: "page_ok s v \<Longrightarrow> 0x80000000 \<le> unat v \<and> unat v < 0x8E000000 \<and> unat v mod 4096 = 0"
proof -
  assume v: "page_ok s v"
  then have d: "v - 0x80000000 < 0xE000000" "v mod 4096 = 0"
    by (simp_all add: page_ok_def V2P_def KERNBASE_def PHYSTOP_def PGSIZE_def)
  have "unat (v - 0x80000000) < 0xE000000" using d(1) by (simp add: word_less_nat_alt)
  moreover have "unat v < 4294967296" using unsigned_less [of v] by simp
  moreover have "unat (v - 0x80000000) =
      (if 0x80000000 \<le> unat v then unat v - 0x80000000 else unat v + 2147483648)"
    using unat_sub_if' [of v "0x80000000"] by (simp add: word_le_nat_alt)
  moreover have "unat v mod 4096 = 0"
    using arg_cong [OF d(2), of unat] by (simp add: unat_mod)
  ultimately show ?thesis by (auto split: if_splits)
qed

lemma ldw_write_bytes_out:
  "unat a + 4 \<le> b \<or> b + length bs \<le> unat a \<Longrightarrow> ldw (write_bytes m b bs) a = ldw m a"
  by (auto simp: ldw_def rd32_def write_bytes_out)

lemma ldw_stw [simp]: "ldw (stw m a v) a = v"
proof -
  have "unat v < 4294967296" using unsigned_less [of v] by simp
  then have "rd32 (\<lambda>i. write_bytes m (unat a) (le32 (unat v)) (unat a + i)) = unat v"
    using rd32_le32 [of "unat v" "[]"] by (simp add: rd32_def write_bytes_def)
  then show ?thesis by (simp add: ldw_def stw_def)
qed

lemma ldw_stw_other: "unat a + 4 \<le> unat b \<or> unat b + 4 \<le> unat a \<Longrightarrow> ldw (stw m b v) a = ldw m a"
  by (simp add: stw_def ldw_write_bytes_out)

lemma ldw_cong: "(\<And>i. i < 4 \<Longrightarrow> m' (unat a + i) = m (unat a + i)) \<Longrightarrow> ldw m' a = ldw m a"
  unfolding ldw_def by (rule arg_cong [where f = of_nat], rule rd32_cong) simp

lemma pages_apart:
  assumes "page_ok s v" "page_ok s w" "v \<noteq> w"
  shows "unat v + 4096 \<le> unat w \<or> unat w + 4096 \<le> unat v"
proof -
  have "unat v \<noteq> unat w" using assms(3) by (simp add: word_unat_eq_iff)
  moreover obtain j k where "unat v = 4096 * j" "unat w = 4096 * k"
    using page_ok_range [OF assms(1)] page_ok_range [OF assms(2)] by (auto elim!: dvdE)
  ultimately show ?thesis by (cases "j < k") auto
qed

lemma same_outside_ldw: "same_outside v m m' \<Longrightarrow> unat v + 4096 \<le> unat a \<or> unat a + 4 \<le> unat v \<Longrightarrow> ldw m' a = ldw m a"
  by (auto intro!: ldw_cong simp: same_outside_def)

lemma same_outside_refl [simp]: "same_outside v m m"
  by (simp add: same_outside_def)

lemma same_outside_trans: "same_outside v m m' \<Longrightarrow> same_outside v m' m'' \<Longrightarrow> same_outside v m m''"
  by (simp add: same_outside_def)

lemma same_outside_memset: "same_outside v m (memset m (unat v) c 4096)"
  by (auto simp: same_outside_def memset_eq write_bytes_out)

lemma same_outside_stw: "unat v \<le> unat a \<Longrightarrow> unat a + 4 \<le> unat v + 4096 \<Longrightarrow> same_outside v m (stw m a w)"
  by (auto simp: same_outside_def stw_def write_bytes_out)

lemma flist_same:
  assumes "same_outside v m m'" "page_ok s v" "\<forall>x \<in> set xs. page_ok s x \<and> x \<noteq> v"
  shows "flist m' p xs = flist m p xs"
  using assms(3)
proof (induction xs arbitrary: p)
  case (Cons x xs)
  have "ldw m' x = ldw m x"
    using pages_apart [OF assms(2), of x] Cons.prems same_outside_ldw [OF assms(1), of x] by auto
  with Cons show ?case by simp
qed simp

text \<open>What the lock switch does to the state: nothing that is left after both calls.\<close>

lemma kmem_lock_eq:
  "L_kmem \<notin> set (held s) \<Longrightarrow>
   kmem_lock s = Ret () (if use_lock s then s\<lparr>held := L_kmem # held s\<rparr> else s)"
  by (simp add: kmem_lock_def lock_simps)

lemma kmem_unlock_eq:
  "use_lock s \<longrightarrow> L_kmem \<in> set (held s) \<Longrightarrow>
   kmem_unlock s = Ret () (if use_lock s then s\<lparr>held := remove1 L_kmem (held s)\<rparr> else s)"
  by (simp add: kmem_unlock_def lock_simps)

lemma kmst_order:
  "s\<lparr>phys := m, held := h\<rparr> = s\<lparr>held := h, phys := m\<rparr>"
  "s\<lparr>freelist := f, held := h\<rparr> = s\<lparr>held := h, freelist := f\<rparr>"
  "s\<lparr>freelist := f, phys := m\<rparr> = s\<lparr>phys := m, freelist := f\<rparr>"
  "s\<lparr>phys := m, procs := ps\<rparr> = s\<lparr>procs := ps, phys := m\<rparr>"
  "s\<lparr>freelist := f, procs := ps\<rparr> = s\<lparr>procs := ps, freelist := f\<rparr>"
  by (cases s; simp)+

lemma mstore_eq [simp]: "mstore f s = Ret () (s\<lparr>phys := f (phys s)\<rparr>)"
  by (simp add: mstore_def)

lemma kfree_eq:
  assumes "L_kmem \<notin> set (held s)"
  shows "kfree v s = (if page_ok s v
    then Ret () (s\<lparr>phys := stw (memset (phys s) (unat v) 1 4096) v (freelist s), freelist := v\<rparr>)
    else Panic ''kfree'')"
proof -
  have "unat PGSIZE = 4096" by (simp add: PGSIZE_def)
  moreover have "v mod PGSIZE \<noteq> 0 \<or> v < ld_end s \<or> PHYSTOP \<le> V2P v \<longleftrightarrow> \<not> page_ok s v"
    by (auto simp: page_ok_def not_le)
  ultimately show ?thesis
    using assms by (simp add: kfree_def kmem_lock_eq kmem_unlock_eq kmst_order seqK_def bindK_def)
qed

lemma kalloc_eq:
  assumes "L_kmem \<notin> set (held s)"
  shows "kalloc s = Ret (freelist s)
    (if freelist s \<noteq> 0 then s\<lparr>freelist := ldw (phys s) (freelist s)\<rparr> else s)"
  using assms by (auto simp: kalloc_def kmem_lock_eq kmem_unlock_eq kmst_order)

section \<open>The allocator keeps its free list\<close>

lemma page_ok_nonnull: "page_ok s v \<Longrightarrow> v \<noteq> 0"
  using page_ok_range by fastforce

lemma page_ok_upd [simp]:
  "page_ok (s\<lparr>phys := m\<rparr>) = page_ok s" "page_ok (s\<lparr>freelist := f\<rparr>) = page_ok s"
  "page_ok (s\<lparr>held := h\<rparr>) = page_ok s" "page_ok (s\<lparr>procs := ps\<rparr>) = page_ok s"
  by (auto simp: page_ok_def fun_eq_iff)

lemma flist_head: "kmem_ok s xs \<Longrightarrow> freelist s = (case xs of [] \<Rightarrow> 0 | x # _ \<Rightarrow> x)"
  by (cases xs) (simp_all add: kmem_ok_def)

lemma kalloc_ok:
  assumes "kmem_ok s xs"
  shows "kalloc s = Ret (case xs of [] \<Rightarrow> 0 | x # _ \<Rightarrow> x) (s\<lparr>freelist := case tl xs of [] \<Rightarrow> 0 | x # _ \<Rightarrow> x\<rparr>)
    \<and> kmem_ok (s\<lparr>freelist := case tl xs of [] \<Rightarrow> 0 | x # _ \<Rightarrow> x\<rparr>) (tl xs)"
proof (cases xs)
  case Nil
  with assms show ?thesis by (simp add: kalloc_eq kmem_ok_def)
next
  case (Cons x ys)
  with assms have x: "freelist s = x" "flist (phys s) (ldw (phys s) x) ys" "x \<noteq> 0" "L_kmem \<notin> set (held s)"
    by (auto simp: kmem_ok_def dest: page_ok_nonnull)
  from x(2) have "ldw (phys s) x = (case ys of [] \<Rightarrow> 0 | y # _ \<Rightarrow> y)" by (cases ys) auto
  with assms x Cons show ?thesis by (simp add: kalloc_eq kmem_ok_def)
qed

lemma kfree_ok:
  assumes "kmem_ok s xs" "page_ok s v" "v \<notin> set xs"
  shows "\<exists>m. kfree v s = Ret () (s\<lparr>phys := m, freelist := v\<rparr>) \<and> same_outside v (phys s) m
    \<and> kmem_ok (s\<lparr>phys := m, freelist := v\<rparr>) (v # xs)"
proof -
  let ?m = "stw (memset (phys s) (unat v) 1 4096) v (freelist s)"
  have same: "same_outside v (phys s) ?m"
    by (rule same_outside_trans [OF same_outside_memset same_outside_stw]) simp_all
  have "flist ?m (freelist s) xs"
    using assms flist_same [OF same assms(2), of xs] by (auto simp: kmem_ok_def)
  with assms same show ?thesis
    by (intro exI [of _ ?m]) (auto simp: kfree_eq kmem_ok_def)
qed

text \<open>Running an allocation \<open>n\<close> times.\<close>

fun repeat_op :: "nat \<Rightarrow> ('s, 'a) kop \<Rightarrow> ('s, 'a list) kop" where
  "repeat_op 0 f = ret []"
| "repeat_op (Suc n) f = bindK f (\<lambda>x. bindK (repeat_op n f) (\<lambda>xs. ret (x # xs)))"

text \<open>The contract of a page allocator, as its clients use it.\<close>

locale page_allocator =
  fixes alloc :: "('s, u32) kop"
    and free :: "u32 \<Rightarrow> ('s, unit) kop"
    and ok :: "'s \<Rightarrow> u32 list \<Rightarrow> bool"
    and usable :: "'s \<Rightarrow> u32 \<Rightarrow> bool"
  assumes alloc_none: "ok s [] \<Longrightarrow> \<exists>t. alloc s = Ret 0 t \<and> ok t []"
    and alloc_some: "ok s (x # xs) \<Longrightarrow> \<exists>t. alloc s = Ret x t \<and> ok t xs \<and> usable t x"
    and free_law: "ok s xs \<Longrightarrow> usable s v \<Longrightarrow> v \<notin> set xs \<Longrightarrow> \<exists>t. free v s = Ret () t \<and> ok t (v # xs)"
    and ok_pages: "ok s xs \<Longrightarrow> distinct xs \<and> 0 \<notin> set xs"
begin

lemma alloc_then_free:
  assumes "ok s (x # xs)"
  shows "\<exists>t u. alloc s = Ret x t \<and> free x t = Ret () u \<and> ok u (x # xs)"
proof -
  obtain t where t: "alloc s = Ret x t" "ok t xs" "usable t x" using alloc_some [OF assms] by blast
  moreover have "x \<notin> set xs" using ok_pages [OF assms] by simp
  ultimately show ?thesis using free_law [of t xs x] by blast
qed

lemma alloc_many:
  "ok s xs \<Longrightarrow> n \<le> length xs \<Longrightarrow> \<exists>t. repeat_op n alloc s = Ret (take n xs) t \<and> ok t (drop n xs)"
proof (induction n arbitrary: s xs)
  case (Suc n)
  then obtain x ys where xs: "xs = x # ys" by (cases xs) auto
  obtain t where "alloc s = Ret x t" "ok t ys" using alloc_some Suc.prems(1) xs by blast
  moreover obtain u where "repeat_op n alloc t = Ret (take n ys) u" "ok u (drop n ys)"
    using Suc.IH [OF \<open>ok t ys\<close>] Suc.prems(2) xs by auto
  ultimately show ?case using xs by auto
qed auto

lemma alloc_exhaust:
  assumes "ok s xs"
  shows "\<exists>t u. repeat_op (length xs) alloc s = Ret xs t \<and> alloc t = Ret 0 u"
  using alloc_many [OF assms, of "length xs"] alloc_none by fastforce

end

interpretation ka: page_allocator kalloc kfree kmem_ok page_ok
proof
  fix s :: "'a kmst_scheme" and x v :: u32 and xs
  show "kmem_ok s [] \<Longrightarrow> \<exists>t. kalloc s = Ret 0 t \<and> kmem_ok t []"
    using kalloc_ok [of s "[]"] by simp
  show "kmem_ok s (x # xs) \<Longrightarrow> \<exists>t. kalloc s = Ret x t \<and> kmem_ok t xs \<and> page_ok t x"
    using kalloc_ok [of s "x # xs"] by (simp add: kmem_ok_def)
  show "kmem_ok s xs \<Longrightarrow> page_ok s v \<Longrightarrow> v \<notin> set xs \<Longrightarrow> \<exists>t. kfree v s = Ret () t \<and> kmem_ok t (v # xs)"
    using kfree_ok [of s xs v] by blast
  show "kmem_ok s xs \<Longrightarrow> distinct xs \<and> 0 \<notin> set xs"
    by (auto simp: kmem_ok_def dest: page_ok_nonnull)
qed

text \<open>
  C6. The page allocator. With a well-formed free list of pages \<open>xs\<close>: successive calls of
  \<^verbatim>\<open>kalloc\<close> hand out exactly those pages, all different and none null, and then the null
  pointer; \<^verbatim>\<open>kfree\<close> of an aligned page between \<^verbatim>\<open>end\<close> and \<^verbatim>\<open>PHYSTOP\<close> that is not free puts it
  at the front of the list, which stays well-formed, and writes no byte outside the page;
  \<^verbatim>\<open>kfree\<close> of any other address panics.
\<close>

theorem kalloc_kfree_correct:
  assumes "kmem_ok s xs"
  shows "(\<exists>t u. repeat_op (length xs) kalloc s = Ret xs t \<and> kalloc t = Ret 0 u \<and> distinct xs \<and> 0 \<notin> set xs)
    \<and> (page_ok s v \<and> v \<notin> set xs \<longrightarrow>
         (\<exists>t. kfree v s = Ret () t \<and> kmem_ok t (v # xs) \<and> same_outside v (phys s) (phys t)))
    \<and> (\<not> page_ok s v \<longrightarrow> kfree v s = Panic ''kfree'')"
proof (intro conjI impI)
  show "\<exists>t u. repeat_op (length xs) kalloc s = Ret xs t \<and> kalloc t = Ret 0 u \<and> distinct xs \<and> 0 \<notin> set xs"
    using ka.alloc_exhaust [OF assms] ka.ok_pages [OF assms] by blast
next
  assume "page_ok s v \<and> v \<notin> set xs"
  with kfree_ok [OF assms] show "\<exists>t. kfree v s = Ret () t \<and> kmem_ok t (v # xs) \<and> same_outside v (phys s) (phys t)"
    by fastforce
next
  assume "\<not> page_ok s v"
  with assms show "kfree v s = Panic ''kfree''" by (simp add: kfree_eq kmem_ok_def)
qed

text \<open>A machine whose kernel ends at address \<^verbatim>\<open>0x80200000\<close> with an empty free list.\<close>

definition demo_kmst :: kmst where
  "demo_kmst = \<lparr>held = [], procs = [demo_proc 1 RUNNING, demo_proc 2 RUNNABLE], cur = Some 0,
     initproc = Some 0, nextpid = 3, ticks = 0, slk = (\<lambda>_. \<lparr>sl_locked = False, sl_pid = 0\<rparr>),
     phys = (\<lambda>_. 0), freelist = 0, use_lock = True, ld_end = 0x80200000, ld_data = 0x80108000\<rparr>"

lemma demo_kmst_ok: "kmem_ok demo_kmst []"
  by (simp add: kmem_ok_def demo_kmst_def)

lemma demo_page_ok: "page_ok demo_kmst 0x80200000"
  by (simp add: page_ok_def demo_kmst_def PGSIZE_def V2P_def KERNBASE_def PHYSTOP_def)

theorem kalloc_kfree_correct_witness:
  "\<exists>t. kfree 0x80200000 demo_kmst = Ret () t \<and> kmem_ok t [0x80200000] \<and> kfree 5 demo_kmst = Panic ''kfree''"
proof -
  have "\<not> page_ok demo_kmst 5" by (simp add: page_ok_def PGSIZE_def)
  with kalloc_kfree_correct [OF demo_kmst_ok, of 5] have "kfree 5 demo_kmst = Panic ''kfree''" by blast
  moreover obtain t where "kfree 0x80200000 demo_kmst = Ret () t" "kmem_ok t [0x80200000]"
    using kalloc_kfree_correct [OF demo_kmst_ok, of "0x80200000"] demo_page_ok by auto
  ultimately show ?thesis by blast
qed

section \<open>Filling the free list at boot\<close>

text \<open>The whole pages of a range of addresses.\<close>

definition range_pages :: "nat \<Rightarrow> nat \<Rightarrow> u32 list" where
  "range_pages p vend = map (\<lambda>k. of_nat (p + 4096 * k)) [0..<(vend - p) div 4096]"

lemma range_pages_rec:
  "p + 4096 \<le> vend \<Longrightarrow> range_pages p vend = of_nat p # range_pages (p + 4096) vend"
proof -
  assume "p + 4096 \<le> vend"
  then obtain d where "vend = p + 4096 + d" using le_iff_add by blast
  then have "(vend - p) div 4096 = Suc ((vend - (p + 4096)) div 4096)" by simp
  then show ?thesis
    by (simp add: range_pages_def map_upt_Suc del: upt_Suc)
qed

lemma freerange_loop_ok:
  assumes "kmem_ok s xs" "\<forall>v \<in> set (range_pages p vend). page_ok s v" "distinct (range_pages p vend @ xs)"
  shows "\<exists>t. freerange_loop p vend s = Ret () t \<and> kmem_ok t (rev (range_pages p vend) @ xs)"
  using assms
proof (induction p vend arbitrary: s xs rule: freerange_loop.induct)
  case (1 p vend)
  show ?case
  proof (cases "p + 4096 \<le> vend")
    case False
    then have "range_pages p vend = []" by (simp add: range_pages_def)
    with False 1 show ?thesis by (simp add: freerange_loop.simps [of p vend])
  next
    case True
    note pages = range_pages_rec [OF True]
    obtain m where m: "kfree (of_nat p) s = Ret () (s\<lparr>phys := m, freelist := of_nat p\<rparr>)"
      "kmem_ok (s\<lparr>phys := m, freelist := of_nat p\<rparr>) (of_nat p # xs)"
      using kfree_ok [OF 1(2), of "of_nat p"] 1(3,4) pages by auto
    from 1(1) [OF True m(2)] 1(3,4) pages obtain t where
      "freerange_loop (p + 4096) vend (s\<lparr>phys := m, freelist := of_nat p\<rparr>) = Ret () t"
      "kmem_ok t (rev (range_pages (p + 4096) vend) @ of_nat p # xs)"
      by auto
    with m(1) True pages show ?thesis by (simp add: freerange_loop.simps [of p vend])
  qed
qed

text \<open>
  C12. \<^verbatim>\<open>freerange\<close> terminates and puts every whole page between its rounded-up start and its
  end on the free list, each once, provided these pages are usable and not free already.
\<close>

theorem freerange_correct:
  assumes "kmem_ok s xs"
    and "\<forall>v \<in> set (range_pages (unat (PGROUNDUP vstart)) (unat vend)). page_ok s v \<and> v \<notin> set xs"
  shows "\<exists>t. freerange vstart vend s = Ret () t
    \<and> kmem_ok t (rev (range_pages (unat (PGROUNDUP vstart)) (unat vend)) @ xs)"
proof -
  let ?p = "unat (PGROUNDUP vstart)" and ?n = "(unat vend - unat (PGROUNDUP vstart)) div 4096"
  have "inj_on (\<lambda>k. of_nat (?p + 4096 * k) :: u32) {0..<?n}"
  proof (rule inj_onI)
    fix j k assume jk: "j \<in> {0..<?n}" "k \<in> {0..<?n}" "of_nat (?p + 4096 * j) = (of_nat (?p + 4096 * k) :: u32)"
    have "unat vend < 4294967296" using unsigned_less [of vend] by simp
    then have "?p + 4096 * j < 4294967296" "?p + 4096 * k < 4294967296" using jk(1,2) by auto
    moreover have "(?p + 4096 * j) mod 2 ^ 32 = (?p + 4096 * k) mod 2 ^ 32"
      using arg_cong [OF jk(3), of unat] unfolding unat_of_nat by simp
    ultimately show "j = k" by simp
  qed
  then have "distinct (range_pages ?p (unat vend))"
    by (simp add: range_pages_def distinct_map)
  moreover have "distinct xs" using assms(1) by (simp add: kmem_ok_def)
  ultimately have "distinct (range_pages ?p (unat vend) @ xs)" using assms(2) by auto
  with freerange_loop_ok [OF assms(1)] assms(2) show ?thesis by (simp add: freerange_def)
qed

theorem freerange_correct_witness:
  "\<exists>t. freerange 0x801FF004 0x80202000 demo_kmst = Ret () t \<and> kmem_ok t [0x80201000, 0x80200000]"
proof -
  have "unat (PGROUNDUP 0x801FF004) = 0x80200000" by (simp add: PGROUNDUP_def PGSIZE_def)
  moreover have "range_pages 0x80200000 0x80202000 = [0x80200000, 0x80201000]"
    by (simp add: range_pages_def numeral_2_eq_2)
  moreover have "page_ok demo_kmst 0x80201000"
    by (simp add: page_ok_def demo_kmst_def PGSIZE_def V2P_def KERNBASE_def PHYSTOP_def)
  ultimately show ?thesis
    using freerange_correct [OF demo_kmst_ok, of "0x801FF004" "0x80202000"] demo_page_ok by auto
qed

end
