(* ===== verification/Vm.thy ===== *)
theory Vm
  imports Kalloc
begin

text \<open>
  vm.c: two-level page tables kept in kernel memory as the processor reads them.
  \<^verbatim>\<open>walkpgdir\<close> returns the address of an entry, 0 for the null pointer. Loops of the form
  \<^verbatim>\<open>for(a = lo; a < hi; a += PGSIZE)\<close> run over the list \<open>uvm_pages lo hi\<close> of the values of
  \<^verbatim>\<open>a\<close>; all sizes are below \<^verbatim>\<open>KERNBASE\<close> where they are used, so \<^verbatim>\<open>a\<close> does not wrap.
\<close>

definition PTE_P :: u32 where "PTE_P = 1"
definition PTE_W :: u32 where "PTE_W = 2"
definition PTE_U :: u32 where "PTE_U = 4"

definition PDX :: "u32 \<Rightarrow> u32" where "PDX va = drop_bit 22 va AND 0x3FF"
definition PTX :: "u32 \<Rightarrow> u32" where "PTX va = drop_bit 12 va AND 0x3FF"
definition PGADDR :: "u32 \<Rightarrow> u32 \<Rightarrow> u32 \<Rightarrow> u32" where
  "PGADDR d t off = push_bit 22 d OR push_bit 12 t OR off"
definition PTE_ADDR :: "u32 \<Rightarrow> u32" where "PTE_ADDR pte = pte AND NOT 0xFFF"
definition PTE_FLAGS :: "u32 \<Rightarrow> u32" where "PTE_FLAGS pte = pte AND 0xFFF"

section \<open>Page table operations\<close>

definition walkpgdir :: "u32 \<Rightarrow> u32 \<Rightarrow> bool \<Rightarrow> ('z kmst_scheme, u32) kop" where
  "walkpgdir pgdir va alloc =
     (let pde = pgdir + 4 * PDX va in
      bindK (gets (\<lambda>s. ldw (phys s) pde)) (\<lambda>e.
      if e AND PTE_P \<noteq> 0 then ret (P2V (PTE_ADDR e) + 4 * PTX va)
      else if \<not> alloc then ret 0
      else bindK kalloc (\<lambda>pgtab.
        if pgtab = 0 then ret 0
        else
          seqK (mstore (\<lambda>m. memset m (unat pgtab) 0 (unat PGSIZE)))
          (seqK (mstore (\<lambda>m. stw m pde (V2P pgtab OR PTE_P OR PTE_W OR PTE_U)))
          (ret (pgtab + 4 * PTX va))))))"

fun mappages_loop :: "u32 \<Rightarrow> u32 \<Rightarrow> (u32 \<times> u32) list \<Rightarrow> ('z kmst_scheme, int) kop" where
  "mappages_loop pgdir perm [] = ret 0"
| "mappages_loop pgdir perm ((a, pa) # r) =
     bindK (walkpgdir pgdir a True) (\<lambda>pte.
     if pte = 0 then ret (- 1)
     else
       seqK (bindK (gets (\<lambda>s. ldw (phys s) pte)) (\<lambda>e. panic_if (e AND PTE_P \<noteq> 0) ''remap''))
       (seqK (mstore (\<lambda>m. stw m pte (pa OR perm OR PTE_P)))
       (mappages_loop pgdir perm r)))"

text \<open>
  The \<^verbatim>\<open>for(;;)\<close> of \<^verbatim>\<open>mappages\<close> ends when \<^verbatim>\<open>a == last\<close>; both are page aligned, so it makes
  \<open>(last - a) / PGSIZE + 1\<close> rounds, counted modulo the address space.
\<close>

definition map_steps :: "u32 \<Rightarrow> u32 \<Rightarrow> u32 \<Rightarrow> (u32 \<times> u32) list" where
  "map_steps a lst pa =
     map (\<lambda>k. (a + of_nat (4096 * k), pa + of_nat (4096 * k))) [0..<Suc (unat (lst - a) div 4096)]"

definition mappages :: "u32 \<Rightarrow> u32 \<Rightarrow> u32 \<Rightarrow> u32 \<Rightarrow> u32 \<Rightarrow> ('z kmst_scheme, int) kop" where
  "mappages pgdir va sz pa perm =
     (let a = PGROUNDDOWN va; lst = PGROUNDDOWN (va + sz - 1)
      in mappages_loop pgdir perm (map_steps a lst pa))"

lemma room_above: "(a :: u32) < b \<Longrightarrow> 4294967296 - unat b < 4294967296 - unat a"
  using unat_u32_less [of b] by (simp add: word_less_nat_alt)

text \<open>
  \<^verbatim>\<open>deallocuvm\<close> skips to the next page table where one is missing. Should \<^verbatim>\<open>a\<close> wrap around
  the loop does not end (\<open>Spin\<close>); that needs a size above 0xFFC00000.
\<close>

function dealloc_loop :: "u32 \<Rightarrow> u32 \<Rightarrow> u32 \<Rightarrow> ('z kmst_scheme, unit) kop" where
  "dealloc_loop pgdir a oldsz =
     (if a < oldsz then
        bindK (walkpgdir pgdir a False) (\<lambda>pte.
        if pte = 0 then
          (let a' = PGADDR (PDX a + 1) 0 0 - PGSIZE + PGSIZE
           in if a < a' then dealloc_loop pgdir a' oldsz else (\<lambda>s. Spin s))
        else
          seqK (bindK (gets (\<lambda>s. ldw (phys s) pte)) (\<lambda>e.
            if e AND PTE_P \<noteq> 0 then
              seqK (panic_if (PTE_ADDR e = 0) ''kfree'')
              (seqK (kfree (P2V (PTE_ADDR e)))
              (mstore (\<lambda>m. stw m pte 0)))
            else ret ()))
          (if a < a + PGSIZE then dealloc_loop pgdir (a + PGSIZE) oldsz else (\<lambda>s. Spin s)))
      else ret ())"
  by auto
termination
  by (relation "measure (\<lambda>(_, a, _). 4294967296 - unat a)") (auto intro!: room_above)

declare dealloc_loop.simps [simp del]

definition deallocuvm :: "u32 \<Rightarrow> u32 \<Rightarrow> u32 \<Rightarrow> ('z kmst_scheme, u32) kop" where
  "deallocuvm pgdir oldsz newsz =
     (if newsz \<ge> oldsz then ret oldsz
      else seqK (dealloc_loop pgdir (PGROUNDUP newsz) oldsz) (ret newsz))"

definition freevm :: "u32 \<Rightarrow> ('z kmst_scheme, unit) kop" where
  "freevm pgdir =
     seqK (panic_if (pgdir = 0) ''freevm: no pgdir'')
     (seqK (deallocuvm pgdir KERNBASE 0)
     (seqK (forK [0..<1024] (\<lambda>i.
        bindK (gets (\<lambda>s. ldw (phys s) (pgdir + 4 * of_nat i))) (\<lambda>e.
        if e AND PTE_P \<noteq> 0 then kfree (P2V (PTE_ADDR e)) else ret ())))
     (kfree pgdir)))"

text \<open>The table \<^verbatim>\<open>kmap\<close>: virtual start, physical start and end, permissions.\<close>

definition kmap :: "'z kmst_scheme \<Rightarrow> (u32 \<times> u32 \<times> u32 \<times> u32) list" where
  "kmap s =
     [(KERNBASE, 0, EXTMEM, PTE_W),
      (KERNLINK, V2P KERNLINK, V2P (ld_data s), 0),
      (ld_data s, V2P (ld_data s), PHYSTOP, PTE_W),
      (DEVSPACE, DEVSPACE, 0, PTE_W)]"

fun setupkvm_loop :: "u32 \<Rightarrow> (u32 \<times> u32 \<times> u32 \<times> u32) list \<Rightarrow> ('z kmst_scheme, u32) kop" where
  "setupkvm_loop pgdir [] = ret pgdir"
| "setupkvm_loop pgdir ((virt, phys_start, phys_end, perm) # ks) =
     bindK (mappages pgdir virt (phys_end - phys_start) phys_start perm) (\<lambda>r.
     if r < 0 then seqK (freevm pgdir) (ret 0)
     else setupkvm_loop pgdir ks)"

definition setupkvm :: "('z kmst_scheme, u32) kop" where
  "setupkvm =
     bindK kalloc (\<lambda>pgdir.
     if pgdir = 0 then ret 0
     else
       seqK (mstore (\<lambda>m. memset m (unat pgdir) 0 (unat PGSIZE)))
       (seqK (panic_if (P2V PHYSTOP > DEVSPACE) ''PHYSTOP too high'')
       (bindK (gets kmap) (setupkvm_loop pgdir))))"

text \<open>\<^verbatim>\<open>inituvm\<close> does not check \<^verbatim>\<open>kalloc\<close>; address 0 is then written through the null pointer.\<close>

definition inituvm :: "u32 \<Rightarrow> byte list \<Rightarrow> ('z kmst_scheme, unit) kop" where
  "inituvm pgdir ini =
     seqK (panic_if (length ini \<ge> unat PGSIZE) ''inituvm: more than a page'')
     (bindK kalloc (\<lambda>mem.
     seqK (panic_if (mem = 0) ''trap'')
     (seqK (mstore (\<lambda>m. memset m (unat mem) 0 (unat PGSIZE)))
     (bindK (mappages pgdir 0 PGSIZE (V2P mem) (PTE_W OR PTE_U)) (\<lambda>_.
     mstore (\<lambda>m. write_bytes m (unat mem) ini))))))"

definition uvm_pages :: "u32 \<Rightarrow> u32 \<Rightarrow> u32 list" where
  "uvm_pages lo hi = map (\<lambda>k. lo + of_nat (4096 * k)) [0..<(unat hi - unat lo + 4095) div 4096]"

fun allocuvm_loop :: "u32 \<Rightarrow> u32 \<Rightarrow> u32 \<Rightarrow> u32 list \<Rightarrow> ('z kmst_scheme, u32) kop" where
  "allocuvm_loop pgdir oldsz newsz [] = ret newsz"
| "allocuvm_loop pgdir oldsz newsz (a # as) =
     bindK kalloc (\<lambda>mem.
     if mem = 0 then seqK (deallocuvm pgdir newsz oldsz) (ret 0)
     else
       seqK (mstore (\<lambda>m. memset m (unat mem) 0 (unat PGSIZE)))
       (bindK (mappages pgdir a PGSIZE (V2P mem) (PTE_W OR PTE_U)) (\<lambda>r.
        if r < 0 then seqK (deallocuvm pgdir newsz oldsz) (seqK (kfree mem) (ret 0))
        else allocuvm_loop pgdir oldsz newsz as)))"

definition allocuvm :: "u32 \<Rightarrow> u32 \<Rightarrow> u32 \<Rightarrow> ('z kmst_scheme, u32) kop" where
  "allocuvm pgdir oldsz newsz =
     (if newsz \<ge> KERNBASE then ret 0
      else if newsz < oldsz then ret oldsz
      else allocuvm_loop pgdir oldsz newsz (uvm_pages (PGROUNDUP oldsz) newsz))"

definition clearpteu :: "u32 \<Rightarrow> u32 \<Rightarrow> ('z kmst_scheme, unit) kop" where
  "clearpteu pgdir uva =
     bindK (walkpgdir pgdir uva False) (\<lambda>pte.
     seqK (panic_if (pte = 0) ''clearpteu'')
     (mstore (\<lambda>m. stw m pte (ldw m pte AND NOT PTE_U))))"

fun copyuvm_loop :: "u32 \<Rightarrow> u32 \<Rightarrow> u32 list \<Rightarrow> ('z kmst_scheme, u32) kop" where
  "copyuvm_loop pgdir d [] = ret d"
| "copyuvm_loop pgdir d (i # is) =
     bindK (walkpgdir pgdir i False) (\<lambda>pte.
     seqK (panic_if (pte = 0) ''copyuvm: pte should exist'')
     (bindK (gets (\<lambda>s. ldw (phys s) pte)) (\<lambda>e.
     seqK (panic_if (e AND PTE_P = 0) ''copyuvm: page not present'')
     (bindK kalloc (\<lambda>mem.
     if mem = 0 then seqK (freevm d) (ret 0)
     else
       seqK (mstore (\<lambda>m. memmove m (unat mem) (unat (P2V (PTE_ADDR e))) (unat PGSIZE)))
       (bindK (mappages d i PGSIZE (V2P mem) (PTE_FLAGS e)) (\<lambda>r.
        if r < 0 then seqK (kfree mem) (seqK (freevm d) (ret 0))
        else copyuvm_loop pgdir d is)))))))"

definition copyuvm :: "u32 \<Rightarrow> u32 \<Rightarrow> ('z kmst_scheme, u32) kop" where
  "copyuvm pgdir sz =
     bindK setupkvm (\<lambda>d. if d = 0 then ret 0 else copyuvm_loop pgdir d (uvm_pages 0 sz))"

section \<open>Memory as the running process's page table shows it\<close>

text \<open>
  The processor's translation of a virtual address, in supervisor mode with write
  protection on: kernel addresses stand for themselves, user addresses go through the
  current process's page directory. An access that has no translation faults in the
  kernel, which ends in \<^verbatim>\<open>panic("trap")\<close>.
\<close>

definition vaddr :: "'z kmst_scheme \<Rightarrow> bool \<Rightarrow> u32 \<Rightarrow> u32 option" where
  "vaddr s wr va =
     (if va \<ge> KERNBASE then Some va
      else case cur s of None \<Rightarrow> None | Some p \<Rightarrow>
        let e = ldw (phys s) (p_pgdir (proc_at p s) + 4 * PDX va) in
        if e AND PTE_P = 0 then None
        else let t = ldw (phys s) (P2V (PTE_ADDR e) + 4 * PTX va) in
          if t AND PTE_P = 0 \<or> (wr \<and> t AND PTE_W = 0) then None
          else Some (P2V (PTE_ADDR t) + (va AND 0xFFF)))"

definition vload :: "u32 \<Rightarrow> ('z kmst_scheme, byte) kop" where
  "vload va s = (case vaddr s False va of Some a \<Rightarrow> Ret (phys s (unat a)) s | None \<Rightarrow> Panic ''trap'')"

definition vstore :: "u32 \<Rightarrow> byte \<Rightarrow> ('z kmst_scheme, unit) kop" where
  "vstore va b s = (case vaddr s True va of
     Some a \<Rightarrow> Ret () (s\<lparr>phys := (phys s)(unat a := b)\<rparr>) | None \<Rightarrow> Panic ''trap'')"

fun vloads :: "u32 \<Rightarrow> nat \<Rightarrow> ('z kmst_scheme, byte list) kop" where
  "vloads va 0 = ret []"
| "vloads va (Suc n) = bindK (vload va) (\<lambda>b. bindK (vloads (va + 1) n) (\<lambda>bs. ret (b # bs)))"

fun vstores :: "u32 \<Rightarrow> byte list \<Rightarrow> ('z kmst_scheme, unit) kop" where
  "vstores va [] = ret ()"
| "vstores va (b # bs) = seqK (vstore va b) (vstores (va + 1) bs)"

definition vldw :: "u32 \<Rightarrow> ('z kmst_scheme, u32) kop" where
  "vldw va = bindK (vloads va 4) (\<lambda>bs. ret (of_nat (rd32 (cview bs))))"

definition vstw :: "u32 \<Rightarrow> u32 \<Rightarrow> ('z kmst_scheme, unit) kop" where
  "vstw va w = vstores va (le32 (unat w))"

text \<open>
  \<^verbatim>\<open>uva2ka\<close> does not test the result of \<^verbatim>\<open>walkpgdir\<close>: where the page table is missing it
  loads the entry through the null pointer, that is from address 0 of the running process.
\<close>

definition uva2ka :: "u32 \<Rightarrow> u32 \<Rightarrow> ('z kmst_scheme, u32) kop" where
  "uva2ka pgdir uva =
     bindK (walkpgdir pgdir uva False) (\<lambda>pte.
     bindK (if pte = 0 then vldw 0 else gets (\<lambda>s. ldw (phys s) pte)) (\<lambda>e.
     if e AND PTE_P = 0 then ret 0
     else if e AND PTE_U = 0 then ret 0
     else ret (P2V (PTE_ADDR e))))"

text \<open>The source of \<^verbatim>\<open>copyout\<close> is the list of its \<^verbatim>\<open>len\<close> bytes.\<close>

lemma page_rest_pos: "0 < unat (PGSIZE - (va - PGROUNDDOWN va))"
proof -
  have "va - PGROUNDDOWN va = va AND 0xFFF"
    using split_low [of va] by (simp add: PGROUNDDOWN_def PGSIZE_def)
  moreover have "unat (va AND 0xFFF) < 4096" by (simp add: unat_and_low)
  ultimately show ?thesis
    using unat_sub [of "va AND 0xFFF" PGSIZE] by (simp add: PGSIZE_def word_le_nat_alt)
qed

function copyout :: "u32 \<Rightarrow> u32 \<Rightarrow> byte list \<Rightarrow> ('z kmst_scheme, int) kop" where
  "copyout pgdir va bs =
     (if length bs > 0 then
        let va0 = PGROUNDDOWN va in
        bindK (uva2ka pgdir va0) (\<lambda>pa0.
        if pa0 = 0 then ret (- 1)
        else
          let n = min (unat (PGSIZE - (va - va0))) (length bs) in
          seqK (mstore (\<lambda>m. write_bytes m (unat (pa0 + (va - va0))) (take n bs)))
          (copyout pgdir (va0 + PGSIZE) (drop n bs)))
      else ret 0)"
  by auto
termination
  by (relation "measure (\<lambda>(_, _, bs). length bs)") (auto simp: page_rest_pos)

declare copyout.simps [simp del]

section \<open>Page tables as functions\<close>

text \<open>
  \<open>pte_of m pgdir va\<close> is the entry that maps \<open>va\<close>, 0 where there is no page table. A
  directory is well formed over a free list when its own page and its page tables are
  usable pages, all different and none of them free.
\<close>

definition vpn :: "u32 \<Rightarrow> nat" where "vpn va = unat va div 4096"

definition pde_ix :: "mem \<Rightarrow> u32 \<Rightarrow> nat \<Rightarrow> u32" where
  "pde_ix m pgdir d = ldw m (pgdir + 4 * of_nat d)"

definition table :: "mem \<Rightarrow> u32 \<Rightarrow> nat \<Rightarrow> u32" where
  "table m pgdir d = P2V (PTE_ADDR (pde_ix m pgdir d))"

definition has_table :: "mem \<Rightarrow> u32 \<Rightarrow> nat \<Rightarrow> bool" where
  "has_table m pgdir d \<longleftrightarrow> d < 1024 \<and> pde_ix m pgdir d AND PTE_P \<noteq> 0"

definition pte_ix :: "mem \<Rightarrow> u32 \<Rightarrow> nat \<Rightarrow> u32" where
  "pte_ix m pgdir n = (if has_table m pgdir (n div 1024)
     then ldw m (table m pgdir (n div 1024) + 4 * of_nat (n mod 1024)) else 0)"

definition pte_of :: "mem \<Rightarrow> u32 \<Rightarrow> u32 \<Rightarrow> u32" where
  "pte_of m pgdir va = pte_ix m pgdir (vpn va)"

definition pt_pages :: "mem \<Rightarrow> u32 \<Rightarrow> u32 set" where
  "pt_pages m pgdir = insert pgdir (table m pgdir ` {d. has_table m pgdir d})"

definition pt_wf :: "'z kmst_scheme \<Rightarrow> u32 \<Rightarrow> u32 list \<Rightarrow> bool" where
  "pt_wf s pgdir xs \<longleftrightarrow>
     (\<forall>v \<in> pt_pages (phys s) pgdir. page_ok s v) \<and> pt_pages (phys s) pgdir \<inter> set xs = {}
     \<and> inj_on (table (phys s) pgdir) {d. has_table (phys s) pgdir d}
     \<and> (\<forall>d. has_table (phys s) pgdir d \<longrightarrow> table (phys s) pgdir d \<noteq> pgdir)"

lemma unat_PDX: "unat (PDX va) = vpn va div 1024"
proof -
  have "unat va div 4194304 < 1024" using unat_u32_less [of va] by simp
  then show ?thesis
    by (simp add: PDX_def vpn_def unat_and_low unat_drop div_mult2_eq [symmetric])
qed

lemma unat_PTX: "unat (PTX va) = vpn va mod 1024"
  by (simp add: PTX_def vpn_def unat_and_low unat_drop)

lemma PDX_ix: "PDX va = of_nat (vpn va div 1024)" and PTX_ix: "PTX va = of_nat (vpn va mod 1024)"
  by (simp_all flip: unat_PDX unat_PTX)

lemma vpn_less: "vpn va div 1024 < 1024" "vpn va < 1048576"
  using unat_u32_less [of va] by (simp_all add: vpn_def)

lemma entry_addr:
  assumes "page_ok s t" "k < 1024"
  shows "unat (t + 4 * of_nat k) = unat t + 4 * k"
proof -
  have "unat (of_nat (4 * k) :: u32) = 4 * k" using assms(2) unfolding unat_of_nat by simp
  moreover have "unat t + 4 * k < 4294967296" using page_ok_range [OF assms(1)] assms(2) by simp
  ultimately show ?thesis using unat_add_lem [of t "of_nat (4 * k)"] by simp
qed

text \<open>Two words of page tables do not overlap.\<close>

lemma ldw_stw_entry:
  assumes "page_ok s t" "page_ok s t'" "k < 1024" "k' < 1024" "t \<noteq> t' \<or> k \<noteq> k'"
  shows "ldw (stw m (t' + 4 * of_nat k') w) (t + 4 * of_nat k) = ldw m (t + 4 * of_nat k)"
proof -
  have "unat t + 4 * k + 4 \<le> unat t' + 4 * k' \<or> unat t' + 4 * k' + 4 \<le> unat t + 4 * k"
  proof (cases "t = t'")
    case True
    with assms(5) show ?thesis by (cases "k < k'") auto
  next
    case False
    with pages_apart [OF assms(1,2)] assms(3,4) show ?thesis by auto
  qed
  then show ?thesis
    using assms by (intro ldw_stw_other) (simp add: entry_addr)
qed

lemma ldw_same_outside_entry:
  assumes "same_outside v m m'" "page_ok s v" "page_ok s t" "v \<noteq> t" "k < 1024"
  shows "ldw m' (t + 4 * of_nat k) = ldw m (t + 4 * of_nat k)"
  using pages_apart [OF assms(2,3,4)] assms(5)
  by (intro same_outside_ldw [OF assms(1)]) (auto simp: entry_addr [OF assms(3,5)])

lemma ldw_zero_page:
  assumes "page_ok s v" "k < 1024"
  shows "ldw (memset m (unat v) 0 4096) (v + 4 * of_nat k) = 0"
proof -
  have "ldw (memset m (unat v) 0 4096) (v + 4 * of_nat k) = ldw (\<lambda>_. 0) (v + 4 * of_nat k)"
    using assms by (intro ldw_cong) (simp add: entry_addr memset_eq write_bytes_def)
  then show ?thesis by (simp add: ldw_def rd32_def)
qed

lemma same_outside_entry: "page_ok s t \<Longrightarrow> k < 1024 \<Longrightarrow> same_outside t m (stw m (t + 4 * of_nat k) w)"
  by (rule same_outside_stw) (simp_all add: entry_addr)

text \<open>The entry that \<^verbatim>\<open>walkpgdir\<close> writes for a new page table.\<close>

lemma or_low_bits:
  assumes "(x :: u32) mod 4096 = 0"
  shows "(x OR 7) AND NOT 0xFFF = x" "(x OR 7) AND 1 = 1"
proof -
  have "x AND 0xFFF = 0" using assms by (simp add: and_low_mask take_bit_eq_mod)
  then have "\<not> bit x i" if "i < 12" for i
  proof -
    have "bit (x AND 0xFFF) i \<longleftrightarrow> bit x i" using that
      by (simp add: and_low_mask bit_take_bit_iff)
    then show ?thesis using \<open>x AND 0xFFF = 0\<close> by simp
  qed
  moreover have "bit (7 :: u32) i \<Longrightarrow> i < 12" for i
  proof -
    assume "bit (7 :: u32) i"
    moreover have "(7 :: u32) = mask 3" by (simp add: mask_eq_exp_minus_1)
    ultimately show "i < 12" by (simp add: bit_mask_iff)
  qed
  moreover have "bit (0xFFF :: u32) i \<longleftrightarrow> i < 12" for i
  proof -
    have eq: "(0xFFF :: u32) = mask 12" by (simp add: mask_eq_exp_minus_1)
    show ?thesis by (simp only: eq bit_mask_iff) auto
  qed
  ultimately show "(x OR 7) AND NOT 0xFFF = x"
    by (intro bit_word_eqI) (auto simp: bit_simps)
  show "(x OR 7) AND 1 = 1"
    by (intro bit_word_eqI) (auto simp: bit_simps)
qed

lemma V2P_page: "page_ok s x \<Longrightarrow> V2P x mod 4096 = 0" and P2V_V2P [simp]: "P2V (V2P x) = x"
proof -
  assume "page_ok s x"
  note r = page_ok_range [OF this]
  have "unat (V2P x) = unat x - 0x80000000"
    using r unat_sub [of "0x80000000" x] by (simp add: V2P_def KERNBASE_def word_le_nat_alt)
  moreover have "(unat x - 0x80000000) mod 4096 = 0"
  proof -
    from r have "4096 dvd unat x" by (simp add: dvd_eq_mod_eq_0)
    moreover have "(4096 :: nat) dvd 0x80000000" by (simp add: dvd_eq_mod_eq_0)
    ultimately show ?thesis by (simp add: dvd_diff_nat flip: dvd_eq_mod_eq_0)
  qed
  ultimately have "unat (V2P x mod 4096) = 0" by (simp add: unat_mod)
  then show "V2P x mod 4096 = 0" by (simp only: unat_eq_zero)
qed (simp add: P2V_def V2P_def)

definition same_page :: "u32 \<Rightarrow> mem \<Rightarrow> mem \<Rightarrow> bool" where
  "same_page v m m' \<longleftrightarrow> (\<forall>i<4096. m' (unat v + i) = m (unat v + i))"

lemma same_pageI: "same_outside w m m' \<Longrightarrow> page_ok s w \<Longrightarrow> page_ok s v \<Longrightarrow> w \<noteq> v \<Longrightarrow> same_page v m m'"
  using pages_apart [of s w v] by (auto simp: same_page_def same_outside_def)

lemma same_page_trans: "same_page v m m' \<Longrightarrow> same_page v m' m'' \<Longrightarrow> same_page v m m''"
  by (simp add: same_page_def)

lemma same_page_ldw:
  "same_page t m m' \<Longrightarrow> page_ok s t \<Longrightarrow> k < 1024 \<Longrightarrow> ldw m' (t + 4 * of_nat k) = ldw m (t + 4 * of_nat k)"
  by (intro ldw_cong) (simp add: entry_addr same_page_def add.assoc)

text \<open>Memory after \<^verbatim>\<open>walkpgdir\<close> has put a fresh page table \<open>x\<close> into slot \<open>d\<close>.\<close>

definition with_table :: "mem \<Rightarrow> u32 \<Rightarrow> nat \<Rightarrow> u32 \<Rightarrow> mem" where
  "with_table m pgdir d x = stw (memset m (unat x) 0 4096) (pgdir + 4 * of_nat d) (V2P x OR 7)"

lemma with_table_mem:
  fixes m :: mem
  assumes "page_ok s pgdir" "page_ok s x" "x \<noteq> pgdir" "d < 1024"
  defines "m2 \<equiv> with_table m pgdir d x"
  shows "pde_ix m2 pgdir d = V2P x OR 7"
    and "d' < 1024 \<Longrightarrow> d' \<noteq> d \<Longrightarrow> pde_ix m2 pgdir d' = pde_ix m pgdir d'"
    and "k < 1024 \<Longrightarrow> ldw m2 (x + 4 * of_nat k) = 0"
    and "page_ok s v \<Longrightarrow> v \<noteq> x \<Longrightarrow> v \<noteq> pgdir \<Longrightarrow> same_page v m m2"
proof -
  let ?m1 = "memset m (unat x) 0 4096"
  note out1 = same_outside_memset [of x m 0]
  show "pde_ix m2 pgdir d = V2P x OR 7" by (simp add: m2_def with_table_def pde_ix_def)
  show "pde_ix m2 pgdir d' = pde_ix m pgdir d'" if "d' < 1024" "d' \<noteq> d"
    using that assms(1-4) ldw_same_outside_entry [OF out1 assms(2,1,3), of d']
    by (simp add: m2_def with_table_def pde_ix_def ldw_stw_entry)
  show "ldw m2 (x + 4 * of_nat k) = 0" if "k < 1024"
    using that assms(1-4) by (simp add: m2_def with_table_def ldw_stw_entry ldw_zero_page)
  show "same_page v m m2" if v: "page_ok s v" "v \<noteq> x" "v \<noteq> pgdir"
  proof (rule same_page_trans)
    show "same_page v m ?m1" using same_pageI [OF out1 assms(2) v(1)] v(2) by simp
    show "same_page v ?m1 m2" unfolding m2_def with_table_def
      using same_pageI [OF same_outside_entry [OF assms(1,4)] assms(1) v(1)] v(3) by simp
  qed
qed

lemma has_table_less: "has_table m pgdir d \<Longrightarrow> d < 1024"
  by (simp add: has_table_def)

lemma pt_wf_table:
  assumes "pt_wf s pgdir xs" "has_table (phys s) pgdir d"
  shows "page_ok s (table (phys s) pgdir d)" "table (phys s) pgdir d \<notin> set xs"
    "table (phys s) pgdir d \<noteq> pgdir"
  using assms by (auto simp: pt_wf_def pt_pages_def)

lemma pt_wf_pgdir: "pt_wf s pgdir xs \<Longrightarrow> page_ok s pgdir \<and> pgdir \<notin> set xs"
  by (auto simp: pt_wf_def pt_pages_def)

text \<open>The directory after a fresh page table: same entries, one more page.\<close>

lemma with_table_pt:
  assumes wf: "pt_wf s pgdir (x # ys)" and x: "page_ok s x" "x \<notin> set ys"
    and d: "\<not> has_table (phys s) pgdir d" "d < 1024"
  defines "m2 \<equiv> with_table (phys s) pgdir d x"
  shows "has_table m2 pgdir d' \<longleftrightarrow> d' = d \<or> has_table (phys s) pgdir d'"
    and "table m2 pgdir d = x"
    and "has_table (phys s) pgdir d' \<Longrightarrow> table m2 pgdir d' = table (phys s) pgdir d'"
    and "pte_ix m2 pgdir n = pte_ix (phys s) pgdir n"
proof -
  have px: "page_ok s pgdir" "x \<noteq> pgdir" using pt_wf_pgdir [OF wf] by auto
  note mem = with_table_mem [OF px(1) x(1) px(2) d(2), where m = "phys s", folded m2_def]
  note low = or_low_bits [OF V2P_page [OF x(1)]]
  show tab: "has_table m2 pgdir d' \<longleftrightarrow> d' = d \<or> has_table (phys s) pgdir d'" for d'
    using mem(1) mem(2) [of d'] low(2) d by (cases "d' = d") (auto simp: has_table_def PTE_P_def)
  show new: "table m2 pgdir d = x"
    using mem(1) low(1) by (simp add: table_def PTE_ADDR_def)
  show old: "table m2 pgdir d' = table (phys s) pgdir d'" if "has_table (phys s) pgdir d'" for d'
    using mem(2) [of d'] that d has_table_less [OF that] by (cases "d' = d") (auto simp: table_def)
  show "pte_ix m2 pgdir n = pte_ix (phys s) pgdir n"
  proof (cases "has_table (phys s) pgdir (n div 1024)")
    case True
    note t = pt_wf_table [OF wf True]
    from mem(4) [OF t(1)] t have "same_page (table (phys s) pgdir (n div 1024)) (phys s) m2" by auto
    from same_page_ldw [OF this t(1)] True tab old [OF True] show ?thesis by (simp add: pte_ix_def)
  next
    case False
    then show ?thesis
      using tab new mem(3) [of "n mod 1024"] by (cases "n div 1024 = d") (auto simp: pte_ix_def)
  qed
qed

section \<open>Walking and mapping keep the directory well formed\<close>

definition vm_ok :: "'z kmst_scheme \<Rightarrow> u32 \<Rightarrow> u32 list \<Rightarrow> bool" where
  "vm_ok s pgdir xs \<longleftrightarrow> kmem_ok s xs \<and> pt_wf s pgdir xs"

abbreviation front :: "u32 list \<Rightarrow> u32" where
  "front xs \<equiv> (case xs of [] \<Rightarrow> 0 | x # _ \<Rightarrow> x)"

lemma flist_same_page:
  "\<forall>x \<in> set xs. page_ok s x \<and> same_page x m m' \<Longrightarrow> flist m' p xs = flist m p xs"
proof (induction xs arbitrary: p)
  case (Cons x xs)
  then show ?case using same_page_ldw [of x m m' s 0] by auto
qed simp

lemma vm_ok_with_table:
  assumes ok: "vm_ok s pgdir (x # ys)" and d: "\<not> has_table (phys s) pgdir d" "d < 1024"
  shows "vm_ok (s\<lparr>phys := with_table (phys s) pgdir d x, freelist := front ys\<rparr>) pgdir ys"
    and "pt_pages (with_table (phys s) pgdir d x) pgdir = insert x (pt_pages (phys s) pgdir)"
proof -
  let ?m = "with_table (phys s) pgdir d x"
  have wf: "pt_wf s pgdir (x # ys)" and x: "page_ok s x" "x \<notin> set ys"
    and ys: "distinct ys" "\<forall>y \<in> set ys. page_ok s y" "flist (phys s) (ldw (phys s) x) ys" "L_kmem \<notin> set (held s)"
    using ok by (auto simp: vm_ok_def kmem_ok_def)
  note pt = with_table_pt [OF wf x d]
  have px: "page_ok s pgdir" "x \<noteq> pgdir" "pgdir \<notin> set ys" using pt_wf_pgdir [OF wf] by auto
  note mem = with_table_mem [OF px(1) x(1) px(2) d(2), where m = "phys s"]
  have "\<forall>y \<in> set ys. page_ok s y \<and> same_page y (phys s) ?m"
    using mem(4) ys(2) x(2) px(3) by auto
  from flist_same_page [OF this] ys(3) have "flist ?m (ldw (phys s) x) ys" by simp
  moreover have "ldw (phys s) x = front ys" using ys(3) by (cases ys) auto
  ultimately have kmem: "kmem_ok (s\<lparr>phys := ?m, freelist := front ys\<rparr>) ys"
    using ys by (simp add: kmem_ok_def)
  show pages: "pt_pages ?m pgdir = insert x (pt_pages (phys s) pgdir)"
  proof -
    have "{d'. has_table ?m pgdir d'} = insert d {d'. has_table (phys s) pgdir d'}" using pt(1) by auto
    moreover have "table ?m pgdir ` {d'. has_table (phys s) pgdir d'}
        = table (phys s) pgdir ` {d'. has_table (phys s) pgdir d'}"
      using pt(3) by (intro image_cong) auto
    ultimately show ?thesis by (auto simp: pt_pages_def pt(2))
  qed
  have tabs: "inj_on (table ?m pgdir) {d. has_table ?m pgdir d}"
    using wf pt(1-3) pt_wf_table(2) [OF wf] d(1) unfolding inj_on_def pt_wf_def by (metis list.set_intros(1) mem_Collect_eq)
  have "\<forall>d. has_table ?m pgdir d \<longrightarrow> table ?m pgdir d \<noteq> pgdir"
    using pt(1-3) px(2) pt_wf_table(3) [OF wf] by metis
  with tabs pages wf x px show "vm_ok (s\<lparr>phys := ?m, freelist := front ys\<rparr>) pgdir ys"
    using kmem by (auto simp: vm_ok_def pt_wf_def)
qed

lemma pte_store:
  fixes w :: u32
  assumes ok: "vm_ok s pgdir xs" and tab: "has_table (phys s) pgdir (n div 1024)"
  defines "m \<equiv> stw (phys s) (table (phys s) pgdir (n div 1024) + 4 * of_nat (n mod 1024)) w"
  shows "vm_ok (s\<lparr>phys := m\<rparr>) pgdir xs" "pte_ix m pgdir n = w"
    "n' \<noteq> n \<Longrightarrow> pte_ix m pgdir n' = pte_ix (phys s) pgdir n'"
    "pt_pages m pgdir = pt_pages (phys s) pgdir"
    "page_ok s v \<Longrightarrow> v \<notin> pt_pages (phys s) pgdir \<Longrightarrow> same_page v (phys s) m"
proof -
  have wf: "pt_wf s pgdir xs" using ok by (simp add: vm_ok_def)
  let ?t = "table (phys s) pgdir (n div 1024)"
  note t = pt_wf_table [OF wf tab]
  have px: "page_ok s pgdir" using pt_wf_pgdir [OF wf] by simp
  have same: "same_page v (phys s) m" if "page_ok s v" "v \<noteq> ?t" for v
    unfolding m_def using same_pageI [OF same_outside_entry [OF t(1)] t(1) that(1)] that(2) by simp
  have "pde_ix m pgdir d = pde_ix (phys s) pgdir d" if "d < 1024" for d
    using same_page_ldw [OF same [OF px] px that] t(3) by (auto simp: pde_ix_def)
  then have tabs: "has_table m pgdir = has_table (phys s) pgdir"
    and tbl: "d < 1024 \<Longrightarrow> table m pgdir d = table (phys s) pgdir d" for d
    by (auto simp: has_table_def table_def fun_eq_iff)
  show pages: "pt_pages m pgdir = pt_pages (phys s) pgdir"
  proof -
    have "table m pgdir ` {d. has_table (phys s) pgdir d} = table (phys s) pgdir ` {d. has_table (phys s) pgdir d}"
      using tbl has_table_less by (intro image_cong) auto
    then show ?thesis by (simp add: pt_pages_def tabs)
  qed
  show "pte_ix m pgdir n = w"
    using tab tabs tbl [OF has_table_less [OF tab]] by (simp add: pte_ix_def m_def)
  show "page_ok s v \<Longrightarrow> v \<notin> pt_pages (phys s) pgdir \<Longrightarrow> same_page v (phys s) m"
    using same tab by (auto simp: pt_pages_def)
  show "pte_ix m pgdir n' = pte_ix (phys s) pgdir n'" if "n' \<noteq> n"
  proof (cases "has_table (phys s) pgdir (n' div 1024)")
    case True
    note t' = pt_wf_table(1) [OF wf True]
    have "table (phys s) pgdir (n' div 1024) \<noteq> ?t \<or> n' mod 1024 \<noteq> n mod 1024"
    proof (cases "n' div 1024 = n div 1024")
      case True
      with that show ?thesis by (metis mult_div_mod_eq)
    next
      case False
      with wf tab \<open>has_table (phys s) pgdir (n' div 1024)\<close> show ?thesis
        by (auto simp: pt_wf_def inj_on_def)
    qed
    with True t(1) t' tabs tbl has_table_less [OF True] show ?thesis
      by (simp add: pte_ix_def m_def ldw_stw_entry)
  qed (simp add: pte_ix_def tabs)
  have "\<forall>x \<in> set xs. page_ok s x \<and> same_page x (phys s) m"
    using same ok t(2) by (auto simp: vm_ok_def kmem_ok_def)
  from flist_same_page [OF this] have "kmem_ok (s\<lparr>phys := m\<rparr>) xs"
    using ok by (simp add: vm_ok_def kmem_ok_def)
  moreover have "pt_wf (s\<lparr>phys := m\<rparr>) pgdir xs"
    using wf pages tabs tbl has_table_less by (auto simp: pt_wf_def inj_on_def)
  ultimately show "vm_ok (s\<lparr>phys := m\<rparr>) pgdir xs" by (simp add: vm_ok_def)
qed

lemma entry_nonnull: "page_ok s t \<Longrightarrow> k < 1024 \<Longrightarrow> t + 4 * of_nat k \<noteq> 0"
proof
  assume a: "page_ok s t" "k < 1024" "t + 4 * of_nat k = 0"
  then have "unat t + 4 * k = 0" using entry_addr [OF a(1,2)] by simp
  with page_ok_range [OF a(1)] show False by simp
qed

lemma kmst_upd_same: "kmem_ok s xs \<Longrightarrow> s\<lparr>phys := phys s, freelist := front xs\<rparr> = s"
  using flist_head [of s xs] by simp

lemma walk_found:
  "has_table (phys s) pgdir (vpn va div 1024) \<Longrightarrow>
   walkpgdir pgdir va al s = Ret (table (phys s) pgdir (vpn va div 1024) + 4 * of_nat (vpn va mod 1024)) s"
  by (simp add: walkpgdir_def Let_def PDX_ix PTX_ix has_table_def pde_ix_def table_def)

lemma walk_missing:
  "\<not> has_table (phys s) pgdir (vpn va div 1024) \<Longrightarrow> walkpgdir pgdir va False s = Ret 0 s"
  using vpn_less(1) [of va] by (simp add: walkpgdir_def Let_def PDX_ix has_table_def pde_ix_def)

text \<open>What one call may change: pages are taken from the front of the free list for page tables.\<close>

definition vm_grow :: "'z kmst_scheme \<Rightarrow> u32 \<Rightarrow> u32 list \<Rightarrow> mem \<Rightarrow> u32 list \<Rightarrow> bool" where
  "vm_grow s pgdir xs m ys \<longleftrightarrow> vm_ok (s\<lparr>phys := m, freelist := front ys\<rparr>) pgdir ys
     \<and> (\<exists>zs. xs = zs @ ys \<and> length zs \<le> 1 \<and> pt_pages m pgdir = pt_pages (phys s) pgdir \<union> set zs)
     \<and> (\<forall>v. page_ok s v \<and> v \<notin> pt_pages m pgdir \<longrightarrow> same_page v (phys s) m)"

lemma walk_alloc:
  assumes ok: "vm_ok s pgdir xs"
  shows "xs = [] \<and> walkpgdir pgdir va True s = Ret 0 s \<and> \<not> has_table (phys s) pgdir (vpn va div 1024) \<or>
    (\<exists>m ys. walkpgdir pgdir va True s = Ret (table m pgdir (vpn va div 1024) + 4 * of_nat (vpn va mod 1024))
         (s\<lparr>phys := m, freelist := front ys\<rparr>) \<and> vm_grow s pgdir xs m ys
       \<and> has_table m pgdir (vpn va div 1024) \<and> (\<forall>n. pte_ix m pgdir n = pte_ix (phys s) pgdir n))"
proof (cases "has_table (phys s) pgdir (vpn va div 1024)")
  case True
  have same: "s\<lparr>phys := phys s, freelist := front xs\<rparr> = s"
    using ok by (intro kmst_upd_same) (simp add: vm_ok_def)
  then have "vm_grow s pgdir xs (phys s) xs"
    using ok by (auto simp: vm_grow_def same_page_def)
  with walk_found [OF True, of True] True same show ?thesis by (intro disjI2 exI [of _ "phys s"] exI [of _ xs]) simp
next
  case False
  note d = vpn_less(1) [of va]
  have kmem: "kmem_ok s xs" and lock: "L_kmem \<notin> set (held s)" using ok by (simp_all add: vm_ok_def kmem_ok_def)
  show ?thesis
  proof (cases xs)
    case Nil
    with False kalloc_ok [OF kmem] kmst_upd_same [OF kmem] d show ?thesis
      by (simp add: walkpgdir_def Let_def PDX_ix has_table_def pde_ix_def)
  next
    case (Cons x ys)
    let ?d = "vpn va div 1024"
    let ?m = "with_table (phys s) pgdir ?d x"
    have x: "page_ok s x" "x \<notin> set ys" and wf: "pt_wf s pgdir (x # ys)"
      using ok Cons by (auto simp: vm_ok_def kmem_ok_def)
    note grown = vm_ok_with_table [OF ok [unfolded Cons] False d]
    have px: "page_ok s pgdir" "x \<noteq> pgdir" using pt_wf_pgdir [OF wf] by auto
    have "walkpgdir pgdir va True s = Ret (x + 4 * of_nat (vpn va mod 1024)) (s\<lparr>phys := ?m, freelist := front ys\<rparr>)"
      using False d kalloc_ok [OF kmem] Cons page_ok_nonnull [OF x(1)]
      by (simp add: walkpgdir_def Let_def PDX_ix PTX_ix has_table_def pde_ix_def with_table_def PGSIZE_def
          PTE_P_def PTE_W_def PTE_U_def kmst_order or.assoc)
    moreover have "vm_grow s pgdir xs ?m ys"
      unfolding vm_grow_def
      using grown with_table_mem(4) [OF px(1) x(1) px(2) d, where m = "phys s"] Cons
      by (auto intro!: exI [of _ "[x]"] simp: pt_pages_def)
    ultimately show ?thesis
      using with_table_pt [OF wf x False d] by (intro disjI2 exI [of _ ?m] exI [of _ ys]) simp
  qed
qed

lemma PGROUNDDOWN_unat: "unat (PGROUNDDOWN a) = unat a - unat a mod 4096"
  using unat_and_high [of a] by (simp add: PGROUNDDOWN_def PGSIZE_def)

lemma PGROUNDDOWN_aligned: "unat a mod 4096 = 0 \<Longrightarrow> PGROUNDDOWN a = a"
  by (simp add: word_unat_eq_iff PGROUNDDOWN_unat)

lemma one_page_steps:
  assumes "unat a mod 4096 = 0"
  shows "map_steps (PGROUNDDOWN a) (PGROUNDDOWN (a + PGSIZE - 1)) pa = [(a, pa)]"
proof -
  obtain k where k: "unat a = 4096 * k" using assms by (auto elim: dvdE simp: dvd_eq_mod_eq_0)
  then have "k < 1048576" using unat_u32_less [of a] by simp
  then have "unat (4095 + a) = 4096 * k + 4095"
    using k unat_add_lem [of 4095 a] by simp
  then have "PGROUNDDOWN (a + PGSIZE - 1) = a"
    using k by (simp add: word_unat_eq_iff PGROUNDDOWN_unat PGSIZE_def)
  then show ?thesis using PGROUNDDOWN_aligned [OF assms] by (simp add: map_steps_def)
qed

lemma mappages_one:
  "unat a mod 4096 = 0 \<Longrightarrow> mappages pgdir a PGSIZE pa perm = mappages_loop pgdir perm [(a, pa)]"
  by (simp add: mappages_def one_page_steps del: mappages_loop.simps)

lemma mappages_remap:
  assumes "vm_ok s pgdir xs" "pte_ix (phys s) pgdir (vpn a) AND PTE_P \<noteq> 0"
  shows "mappages_loop pgdir perm ((a, pa) # r) s = Panic ''remap''"
proof -
  have tab: "has_table (phys s) pgdir (vpn a div 1024)"
    using assms(2) by (auto simp: pte_ix_def split: if_splits)
  have "page_ok s (table (phys s) pgdir (vpn a div 1024))"
    using pt_wf_table(1) tab assms(1) by (auto simp: vm_ok_def)
  from entry_nonnull [OF this, of "vpn a mod 1024"] walk_found [OF tab] assms(2) tab show ?thesis
    by (simp add: pte_ix_def)
qed

lemma map_page:
  assumes ok: "vm_ok s pgdir xs" and fresh: "pte_ix (phys s) pgdir (vpn a) AND PTE_P = 0"
  shows "xs = [] \<and> mappages_loop pgdir perm [(a, pa)] s = Ret (- 1) s \<or>
    (\<exists>m ys. mappages_loop pgdir perm [(a, pa)] s = Ret 0 (s\<lparr>phys := m, freelist := front ys\<rparr>)
       \<and> vm_grow s pgdir xs m ys \<and> pte_ix m pgdir (vpn a) = pa OR perm OR PTE_P
       \<and> (\<forall>n. n \<noteq> vpn a \<longrightarrow> pte_ix m pgdir n = pte_ix (phys s) pgdir n))"
  using walk_alloc [OF ok, of a]
proof (elim disjE)
  assume "xs = [] \<and> walkpgdir pgdir a True s = Ret 0 s \<and> \<not> has_table (phys s) pgdir (vpn a div 1024)"
  then show ?thesis by simp
next
  assume "\<exists>m ys. walkpgdir pgdir a True s = Ret (table m pgdir (vpn a div 1024) + 4 * of_nat (vpn a mod 1024))
         (s\<lparr>phys := m, freelist := front ys\<rparr>) \<and> vm_grow s pgdir xs m ys
       \<and> has_table m pgdir (vpn a div 1024) \<and> (\<forall>n. pte_ix m pgdir n = pte_ix (phys s) pgdir n)"
  then obtain m1 ys where
    walk: "walkpgdir pgdir a True s = Ret (table m1 pgdir (vpn a div 1024) + 4 * of_nat (vpn a mod 1024))
         (s\<lparr>phys := m1, freelist := front ys\<rparr>)"
    and grow: "vm_grow s pgdir xs m1 ys" and tab: "has_table m1 pgdir (vpn a div 1024)"
    and ptes: "\<forall>n. pte_ix m1 pgdir n = pte_ix (phys s) pgdir n"
    by blast
  let ?t = "s\<lparr>phys := m1, freelist := front ys\<rparr>" and ?e = "table m1 pgdir (vpn a div 1024) + 4 * of_nat (vpn a mod 1024)"
  let ?m = "stw m1 ?e (pa OR perm OR PTE_P)"
  have ok1: "vm_ok ?t pgdir ys" using grow by (simp add: vm_grow_def)
  have "page_ok ?t (table m1 pgdir (vpn a div 1024))"
    using pt_wf_table(1) [of ?t pgdir ys] tab ok1 by (simp add: vm_ok_def)
  then have nonnull: "?e \<noteq> 0" by (rule entry_nonnull) simp
  note st = pte_store [OF ok1, of "vpn a", simplified, OF tab, where w = "pa OR perm OR PTE_P"]
  have "pte_ix m1 pgdir (vpn a) AND PTE_P = 0" using fresh ptes by simp
  then have "ldw m1 ?e AND PTE_P = 0" using tab by (simp add: pte_ix_def)
  with walk nonnull have run: "mappages_loop pgdir perm [(a, pa)] s = Ret 0 (s\<lparr>phys := ?m, freelist := front ys\<rparr>)"
    by (simp add: kmst_order)
  have "vm_grow s pgdir xs ?m ys"
    using grow st(1,4,5) unfolding vm_grow_def by (auto simp: kmst_order intro: same_page_trans)
  with run st(2,3) ptes show ?thesis by (intro disjI2 exI [of _ ?m] exI [of _ ys]) auto
qed

text \<open>
  C7. Mapping one page. On a well-formed page directory, \<^verbatim>\<open>mappages\<close> of a page that is already
  mapped panics; otherwise it either fails, and then the free list was empty and nothing
  changed, or the entry of that page is exactly the given frame and permissions with
  \<^verbatim>\<open>PTE_P\<close>, every other virtual page keeps its entry, and the directory and the free list
  are well formed again, with at most one page taken for a page table.
\<close>

theorem mappages_page_correct:
  assumes "vm_ok s pgdir xs" and "unat va mod 4096 = 0"
  shows "if pte_of (phys s) pgdir va AND PTE_P \<noteq> 0
    then mappages pgdir va PGSIZE pa perm s = Panic ''remap''
    else mappages pgdir va PGSIZE pa perm s = Ret (- 1) s \<and> xs = []
      \<or> (\<exists>t ys. mappages pgdir va PGSIZE pa perm s = Ret 0 t
           \<and> pte_of (phys t) pgdir va = pa OR perm OR PTE_P
           \<and> (\<forall>va'. vpn va' \<noteq> vpn va \<longrightarrow> pte_of (phys t) pgdir va' = pte_of (phys s) pgdir va')
           \<and> vm_ok t pgdir ys \<and> (ys = xs \<or> (\<exists>x. xs = x # ys)))"
proof (cases "pte_of (phys s) pgdir va AND PTE_P \<noteq> 0")
  case True
  with mappages_remap [OF assms(1)] show ?thesis
    by (simp add: mappages_one [OF assms(2)] pte_of_def del: mappages_loop.simps)
next
  case False
  then have fresh: "pte_ix (phys s) pgdir (vpn va) AND PTE_P = 0" by (simp add: pte_of_def)
  have short: "length zs \<le> 1 \<Longrightarrow> zs = [] \<or> (\<exists>x. zs = [x])" for zs :: "u32 list" by (cases zs) auto
  show ?thesis
    using map_page [OF assms(1) fresh, of perm pa] False short
    unfolding mappages_one [OF assms(2)] vm_grow_def pte_of_def by fastforce
qed

definition demo_vm :: kmst where
  "demo_vm = demo_kmst\<lparr>freelist := 0x80200000\<rparr>"

lemma demo_vm_ok: "vm_ok demo_vm 0x80201000 [0x80200000]"
  by (auto simp: vm_ok_def kmem_ok_def pt_wf_def pt_pages_def has_table_def pde_ix_def demo_vm_def
      demo_kmst_def ldw_def rd32_def page_ok_def PGSIZE_def V2P_def KERNBASE_def PHYSTOP_def)

theorem mappages_page_correct_witness:
  "\<exists>t. mappages 0x80201000 0x3000 PGSIZE 0x300000 PTE_U demo_vm = Ret 0 t
     \<and> pte_of (phys t) 0x80201000 0x3000 = 0x300005"
proof -
  have "pte_of (phys demo_vm) 0x80201000 0x3000 = 0"
    by (simp add: pte_of_def pte_ix_def has_table_def pde_ix_def demo_vm_def demo_kmst_def ldw_def rd32_def)
  moreover have "(0x300000 :: u32) OR PTE_U OR PTE_P = 0x300005" by (simp add: PTE_U_def PTE_P_def)
  ultimately show ?thesis
    using mappages_page_correct [OF demo_vm_ok, of "0x3000" "0x300000" PTE_U] by auto
qed

section \<open>Growing a process\<close>

lemma pt_same:
  assumes "\<forall>v \<in> pt_pages m pgdir. page_ok s v \<and> same_page v m m'"
  shows "has_table m' pgdir = has_table m pgdir"
    and "d < 1024 \<Longrightarrow> table m' pgdir d = table m pgdir d"
    and "pt_pages m' pgdir = pt_pages m pgdir"
    and "pte_ix m' pgdir n = pte_ix m pgdir n"
proof -
  have px: "page_ok s pgdir" "same_page pgdir m m'" using assms by (auto simp: pt_pages_def)
  have pde: "pde_ix m' pgdir d = pde_ix m pgdir d" if "d < 1024" for d
    using same_page_ldw [OF px(2,1) that] by (simp add: pde_ix_def)
  then show tabs: "has_table m' pgdir = has_table m pgdir" by (auto simp: has_table_def fun_eq_iff)
  show tbl: "table m' pgdir d = table m pgdir d" if "d < 1024" for d using pde that by (simp add: table_def)
  have "table m' pgdir ` {d. has_table m pgdir d} = table m pgdir ` {d. has_table m pgdir d}"
    using tbl has_table_less by (intro image_cong) auto
  then show "pt_pages m' pgdir = pt_pages m pgdir" by (simp add: pt_pages_def tabs)
  show "pte_ix m' pgdir n = pte_ix m pgdir n"
  proof (cases "has_table m pgdir (n div 1024)")
    case True
    then have "page_ok s (table m pgdir (n div 1024))" "same_page (table m pgdir (n div 1024)) m m'"
      using assms by (auto simp: pt_pages_def)
    then show ?thesis
      using True tabs tbl [OF has_table_less [OF True]] same_page_ldw [of _ m m' s "n mod 1024"]
      by (simp add: pte_ix_def)
  qed (simp add: pte_ix_def tabs)
qed

text \<open>A page leaves the free list and is filled.\<close>

lemma vm_ok_take:
  assumes ok: "vm_ok s pgdir (x # xs)" and out: "same_outside x (phys s) m"
  shows "vm_ok (s\<lparr>phys := m, freelist := front xs\<rparr>) pgdir xs"
    and "pt_pages m pgdir = pt_pages (phys s) pgdir" "pte_ix m pgdir n = pte_ix (phys s) pgdir n"
proof -
  have x: "page_ok s x" "x \<notin> set xs" and wf: "pt_wf s pgdir (x # xs)"
    and fl: "flist (phys s) (ldw (phys s) x) xs" "distinct xs" "\<forall>y \<in> set xs. page_ok s y" "L_kmem \<notin> set (held s)"
    using ok by (auto simp: vm_ok_def kmem_ok_def)
  have same: "same_page v (phys s) m" if "page_ok s v" "v \<noteq> x" for v
    using same_pageI [OF out x(1) that(1)] that(2) by simp
  have "\<forall>v \<in> pt_pages (phys s) pgdir. page_ok s v \<and> same_page v (phys s) m"
    using wf same by (auto simp: pt_wf_def)
  note pt = pt_same [OF this]
  show "pt_pages m pgdir = pt_pages (phys s) pgdir" "pte_ix m pgdir n = pte_ix (phys s) pgdir n"
    using pt(3,4) by simp_all
  have "\<forall>y \<in> set xs. page_ok s y \<and> same_page y (phys s) m"
    using same fl(3) x(2) by auto
  from flist_same_page [OF this] fl(1) have "flist m (ldw (phys s) x) xs" by simp
  moreover have "ldw (phys s) x = front xs" using fl(1) by (cases xs) auto
  moreover have "pt_wf (s\<lparr>phys := m, freelist := front xs\<rparr>) pgdir xs"
    using wf pt(1-3) has_table_less by (auto simp: pt_wf_def inj_on_def)
  ultimately show "vm_ok (s\<lparr>phys := m, freelist := front xs\<rparr>) pgdir xs"
    using fl by (simp add: vm_ok_def kmem_ok_def)
qed

definition zero_page :: "mem \<Rightarrow> u32 \<Rightarrow> bool" where
  "zero_page m v \<longleftrightarrow> (\<forall>i<4096. m (unat v + i) = 0)"

lemma zero_page_same: "zero_page m v \<Longrightarrow> same_page v m m' \<Longrightarrow> zero_page m' v"
  by (simp add: zero_page_def same_page_def)

lemma zero_page_memset: "zero_page (memset m (unat v) 0 4096) v"
  by (simp add: zero_page_def memset_eq write_bytes_def)

text \<open>
  \<open>user_page m pgdir a v\<close>: virtual page \<open>a\<close> is mapped to frame \<open>v\<close>, present, writable and
  accessible to the user, and the frame is all zero.
\<close>

definition user_page :: "mem \<Rightarrow> u32 \<Rightarrow> u32 \<Rightarrow> u32 \<Rightarrow> bool" where
  "user_page m pgdir a v \<longleftrightarrow> pte_of m pgdir a = V2P v OR (PTE_W OR PTE_U) OR PTE_P \<and> zero_page m v"

lemma unat_PGSIZE: "unat PGSIZE = 4096"
  by (simp add: PGSIZE_def)

lemma allocuvm_step:
  assumes ok: "vm_ok s pgdir xs" and len: "2 \<le> length xs"
    and a: "unat a mod 4096 = 0" "pte_of (phys s) pgdir a AND PTE_P = 0"
  shows "\<exists>m ys v. allocuvm_loop pgdir oldsz newsz (a # as) s
        = allocuvm_loop pgdir oldsz newsz as (s\<lparr>phys := m, freelist := front ys\<rparr>)
     \<and> vm_ok (s\<lparr>phys := m, freelist := front ys\<rparr>) pgdir ys
     \<and> page_ok s v \<and> v \<in> set xs \<and> v \<notin> pt_pages m pgdir \<and> v \<notin> set ys \<and> user_page m pgdir a v
     \<and> (\<forall>n. n \<noteq> vpn a \<longrightarrow> pte_ix m pgdir n = pte_ix (phys s) pgdir n)
     \<and> set ys \<subseteq> set xs \<and> length xs \<le> length ys + 2
     \<and> pt_pages m pgdir \<subseteq> pt_pages (phys s) pgdir \<union> set xs
     \<and> (\<forall>w. page_ok s w \<and> w \<notin> pt_pages (phys s) pgdir \<union> set xs \<longrightarrow> same_page w (phys s) m)"
proof -
  obtain x xs1 where xs: "xs = x # xs1" "xs1 \<noteq> []" using len by (cases xs; cases "tl xs") auto
  let ?m0 = "memset (phys s) (unat x) 0 4096"
  let ?s1 = "s\<lparr>phys := ?m0, freelist := front xs1\<rparr>"
  have kmem: "kmem_ok s xs" and x: "page_ok s x" "x \<notin> set xs1" "x \<notin> pt_pages (phys s) pgdir"
    using ok xs by (auto simp: vm_ok_def kmem_ok_def pt_wf_def)
  note tk = vm_ok_take [OF ok [unfolded xs(1)] same_outside_memset [of x _ 0]]
  have fresh: "pte_ix (phys ?s1) pgdir (vpn a) AND PTE_P = 0" using tk(3) a(2) by (simp add: pte_of_def)
  from map_page [OF tk(1) fresh, of "PTE_W OR PTE_U" "V2P x"] xs(2) obtain m ys where
    m: "mappages_loop pgdir (PTE_W OR PTE_U) [(a, V2P x)] ?s1 = Ret 0 (?s1\<lparr>phys := m, freelist := front ys\<rparr>)"
    and grow: "vm_grow ?s1 pgdir xs1 m ys" and new: "pte_ix m pgdir (vpn a) = V2P x OR (PTE_W OR PTE_U) OR PTE_P"
    and old: "\<forall>n. n \<noteq> vpn a \<longrightarrow> pte_ix m pgdir n = pte_ix ?m0 pgdir n"
    by auto
  then obtain zs where zs: "xs1 = zs @ ys" "length zs \<le> 1" "pt_pages m pgdir = pt_pages (phys s) pgdir \<union> set zs"
    and frame: "\<forall>v. page_ok s v \<and> v \<notin> pt_pages m pgdir \<longrightarrow> same_page v ?m0 m"
    and ok': "vm_ok (s\<lparr>phys := m, freelist := front ys\<rparr>) pgdir ys"
    using tk(2) by (auto simp: vm_grow_def kmst_order)
  have "allocuvm_loop pgdir oldsz newsz (a # as) s
        = allocuvm_loop pgdir oldsz newsz as (s\<lparr>phys := m, freelist := front ys\<rparr>)"
    using kalloc_ok [OF kmem] xs(1) page_ok_nonnull [OF x(1)] m
    by (simp add: mappages_one [OF a(1)] unat_PGSIZE kmst_order del: mappages_loop.simps)
  moreover have "zero_page m x"
    using zero_page_same [OF zero_page_memset] frame x zs by (metis Un_iff append_eq_conv_conj in_set_takeD)
  moreover have "same_page w (phys s) m" if "page_ok s w" "w \<notin> pt_pages (phys s) pgdir \<union> set xs" for w
    using same_page_trans [OF same_pageI [OF same_outside_memset [of x "phys s" 0] x(1) that(1)]] frame zs xs that by auto
  ultimately show ?thesis
    using ok' x zs xs new old tk(3)
    by (intro exI [of _ m] exI [of _ ys] exI [of _ x]) (auto simp: user_page_def pte_of_def)
qed

lemma allocuvm_loop_ok:
  assumes "vm_ok s pgdir xs" "2 * length as \<le> length xs" "distinct (map vpn as)"
    and "\<forall>a \<in> set as. unat a mod 4096 = 0 \<and> pte_of (phys s) pgdir a AND PTE_P = 0"
  shows "\<exists>m ys f. allocuvm_loop pgdir oldsz newsz as s = Ret newsz (s\<lparr>phys := m, freelist := front ys\<rparr>)
     \<and> vm_ok (s\<lparr>phys := m, freelist := front ys\<rparr>) pgdir ys \<and> set ys \<subseteq> set xs
     \<and> inj_on f (set as) \<and> (\<forall>a \<in> set as. f a \<in> set xs - set ys \<and> user_page m pgdir a (f a))
     \<and> (\<forall>n. n \<notin> vpn ` set as \<longrightarrow> pte_ix m pgdir n = pte_ix (phys s) pgdir n)
     \<and> (\<forall>w. page_ok s w \<and> w \<notin> pt_pages (phys s) pgdir \<union> set xs \<longrightarrow> same_page w (phys s) m)"
  using assms
proof (induction as arbitrary: s xs)
  case Nil
  have same: "s\<lparr>phys := phys s, freelist := front xs\<rparr> = s"
    using Nil(1) by (intro kmst_upd_same) (simp add: vm_ok_def)
  show ?case
    by (rule exI [of _ "phys s"], rule exI [of _ xs], rule exI [of _ id])
      (simp only: same Nil(1) allocuvm_loop.simps ret_eq, simp add: same_page_def)
next
  case (Cons a as)
  from Cons.prems(2,4) have "2 \<le> length xs" "unat a mod 4096 = 0" "pte_of (phys s) pgdir a AND PTE_P = 0"
    by simp_all
  from allocuvm_step [OF Cons.prems(1) this, of oldsz newsz as] obtain m1 ys1 v where
    step: "allocuvm_loop pgdir oldsz newsz (a # as) s
        = allocuvm_loop pgdir oldsz newsz as (s\<lparr>phys := m1, freelist := front ys1\<rparr>)"
    and ok1: "vm_ok (s\<lparr>phys := m1, freelist := front ys1\<rparr>) pgdir ys1"
    and v: "page_ok s v" "v \<in> set xs" "v \<notin> pt_pages m1 pgdir" "v \<notin> set ys1" "user_page m1 pgdir a v"
    and old: "\<forall>n. n \<noteq> vpn a \<longrightarrow> pte_ix m1 pgdir n = pte_ix (phys s) pgdir n"
    and sub: "set ys1 \<subseteq> set xs" "length xs \<le> length ys1 + 2" "pt_pages m1 pgdir \<subseteq> pt_pages (phys s) pgdir \<union> set xs"
    and fr: "\<forall>w. page_ok s w \<and> w \<notin> pt_pages (phys s) pgdir \<union> set xs \<longrightarrow> same_page w (phys s) m1"
    by blast
  have "vpn a \<notin> vpn ` set as" using Cons.prems(3) by auto
  then have "\<forall>b \<in> set as. vpn b \<noteq> vpn a" by (metis image_eqI)
  then have fresh: "\<forall>b \<in> set as. unat b mod 4096 = 0 \<and> pte_of m1 pgdir b AND PTE_P = 0"
    using Cons.prems(4) old by (simp add: pte_of_def)
  from Cons.IH [OF ok1] Cons.prems(2,3) sub(2) fresh obtain m ys f where
    run: "allocuvm_loop pgdir oldsz newsz as (s\<lparr>phys := m1, freelist := front ys1\<rparr>) = Ret newsz (s\<lparr>phys := m, freelist := front ys\<rparr>)"
    and ok2: "vm_ok (s\<lparr>phys := m, freelist := front ys\<rparr>) pgdir ys" "set ys \<subseteq> set ys1" and f: "inj_on f (set as)"
      "\<forall>a \<in> set as. f a \<in> set ys1 - set ys \<and> user_page m pgdir a (f a)"
    and old2: "\<forall>n. n \<notin> vpn ` set as \<longrightarrow> pte_ix m pgdir n = pte_ix m1 pgdir n"
    and fr2: "\<forall>w. page_ok s w \<and> w \<notin> pt_pages m1 pgdir \<union> set ys1 \<longrightarrow> same_page w m1 m"
    by (auto simp: kmst_order)
  define g where "g = f(a := v)"
  have g: "g a = v" "\<forall>b \<in> set as. g b = f b"
    using Cons.prems(3) by (auto simp: g_def)
  have "inj_on g (set as)" using f(1) g(2) by (simp cong: inj_on_cong)
  moreover have "g ` set as \<subseteq> set ys1" using f(2) g(2) by auto
  ultimately have "inj_on g (set (a # as))" using g(1) v(4) by auto
  moreover have page: "user_page m pgdir a v"
    using v old2 fr2 \<open>vpn a \<notin> vpn ` set as\<close> zero_page_same by (auto simp: user_page_def pte_of_def)
  moreover have "same_page w (phys s) m" if "page_ok s w" "w \<notin> pt_pages (phys s) pgdir \<union> set xs" for w
    using that fr fr2 sub same_page_trans by blast
  moreover have "\<forall>b \<in> set (a # as). g b \<in> set xs - set ys \<and> user_page m pgdir b (g b)"
    using f(2) g v(2,4) page ok2(2) sub(1) by auto
  moreover have "\<forall>n. n \<notin> vpn ` set (a # as) \<longrightarrow> pte_ix m pgdir n = pte_ix (phys s) pgdir n"
    using old old2 by simp
  moreover have "set ys \<subseteq> set xs" using ok2(2) sub(1) by blast
  ultimately show ?case
    unfolding step run using ok2(1) by blast
qed

lemma uvm_pages_props:
  assumes "unat lo mod 4096 = 0" "unat hi \<le> 0x80000000"
  shows "\<forall>a \<in> set (uvm_pages lo hi). unat a mod 4096 = 0" "distinct (map vpn (uvm_pages lo hi))"
proof -
  let ?n = "(unat hi - unat lo + 4095) div 4096"
  have addr: "unat (lo + of_nat (4096 * k)) = unat lo + 4096 * k" if "k < ?n" for k
  proof -
    have "4096 * k < unat hi - unat lo + 4095" using that by auto
    then have "unat lo + 4096 * k < 4294967296" using assms(2) unat_u32_less [of lo] that
      by (cases "unat lo \<le> unat hi") auto
    moreover then have "unat (of_nat (4096 * k) :: u32) = 4096 * k" unfolding unat_of_nat by simp
    ultimately show ?thesis using unat_add_lem [of lo "of_nat (4096 * k)"] by simp
  qed
  show "\<forall>a \<in> set (uvm_pages lo hi). unat a mod 4096 = 0"
    using addr assms(1) by (auto simp: uvm_pages_def simp del: of_nat_mult)
  have "map vpn (uvm_pages lo hi) = map (\<lambda>k. unat lo div 4096 + k) [0..<?n]"
    using addr by (auto simp: uvm_pages_def vpn_def simp del: of_nat_mult)
  then show "distinct (map vpn (uvm_pages lo hi))" by (simp add: distinct_map inj_on_def)
qed

lemma PGROUNDUP_aligned: "unat (PGROUNDUP sz) mod 4096 = 0"
proof -
  have "PGROUNDUP sz = PGROUNDDOWN (sz + PGSIZE - 1)" by (simp add: PGROUNDUP_def PGROUNDDOWN_def)
  then show ?thesis by (simp add: PGROUNDDOWN_unat mod_eq_0_iff_dvd)
qed

text \<open>
  C2. Growing an address space. On a well-formed page directory, with the new pages not yet
  mapped and two free pages for each of them, \<^verbatim>\<open>allocuvm\<close> succeeds with the new size:
  every page from the rounded-up old size to the new size is mapped present, writable and
  accessible to the user, each to its own zero-filled frame from the free list, every
  other virtual page keeps its entry, and directory and free list stay well formed.
\<close>

theorem allocuvm_correct:
  assumes "vm_ok s pgdir xs" "oldsz \<le> newsz" "newsz < KERNBASE"
    and "2 * length (uvm_pages (PGROUNDUP oldsz) newsz) \<le> length xs"
    and "\<forall>a \<in> set (uvm_pages (PGROUNDUP oldsz) newsz). pte_of (phys s) pgdir a AND PTE_P = 0"
  shows "\<exists>t ys f. allocuvm pgdir oldsz newsz s = Ret newsz t \<and> vm_ok t pgdir ys
    \<and> inj_on f (set (uvm_pages (PGROUNDUP oldsz) newsz))
    \<and> (\<forall>a \<in> set (uvm_pages (PGROUNDUP oldsz) newsz). f a \<in> set xs - set ys \<and> user_page (phys t) pgdir a (f a))
    \<and> (\<forall>va. vpn va \<notin> vpn ` set (uvm_pages (PGROUNDUP oldsz) newsz) \<longrightarrow>
          pte_of (phys t) pgdir va = pte_of (phys s) pgdir va)"
proof -
  let ?as = "uvm_pages (PGROUNDUP oldsz) newsz"
  have "unat newsz \<le> 0x80000000" using assms(3) by (simp add: KERNBASE_def word_less_nat_alt)
  note pages = uvm_pages_props [OF PGROUNDUP_aligned [of oldsz] this]
  have "\<forall>a \<in> set ?as. unat a mod 4096 = 0 \<and> pte_of (phys s) pgdir a AND PTE_P = 0"
    using pages(1) assms(5) by blast
  from allocuvm_loop_ok [OF assms(1,4) pages(2) this, of oldsz newsz] obtain m ys f where
    "allocuvm_loop pgdir oldsz newsz ?as s = Ret newsz (s\<lparr>phys := m, freelist := front ys\<rparr>)"
    "vm_ok (s\<lparr>phys := m, freelist := front ys\<rparr>) pgdir ys" "inj_on f (set ?as)"
    "\<forall>a \<in> set ?as. f a \<in> set xs - set ys \<and> user_page m pgdir a (f a)"
    "\<forall>n. n \<notin> vpn ` set ?as \<longrightarrow> pte_ix m pgdir n = pte_ix (phys s) pgdir n"
    by blast
  moreover have "allocuvm pgdir oldsz newsz s = allocuvm_loop pgdir oldsz newsz ?as s"
    using assms(2,3) by (simp add: allocuvm_def not_le [symmetric])
  ultimately show ?thesis
    by (intro exI [of _ "s\<lparr>phys := m, freelist := front ys\<rparr>"] exI [of _ ys] exI [of _ f])
      (simp add: pte_of_def)
qed

definition demo_vm2 :: kmst where
  "demo_vm2 = demo_kmst\<lparr>freelist := 0x80200000, phys := stw (\<lambda>_. 0) 0x80200000 0x80202000\<rparr>"

lemma demo_vm2_ldw: "ldw (phys demo_vm2) 0x80200000 = 0x80202000"
  "0x80200004 \<le> unat a \<Longrightarrow> ldw (phys demo_vm2) a = 0"
proof -
  have zero: "ldw (\<lambda>_. 0) a = 0" for a by (simp add: ldw_def rd32_def)
  show "ldw (phys demo_vm2) 0x80200000 = 0x80202000" by (simp add: demo_vm2_def)
  show "0x80200004 \<le> unat a \<Longrightarrow> ldw (phys demo_vm2) a = 0"
    by (simp add: demo_vm2_def ldw_stw_other zero)
qed

lemma demo_vm2_ok: "vm_ok demo_vm2 0x80201000 [0x80200000, 0x80202000]"
  and demo_vm2_empty: "\<not> has_table (phys demo_vm2) 0x80201000 d"
proof -
  have ok: "page_ok demo_vm2 v" if "v \<in> {0x80200000, 0x80201000, 0x80202000}" for v
    using that by (auto simp: page_ok_def demo_vm2_def demo_kmst_def PGSIZE_def V2P_def KERNBASE_def PHYSTOP_def)
  show tab: "\<not> has_table (phys demo_vm2) 0x80201000 d" for d
  proof
    assume h: "has_table (phys demo_vm2) 0x80201000 d"
    then have "unat (0x80201000 + 4 * of_nat d :: u32) = 0x80201000 + 4 * d"
      using entry_addr [of demo_vm2 "0x80201000" d] ok has_table_less [OF h] by simp
    then have "pde_ix (phys demo_vm2) 0x80201000 d = 0"
      unfolding pde_ix_def by (intro demo_vm2_ldw(2)) simp
    with h show False by (simp add: has_table_def)
  qed
  have "L_kmem \<notin> set (held demo_vm2)" "freelist demo_vm2 = 0x80200000"
    by (simp_all add: demo_vm2_def demo_kmst_def)
  then show "vm_ok demo_vm2 0x80201000 [0x80200000, 0x80202000]"
    using tab ok demo_vm2_ldw(1) demo_vm2_ldw(2) [of "0x80202000"]
    by (auto simp: vm_ok_def kmem_ok_def pt_wf_def pt_pages_def)
qed

theorem allocuvm_correct_witness:
  "\<exists>t v. allocuvm 0x80201000 0 4096 demo_vm2 = Ret 4096 t \<and> v \<in> {0x80200000, 0x80202000}
     \<and> user_page (phys t) 0x80201000 0 v"
proof -
  have pages: "uvm_pages (PGROUNDUP 0) 4096 = [0]"
    by (simp add: uvm_pages_def PGROUNDUP_def PGSIZE_def)
  have "pte_of (phys demo_vm2) 0x80201000 0 = 0"
    using demo_vm2_empty by (simp add: pte_of_def pte_ix_def)
  with allocuvm_correct [OF demo_vm2_ok, of 0 4096] pages show ?thesis
    by (auto simp: KERNBASE_def)
qed

end
