(* ===== verification/Bio.thy ===== *)
theory Bio
  imports Vm
begin

text \<open>
  bio.c over memide.c: the buffer cache. A buffer is named by its index in \<^verbatim>\<open>bcache.buf\<close>;
  the doubly linked list through \<^verbatim>\<open>bcache.head\<close> is the list \<open>lru\<close> of indices, most recently
  used first. The disk is memide.c's array of 512-byte blocks, written and read at once;
  \<open>dwrites\<close> records the block writes in the order the disk has seen them, so that crashes
  between two writes can be talked about. Block and device numbers are natural numbers.
\<close>

definition BSIZE :: nat where "BSIZE = 512"

record buf =
  b_valid :: bool
  b_dirty :: bool
  b_dev :: nat
  b_blockno :: nat
  b_refcnt :: int
  b_data :: "byte list"

record bst = kmst +
  bufs :: "buf list"
  lru :: "nat list"
  disk :: "nat \<Rightarrow> byte list"
  disksize :: nat
  dwrites :: "(nat \<times> byte list) list"

definition upd_buf :: "nat \<Rightarrow> (buf \<Rightarrow> buf) \<Rightarrow> ('z bst_scheme, unit) kop" where
  "upd_buf i f = modify (\<lambda>s. s\<lparr>bufs := upd_at i f (bufs s)\<rparr>)"

definition buf_at :: "nat \<Rightarrow> 'z bst_scheme \<Rightarrow> buf" where
  "buf_at i s = bufs s ! i"

section \<open>memide.c\<close>

definition iderw :: "nat \<Rightarrow> ('z bst_scheme, unit) kop" where
  "iderw i =
     bindK (holdingsleep (SL_buf i)) (\<lambda>h.
     seqK (panic_if (\<not> h) ''iderw: buf not locked'')
     (bindK (gets (buf_at i)) (\<lambda>b.
     seqK (panic_if (b_valid b \<and> \<not> b_dirty b) ''iderw: nothing to do'')
     (seqK (panic_if (b_dev b \<noteq> 1) ''iderw: request not for disk 1'')
     (seqK (bindK (gets disksize) (\<lambda>n. panic_if (b_blockno b \<ge> n) ''iderw: block out of range''))
     (seqK (if b_dirty b then
              seqK (upd_buf i (\<lambda>b. b\<lparr>b_dirty := False\<rparr>))
              (modify (\<lambda>s. s\<lparr>disk := (disk s)(b_blockno b := b_data b),
                              dwrites := dwrites s @ [(b_blockno b, b_data b)]\<rparr>))
            else bindK (gets disk) (\<lambda>d. upd_buf i (\<lambda>x. x\<lparr>b_data := d (b_blockno b)\<rparr>)))
     (upd_buf i (\<lambda>b. b\<lparr>b_valid := True\<rparr>))))))))"

section \<open>bio.c\<close>

text \<open>
  \<^verbatim>\<open>binit\<close> pushes each buffer at the front of the list, so the last one ends up first.
\<close>

definition zero_buf :: buf where
  "zero_buf = \<lparr>b_valid = False, b_dirty = False, b_dev = 0, b_blockno = 0, b_refcnt = 0,
     b_data = replicate 512 0\<rparr>"

definition binit :: "('z bst_scheme, unit) kop" where
  "binit =
     seqK (modify (\<lambda>s. s\<lparr>lru := []\<rparr>))
     (forK [0..<NBUF] (\<lambda>i.
        seqK (initsleeplock (SL_buf i)) (modify (\<lambda>s. s\<lparr>lru := i # lru s\<rparr>))))"

definition bget :: "nat \<Rightarrow> nat \<Rightarrow> ('z bst_scheme, nat) kop" where
  "bget dev blockno =
     seqK (acq L_bcache)
     (bindK (gets (\<lambda>s. List.find (\<lambda>i. b_dev (buf_at i s) = dev \<and> b_blockno (buf_at i s) = blockno) (lru s)))
     (\<lambda>hit. case hit of
        Some i \<Rightarrow>
          seqK (upd_buf i (\<lambda>b. b\<lparr>b_refcnt := b_refcnt b + 1\<rparr>))
          (seqK (rel L_bcache)
          (seqK (acquiresleep (SL_buf i))
          (ret i)))
      | None \<Rightarrow>
          bindK (gets (\<lambda>s. List.find (\<lambda>i. b_refcnt (buf_at i s) = 0 \<and> \<not> b_dirty (buf_at i s)) (rev (lru s))))
          (\<lambda>victim. case victim of
             Some i \<Rightarrow>
               seqK (upd_buf i (\<lambda>b. b\<lparr>b_valid := False, b_dirty := False, b_dev := dev,
                       b_blockno := blockno, b_refcnt := 1\<rparr>))
               (seqK (rel L_bcache)
               (seqK (acquiresleep (SL_buf i))
               (ret i)))
           | None \<Rightarrow> panic ''bget: no buffers'')))"

definition bread :: "nat \<Rightarrow> nat \<Rightarrow> ('z bst_scheme, nat) kop" where
  "bread dev blockno =
     bindK (bget dev blockno) (\<lambda>i.
     bindK (gets (buf_at i)) (\<lambda>b.
     seqK (if \<not> b_valid b then iderw i else ret ())
     (ret i)))"

definition bwrite :: "nat \<Rightarrow> ('z bst_scheme, unit) kop" where
  "bwrite i =
     bindK (holdingsleep (SL_buf i)) (\<lambda>h.
     seqK (panic_if (\<not> h) ''bwrite'')
     (seqK (upd_buf i (\<lambda>b. b\<lparr>b_dirty := True\<rparr>))
     (iderw i)))"

definition brelse :: "nat \<Rightarrow> ('z bst_scheme, unit) kop" where
  "brelse i =
     bindK (holdingsleep (SL_buf i)) (\<lambda>h.
     seqK (panic_if (\<not> h) ''brelse'')
     (seqK (releasesleep (SL_buf i))
     (seqK (acq L_bcache)
     (seqK (upd_buf i (\<lambda>b. b\<lparr>b_refcnt := b_refcnt b - 1\<rparr>))
     (seqK (bindK (gets (\<lambda>s. b_refcnt (buf_at i s))) (\<lambda>r.
        if r = 0 then modify (\<lambda>s. s\<lparr>lru := i # remove1 i (lru s)\<rparr>) else ret ()))
     (rel L_bcache))))))"

section \<open>The cache seen as blocks\<close>

text \<open>
  \<open>cached s b i\<close>: buffer \<open>i\<close> is assigned to block \<open>b\<close> of disk 1. \<open>bview s b\<close> is what a
  reader of block \<open>b\<close> sees: the cached copy where there is a valid one, else the disk.

  \<open>bc_st s D H\<close> describes a cache used by one process at a time: \<open>H\<close> is the set of blocks
  the running process has locked, \<open>D\<close> the set of blocks that are dirty. Every other cached
  copy is unlocked, unreferenced and equal to the disk.
\<close>

definition cached :: "'z bst_scheme \<Rightarrow> nat \<Rightarrow> nat \<Rightarrow> bool" where
  "cached s b i \<longleftrightarrow> i < length (bufs s) \<and> b_dev (bufs s ! i) = 1 \<and> b_blockno (bufs s ! i) = b"

definition bview :: "'z bst_scheme \<Rightarrow> nat \<Rightarrow> byte list" where
  "bview s b = (case List.find (\<lambda>i. cached s b i \<and> b_valid (bufs s ! i)) [0..<length (bufs s)] of
     Some i \<Rightarrow> b_data (bufs s ! i) | None \<Rightarrow> disk s b)"

definition quiet :: "'z kst_scheme \<Rightarrow> bool" where
  "quiet s \<longleftrightarrow> L_bcache \<notin> set (held s) \<and> L_ptable \<notin> set (held s)
     \<and> (\<forall>i. L_sleep i \<notin> set (held s)) \<and> cur s \<noteq> None \<and> the (cur s) < length (procs s)"

definition curpid :: "'z kst_scheme \<Rightarrow> int" where
  "curpid s = p_pid (proc_at (the (cur s)) s)"

definition bc_st :: "'z bst_scheme \<Rightarrow> nat set \<Rightarrow> nat set \<Rightarrow> bool" where
  "bc_st s D H \<longleftrightarrow> quiet s \<and> distinct (lru s) \<and> set (lru s) = {..<length (bufs s)}
     \<and> (\<forall>i j b. cached s b i \<and> cached s b j \<longrightarrow> i = j)
     \<and> (\<forall>b \<in> D \<union> H. b < disksize s \<and> (\<exists>i. cached s b i \<and> b_valid (bufs s ! i)))
     \<and> (\<forall>i<length (bufs s). b_dirty (bufs s ! i) \<longleftrightarrow> (\<exists>b \<in> D. cached s b i))
     \<and> (\<forall>i<length (bufs s). b_refcnt (bufs s ! i) = (if \<exists>b \<in> H. cached s b i then 1 else 0))
     \<and> (\<forall>i<length (bufs s). sl_locked (slk s (SL_buf i)) \<longleftrightarrow> (\<exists>b \<in> H. cached s b i))
     \<and> (\<forall>i<length (bufs s). (\<exists>b \<in> H. cached s b i) \<longrightarrow> sl_pid (slk s (SL_buf i)) = curpid s)
     \<and> (\<forall>i b. cached s b i \<and> b_valid (bufs s ! i) \<and> b \<notin> D \<union> H \<longrightarrow> b_data (bufs s ! i) = disk s b)"

section \<open>Closed forms\<close>

declare One_nat_def [simp del]

lemma take_bit_num_one [simp]:
  "take_bit_num 1 num.One = Some num.One" "take_bit_num 1 (num.Bit0 m) = None"
  "take_bit_num 1 (num.Bit1 m) = Some num.One"
  by (simp_all add: One_nat_def)

lemma bst_order:
  "s\<lparr>bufs := bs, held := h\<rparr> = s\<lparr>held := h, bufs := bs\<rparr>"
  "s\<lparr>bufs := bs, slk := k\<rparr> = s\<lparr>slk := k, bufs := bs\<rparr>"
  "s\<lparr>bufs := bs, procs := ps\<rparr> = s\<lparr>procs := ps, bufs := bs\<rparr>"
  "s\<lparr>lru := l, bufs := bs\<rparr> = s\<lparr>bufs := bs, lru := l\<rparr>"
  "s\<lparr>lru := l, held := h\<rparr> = s\<lparr>held := h, lru := l\<rparr>"
  "s\<lparr>slk := k, procs := ps\<rparr> = s\<lparr>procs := ps, slk := k\<rparr>"
  "s\<lparr>slk := k, held := h\<rparr> = s\<lparr>held := h, slk := k\<rparr>"
  "s\<lparr>dwrites := w, bufs := bs\<rparr> = s\<lparr>bufs := bs, dwrites := w\<rparr>"
  "s\<lparr>disk := d, bufs := bs\<rparr> = s\<lparr>bufs := bs, disk := d\<rparr>"
  by (cases s; simp)+

lemma upd_buf_eq [simp]: "upd_buf i f s = Ret () (s\<lparr>bufs := upd_at i f (bufs s)\<rparr>)"
  by (simp add: upd_buf_def)

lemma quiet_upd [simp]:
  "quiet (s\<lparr>bufs := bs\<rparr>) = quiet s" "quiet (s\<lparr>slk := k\<rparr>) = quiet s" "quiet (s\<lparr>lru := l\<rparr>) = quiet s"
  "quiet (s\<lparr>disk := d\<rparr>) = quiet s" "quiet (s\<lparr>dwrites := w\<rparr>) = quiet s" "length ps = length (procs s) \<Longrightarrow> quiet (s\<lparr>procs := ps\<rparr>) = quiet s"
  by (simp_all add: quiet_def)

lemma curpid_upd [simp]:
  "curpid (s\<lparr>bufs := bs\<rparr>) = curpid s" "curpid (s\<lparr>slk := k\<rparr>) = curpid s" "curpid (s\<lparr>lru := l\<rparr>) = curpid s"
  "curpid (s\<lparr>disk := d\<rparr>) = curpid s" "curpid (s\<lparr>dwrites := w\<rparr>) = curpid s" "curpid (s\<lparr>held := h\<rparr>) = curpid s"
  by (simp_all add: curpid_def proc_at_def)

lemma holding_quiet:
  "quiet s \<Longrightarrow> holdingsleep (SL_buf i) s = Ret (sl_locked (slk s (SL_buf i)) \<and> sl_pid (slk s (SL_buf i)) = curpid s) s"
  by (auto simp: quiet_def curpid_def holdingsleep_eq)

lemma acquiresleep_quiet:
  "quiet s \<Longrightarrow> \<not> sl_locked (slk s i) \<Longrightarrow>
   acquiresleep i s = Ret () (s\<lparr>slk := (slk s)(i := \<lparr>sl_locked = True, sl_pid = curpid s\<rparr>)\<rparr>)"
  by (cases "slk s i") (auto simp: quiet_def curpid_def acquiresleep_free)

lemma releasesleep_quiet:
  "quiet s \<Longrightarrow> releasesleep i s =
    Ret () (s\<lparr>slk := (slk s)(i := \<lparr>sl_locked = False, sl_pid = 0\<rparr>),
              procs := map (wake_if (Some (Ch_sleep i))) (procs s)\<rparr>)"
  by (cases "slk s i") (simp add: quiet_def releasesleep_eq)

text \<open>The cache lock around a change of one buffer.\<close>

lemma bcache_critical:
  assumes "L_bcache \<notin> set (held s)"
  shows "seqK (upd_buf i f) (seqK (rel L_bcache) k) (s\<lparr>held := L_bcache # held s\<rparr>)
    = k (s\<lparr>bufs := upd_at i f (bufs s)\<rparr>)"
  using assms by (simp add: lock_simps bst_order)

definition bget_pick :: "'z bst_scheme \<Rightarrow> nat \<Rightarrow> nat option" where
  "bget_pick s b = (case List.find (\<lambda>i. b_dev (bufs s ! i) = 1 \<and> b_blockno (bufs s ! i) = b) (lru s) of
     Some i \<Rightarrow> Some i
   | None \<Rightarrow> List.find (\<lambda>i. b_refcnt (bufs s ! i) = 0 \<and> \<not> b_dirty (bufs s ! i)) (rev (lru s)))"

text \<open>The state after \<^verbatim>\<open>bread\<close> has put block \<open>b\<close> into buffer \<open>i\<close> and locked it.\<close>

definition loaded :: "'z bst_scheme \<Rightarrow> nat \<Rightarrow> nat \<Rightarrow> 'z bst_scheme" where
  "loaded s i b = s\<lparr>slk := (slk s)(SL_buf i := \<lparr>sl_locked = True, sl_pid = curpid s\<rparr>),
     bufs := (bufs s)[i := \<lparr>b_valid = True, b_dirty = b_dirty (bufs s ! i), b_dev = 1, b_blockno = b,
        b_refcnt = 1, b_data = if cached s b i \<and> b_valid (bufs s ! i) then b_data (bufs s ! i) else disk s b\<rparr>]\<rparr>"

lemma iderw_read:
  assumes "quiet s" "sl_locked (slk s (SL_buf i))" "sl_pid (slk s (SL_buf i)) = curpid s"
    "\<not> b_valid (bufs s ! i)" "\<not> b_dirty (bufs s ! i)" "b_dev (bufs s ! i) = 1" "b_blockno (bufs s ! i) < disksize s"
  shows "iderw i s = Ret () (s\<lparr>bufs := upd_at i (\<lambda>x. x\<lparr>b_data := disk s (b_blockno (bufs s ! i)), b_valid := True\<rparr>) (bufs s)\<rparr>)"
  using assms by (simp add: iderw_def holding_quiet buf_at_def upd_at_comp comp_def)

lemma iderw_write:
  assumes "quiet s" "sl_locked (slk s (SL_buf i))" "sl_pid (slk s (SL_buf i)) = curpid s"
    "b_dirty (bufs s ! i)" "b_dev (bufs s ! i) = 1" "b_blockno (bufs s ! i) < disksize s"
  shows "iderw i s = Ret () (s\<lparr>bufs := upd_at i (\<lambda>x. x\<lparr>b_dirty := False, b_valid := True\<rparr>) (bufs s),
     disk := (disk s)(b_blockno (bufs s ! i) := b_data (bufs s ! i)),
     dwrites := dwrites s @ [(b_blockno (bufs s ! i), b_data (bufs s ! i))]\<rparr>)"
  using assms by (simp add: iderw_def holding_quiet buf_at_def upd_at_comp comp_def bst_order)

lemma upd_at_const: "(\<And>x. f x = f (xs ! i)) \<Longrightarrow> upd_at i f xs = xs[i := f (xs ! i)]"
  by (rule nth_equalityI) (auto simp: nth_upd_at nth_list_update)

lemma upd_at_eq_update: "i < length xs \<Longrightarrow> upd_at i f xs = xs[i := f (xs ! i)]"
  by (rule nth_equalityI) (auto simp: nth_upd_at nth_list_update)

lemma bread_via_pick:
  assumes q: "quiet s" and pick: "bget_pick s b = Some i" and i: "i < length (bufs s)"
    and free: "\<not> sl_locked (slk s (SL_buf i))" "b_refcnt (bufs s ! i) = 0" and b: "b < disksize s"
    and hit: "cached s b i \<Longrightarrow> i \<in> set (lru s)"
    and dirty: "b_dirty (bufs s ! i) \<Longrightarrow> cached s b i \<and> b_valid (bufs s ! i)"
    and lru: "set (lru s) \<subseteq> {..<length (bufs s)}"
  shows "bread 1 b s = Ret i (loaded s i b)"
proof -
  have lk: "L_bcache \<notin> set (held s)" using q by (simp add: quiet_def)
  show ?thesis
  proof (cases "List.find (\<lambda>i. b_dev (bufs s ! i) = 1 \<and> b_blockno (bufs s ! i) = b) (lru s)")
    case (Some j)
    with pick have [simp]: "j = i" by (simp add: bget_pick_def)
    have c: "b_dev (bufs s ! i) = 1" "b_blockno (bufs s ! i) = b"
      using Some by (auto simp: find_Some_iff)
    define s1 where "s1 = s\<lparr>slk := (slk s)(SL_buf i := \<lparr>sl_locked = True, sl_pid = curpid s\<rparr>),
       bufs := upd_at i (\<lambda>b. b\<lparr>b_refcnt := b_refcnt b + 1\<rparr>) (bufs s)\<rparr>"
    have get: "bget 1 b s = Ret i s1"
      using Some lk q free
      by (simp add: bget_def lock_simps buf_at_def bcache_critical acquiresleep_quiet s1_def bst_order)
    show ?thesis
    proof (cases "b_valid (bufs s ! i)")
      case True
      have "(bufs s ! i)\<lparr>b_refcnt := 1\<rparr> = \<lparr>b_valid = True, b_dirty = b_dirty (bufs s ! i), b_dev = 1,
          b_blockno = b, b_refcnt = 1, b_data = b_data (bufs s ! i)\<rparr>"
        using True c by (cases "bufs s ! i") simp
      with get True c i free show ?thesis
        by (simp add: bread_def s1_def buf_at_def loaded_def cached_def upd_at_eq_update)
    next
      case False
      with dirty have "\<not> b_dirty (bufs s ! i)" by blast
      have eq: "\<lparr>b_valid = True, b_dirty = False, b_dev = 1, b_blockno = b, b_refcnt = 1, b_data = disk s b\<rparr>
          = (bufs s ! i)\<lparr>b_refcnt := 1, b_data := disk s b, b_valid := True\<rparr>"
        using False c \<open>\<not> b_dirty (bufs s ! i)\<close> by (cases "bufs s ! i") simp
      have "iderw i s1 = Ret () (loaded s i b)"
        using False c i free q b \<open>\<not> b_dirty (bufs s ! i)\<close>
        by (subst iderw_read) (simp_all add: s1_def loaded_def upd_at_eq_update eq)
      with get False i show ?thesis by (simp add: bread_def s1_def buf_at_def)
    qed
  next
    case None
    with pick have victim: "List.find (\<lambda>i. b_refcnt (bufs s ! i) = 0 \<and> \<not> b_dirty (bufs s ! i)) (rev (lru s)) = Some i"
      by (simp add: bget_pick_def)
    then have d: "\<not> b_dirty (bufs s ! i)" by (auto simp: find_Some_iff)
    have miss: "\<not> cached s b i"
      using None hit by (auto simp: cached_def find_None_iff)
    define B where "B = (\<lambda>b' :: buf. b'\<lparr>b_valid := False, b_dirty := False, b_dev := 1, b_blockno := b, b_refcnt := 1\<rparr>)"
    define s1 where "s1 = s\<lparr>slk := (slk s)(SL_buf i := \<lparr>sl_locked = True, sl_pid = curpid s\<rparr>),
       bufs := upd_at i B (bufs s)\<rparr>"
    have get: "bget 1 b s = Ret i s1"
      using None victim lk q free
      by (simp add: bget_def lock_simps buf_at_def bcache_critical acquiresleep_quiet s1_def bst_order B_def)
    have eq: "\<lparr>b_valid = True, b_dirty = b_dirty (bufs s ! i), b_dev = 1, b_blockno = b, b_refcnt = 1, b_data = disk s b\<rparr>
          = (B (bufs s ! i))\<lparr>b_data := disk s b, b_valid := True\<rparr>"
      using d by (cases "bufs s ! i") (simp add: B_def)
    have "iderw i s1 = Ret () (loaded s i b)"
      using i q b miss
      by (subst iderw_read) (simp_all add: s1_def loaded_def upd_at_eq_update eq, simp_all add: B_def)
    with get i show ?thesis by (simp add: bread_def s1_def buf_at_def B_def)
  qed
qed

section \<open>Reading, writing and releasing keep the cache coherent\<close>

lemma bc_stD:
  assumes "bc_st s D H"
  shows "quiet s" "distinct (lru s)" "set (lru s) = {..<length (bufs s)}"
    "cached s b i \<Longrightarrow> cached s b j \<Longrightarrow> i = j"
    "b \<in> D \<union> H \<Longrightarrow> b < disksize s" "b \<in> D \<union> H \<Longrightarrow> \<exists>i. cached s b i \<and> b_valid (bufs s ! i)"
    "i < length (bufs s) \<Longrightarrow> b_dirty (bufs s ! i) \<longleftrightarrow> (\<exists>b \<in> D. cached s b i)"
    "i < length (bufs s) \<Longrightarrow> b_refcnt (bufs s ! i) = (if \<exists>b \<in> H. cached s b i then 1 else 0)"
    "i < length (bufs s) \<Longrightarrow> sl_locked (slk s (SL_buf i)) \<longleftrightarrow> (\<exists>b \<in> H. cached s b i)"
    "b \<in> H \<Longrightarrow> cached s b i \<Longrightarrow> sl_pid (slk s (SL_buf i)) = curpid s"
    "cached s b i \<Longrightarrow> b_valid (bufs s ! i) \<Longrightarrow> b \<notin> D \<union> H \<Longrightarrow> b_data (bufs s ! i) = disk s b"
proof -
  note st = assms [unfolded bc_st_def]
  show "quiet s"
    using st by (elim conjE) (meson)
  show "distinct (lru s)"
    using st by (elim conjE) (meson)
  show "set (lru s) = {..<length (bufs s)}"
    using st by (elim conjE) (meson)
  show "cached s b i \<Longrightarrow> cached s b j \<Longrightarrow> i = j"
    using st by (elim conjE) (meson)
  show "b \<in> D \<union> H \<Longrightarrow> b < disksize s"
    using st by (elim conjE) (meson)
  show "b \<in> D \<union> H \<Longrightarrow> \<exists>i. cached s b i \<and> b_valid (bufs s ! i)"
    using st by (elim conjE) (meson)
  show "i < length (bufs s) \<Longrightarrow> b_dirty (bufs s ! i) \<longleftrightarrow> (\<exists>b \<in> D. cached s b i)"
    using st by (elim conjE) (meson)
  show "i < length (bufs s) \<Longrightarrow> b_refcnt (bufs s ! i) = (if \<exists>b \<in> H. cached s b i then 1 else 0)"
    using st by (elim conjE) (meson)
  show "i < length (bufs s) \<Longrightarrow> sl_locked (slk s (SL_buf i)) \<longleftrightarrow> (\<exists>b \<in> H. cached s b i)"
    using st by (elim conjE) (meson)
  show "b \<in> H \<Longrightarrow> cached s b i \<Longrightarrow> sl_pid (slk s (SL_buf i)) = curpid s"
    using st by (elim conjE) (meson cached_def)
  show "cached s b i \<Longrightarrow> b_valid (bufs s ! i) \<Longrightarrow> b \<notin> D \<union> H \<Longrightarrow> b_data (bufs s ! i) = disk s b"
    using st by (elim conjE) (meson)
qed

lemma cached_fun: "cached s b i \<Longrightarrow> cached s c i \<Longrightarrow> b = c"
  by (simp add: cached_def)

lemma cached_less: "cached s b i \<Longrightarrow> i < length (bufs s)"
  by (simp add: cached_def)

lemma bview_eq:
  assumes "\<And>j. cached s b j \<Longrightarrow> b_valid (bufs s ! j) \<Longrightarrow> j = i"
  shows "bview s b = (if cached s b i \<and> b_valid (bufs s ! i) then b_data (bufs s ! i) else disk s b)"
proof (cases "List.find (\<lambda>i. cached s b i \<and> b_valid (bufs s ! i)) [0..<length (bufs s)]")
  case None
  then have "\<not> (cached s b i \<and> b_valid (bufs s ! i))"
    using cached_less [of s b i] by (auto simp: find_None_iff)
  with None show ?thesis by (auto simp: bview_def)
next
  case (Some j)
  then have "cached s b j" "b_valid (bufs s ! j)" by (auto simp: find_Some_iff)
  with assms [OF this] Some show ?thesis by (simp add: bview_def)
qed

lemma bview_cached:
  assumes st: "bc_st s D H" and c: "cached s b i"
  shows "bview s b = (if b_valid (bufs s ! i) then b_data (bufs s ! i) else disk s b)"
proof -
  have "j = i" if "cached s b j" for j by (rule bc_stD(4) [OF st that c])
  from bview_eq [of s b i, OF this] c show ?thesis by simp
qed

lemma bview_uncached: "\<nexists>i. cached s b i \<Longrightarrow> bview s b = disk s b"
  by (subst bview_eq [of s b 0]) auto

lemma bview_clean:
  assumes st: "bc_st s D H" and b: "b \<notin> D \<union> H"
  shows "bview s b = disk s b"
proof (cases "\<exists>i. cached s b i")
  case True
  then obtain i where "cached s b i" by blast
  then show ?thesis using bview_cached [OF st] bc_stD(11) [OF st _ _ b] by auto
qed (rule bview_uncached)

lemma bget_pick_ok:
  assumes st: "bc_st s D H" and b: "b \<notin> H" and fin: "finite D" "finite H"
    and room: "card (D \<union> H) < length (bufs s) \<or> b \<in> D"
  shows "\<exists>i. bget_pick s b = Some i \<and> i < length (bufs s) \<and> (cached s b i \<or> (\<nexists>j. cached s b j))
    \<and> (\<nexists>c. c \<in> H \<and> cached s c i) \<and> (b_dirty (bufs s ! i) \<longrightarrow> cached s b i \<and> b_valid (bufs s ! i))"
proof (cases "List.find (\<lambda>i. b_dev (bufs s ! i) = 1 \<and> b_blockno (bufs s ! i) = b) (lru s)")
  case (Some i)
  then have c: "cached s b i"
    using bc_stD(3) [OF st] by (auto simp: find_Some_iff cached_def)
  moreover have "\<nexists>c. c \<in> H \<and> cached s c i" using cached_fun [OF c] b by blast
  moreover have "b_dirty (bufs s ! i) \<longrightarrow> b_valid (bufs s ! i)"
    using bc_stD(7) [OF st cached_less [OF c]] bc_stD(6) [OF st] bc_stD(4) [OF st c] cached_fun [OF c] by (metis UnI1)
  ultimately show ?thesis using Some cached_less [OF c] by (simp add: bget_pick_def)
next
  case None
  then have none: "\<nexists>j. cached s b j"
    using bc_stD(3) [OF st] by (auto simp: find_None_iff cached_def)
  then have "b \<notin> D" using bc_stD(6) [OF st] by blast
  have "\<exists>i < length (bufs s). \<nexists>c. c \<in> D \<union> H \<and> cached s c i"
  proof (rule ccontr)
    assume "\<not> ?thesis"
    then obtain f where f: "\<forall>i < length (bufs s). f i \<in> D \<union> H \<and> cached s (f i) i" by metis
    have "inj_on f {..<length (bufs s)}"
      using f bc_stD(4) [OF st] by (metis inj_onI lessThan_iff)
    moreover have "f ` {..<length (bufs s)} \<subseteq> D \<union> H" using f by auto
    ultimately have "card {..<length (bufs s)} \<le> card (D \<union> H)"
      using fin by (metis card_inj_on_le finite_Un)
    with room \<open>b \<notin> D\<close> show False by simp
  qed
  then obtain k where k: "k < length (bufs s)" "\<nexists>c. c \<in> D \<union> H \<and> cached s c k" by blast
  then have "b_refcnt (bufs s ! k) = 0" "\<not> b_dirty (bufs s ! k)" "k \<in> set (lru s)"
    using bc_stD(3,7,8) [OF st] by auto
  then have "List.find (\<lambda>i. b_refcnt (bufs s ! i) = 0 \<and> \<not> b_dirty (bufs s ! i)) (rev (lru s)) \<noteq> None"
    by (auto simp: find_None_iff)
  then obtain i where i: "List.find (\<lambda>i. b_refcnt (bufs s ! i) = 0 \<and> \<not> b_dirty (bufs s ! i)) (rev (lru s)) = Some i"
    by blast
  then have "i \<in> set (lru s)" "b_refcnt (bufs s ! i) = 0" "\<not> b_dirty (bufs s ! i)"
    by (auto simp: find_Some_iff) (metis length_rev nth_mem set_rev)
  moreover then have len: "i < length (bufs s)" using bc_stD(3) [OF st] by simp
  moreover have "\<nexists>c. c \<in> H \<and> cached s c i"
    using bc_stD(8) [OF st len] \<open>b_refcnt (bufs s ! i) = 0\<close> by (metis zero_neq_one)
  ultimately show ?thesis
    using None i none by (intro exI [of _ i]) (simp add: bget_pick_def)
qed

lemma cached_loaded:
  "i < length (bufs s) \<Longrightarrow> cached (loaded s i b) c j \<longleftrightarrow> (if j = i then c = b else cached s c j)"
  by (auto simp: cached_def loaded_def)

lemma loaded_simps [simp]:
  "length (bufs (loaded s i b)) = length (bufs s)" "disk (loaded s i b) = disk s"
  "disksize (loaded s i b) = disksize s" "dwrites (loaded s i b) = dwrites s" "lru (loaded s i b) = lru s"
  "quiet (loaded s i b) = quiet s" "curpid (loaded s i b) = curpid s"
  "j \<noteq> i \<Longrightarrow> bufs (loaded s i b) ! j = bufs s ! j"
  "j \<noteq> i \<Longrightarrow> slk (loaded s i b) (SL_buf j) = slk s (SL_buf j)"
  "slk (loaded s i b) (SL_buf i) = \<lparr>sl_locked = True, sl_pid = curpid s\<rparr>"
  by (simp_all add: loaded_def)

lemma loaded_buf:
  assumes "bc_st s D H" "i < length (bufs s)" "cached s b i \<or> (\<nexists>j. cached s b j)"
  shows "bufs (loaded s i b) ! i = \<lparr>b_valid = True, b_dirty = b_dirty (bufs s ! i), b_dev = 1,
    b_blockno = b, b_refcnt = 1, b_data = bview s b\<rparr>"
proof -
  have "(if cached s b i \<and> b_valid (bufs s ! i) then b_data (bufs s ! i) else disk s b) = bview s b"
    using assms(3) bview_cached [OF assms(1), of b i] bview_uncached [of s b] by auto
  with assms(2) show ?thesis by (simp add: loaded_def)
qed

lemma loaded_st:
  assumes st: "bc_st s D H" and i: "i < length (bufs s)" "cached s b i \<or> (\<nexists>j. cached s b j)"
    "\<nexists>c. c \<in> H \<and> cached s c i" "b_dirty (bufs s ! i) \<longrightarrow> cached s b i" and b: "b < disksize s"
  shows "bc_st (loaded s i b) D (insert b H)" "bview (loaded s i b) = bview s"
proof -
  note buf = loaded_buf [OF st i(1,2)]
  have uniq: "\<forall>j c. c = b \<and> cached s c j \<longrightarrow> j = i" using i(2) bc_stD(4) [OF st] by blast
  have D: "b_dirty (bufs s ! i) \<longleftrightarrow> b \<in> D"
    using bc_stD(7) [OF st i(1)] i(2,4) cached_fun bc_stD(6) [OF st] by (metis UnI1)
  have old: "cached s c i \<Longrightarrow> c \<noteq> b \<Longrightarrow> c \<notin> D \<union> H" for c
    using i(3,4) bc_stD(7) [OF st i(1)] cached_fun by blast
  show "bc_st (loaded s i b) D (insert b H)"
    unfolding bc_st_def loaded_simps cached_loaded [OF i(1)]
  proof (intro conjI allI impI ballI)
    show "quiet s" "distinct (lru s)" "set (lru s) = {..<length (bufs s)}" using bc_stD(1-3) [OF st] by simp_all
  next
    fix j k c assume "(if j = i then c = b else cached s c j) \<and> (if k = i then c = b else cached s c k)"
    then show "j = k" using uniq bc_stD(4) [OF st] by (auto split: if_splits)
  next
    fix c assume "c \<in> D \<union> insert b H"
    then show "c < disksize s" using b bc_stD(5) [OF st] by auto
  next
    fix c assume c: "c \<in> D \<union> insert b H"
    show "\<exists>j. (if j = i then c = b else cached s c j) \<and> b_valid (bufs (loaded s i b) ! j)"
    proof (cases "c = b")
      case True
      then show ?thesis using buf by (intro exI [of _ i]) simp
    next
      case False
      then obtain j where j: "cached s c j" "b_valid (bufs s ! j)" using c bc_stD(6) [OF st] by blast
      then have "j \<noteq> i" using old [of c] False c by blast
      with j show ?thesis by (intro exI [of _ j]) simp
    qed
  next
    fix j assume j: "j < length (bufs s)"
    show "b_dirty (bufs (loaded s i b) ! j) \<longleftrightarrow> (\<exists>c \<in> D. if j = i then c = b else cached s c j)"
      using D buf bc_stD(7) [OF st j] by (cases "j = i") auto
    show "b_refcnt (bufs (loaded s i b) ! j) = (if \<exists>c \<in> insert b H. if j = i then c = b else cached s c j then 1 else 0)"
      using buf bc_stD(8) [OF st j] uniq by (cases "j = i") auto
    show "sl_locked (slk (loaded s i b) (SL_buf j)) \<longleftrightarrow> (\<exists>c \<in> insert b H. if j = i then c = b else cached s c j)"
      using bc_stD(9) [OF st j] uniq by (cases "j = i") auto
    show "sl_pid (slk (loaded s i b) (SL_buf j)) = curpid s"
      if "\<exists>c \<in> insert b H. if j = i then c = b else cached s c j"
      using that bc_stD(10) [OF st] uniq by (cases "j = i") auto
  next
    fix j c assume "(if j = i then c = b else cached s c j) \<and> b_valid (bufs (loaded s i b) ! j) \<and> c \<notin> D \<union> insert b H"
    then show "b_data (bufs (loaded s i b) ! j) = disk s c" using bc_stD(11) [OF st] by (cases "j = i") auto
  qed
  show "bview (loaded s i b) = bview s"
  proof
    fix c
    show "bview (loaded s i b) c = bview s c"
    proof (cases "c = b")
      case True
      have "bview (loaded s i b) b = b_data (bufs (loaded s i b) ! i)"
        using uniq buf by (subst bview_eq [of _ _ i]) (auto simp: cached_loaded [OF i(1)] split: if_splits)
      with True buf show ?thesis by simp
    next
      case False
      show ?thesis
      proof (cases "cached s c i")
        case True
        with old False have "bview s c = disk s c" using bview_clean [OF st] by simp
        moreover have "\<nexists>j. cached (loaded s i b) c j"
          using False True bc_stD(4) [OF st] by (auto simp: cached_loaded [OF i(1)])
        ultimately show ?thesis by (simp add: bview_uncached)
      next
        case no: False
        have same: "cached (loaded s i b) c j \<longleftrightarrow> cached s c j" for j
          using False no by (auto simp: cached_loaded [OF i(1)])
        show ?thesis
        proof (cases "\<exists>j. cached s c j")
          case True
          then obtain j where j: "cached s c j" "j \<noteq> i" using no by blast
          have k: "k = j" if "cached s c k" for k by (rule bc_stD(4) [OF st that j(1)])
          have "bview (loaded s i b) c = (if cached (loaded s i b) c j \<and> b_valid (bufs (loaded s i b) ! j)
              then b_data (bufs (loaded s i b) ! j) else disk (loaded s i b) c)"
            by (rule bview_eq, rule k) (simp only: same)
          moreover have "bview s c = (if cached s c j \<and> b_valid (bufs s ! j) then b_data (bufs s ! j) else disk s c)"
            by (rule bview_eq, rule k)
          ultimately show ?thesis using j(2) by (simp add: same)
        qed (simp add: bview_uncached same)
      qed
    qed
  qed
qed

lemma bread_ok:
  assumes st: "bc_st s D H" and b: "b \<notin> H" "b < disksize s" and fin: "finite D" "finite H"
    and room: "card (D \<union> H) < length (bufs s) \<or> b \<in> D"
  shows "\<exists>i. bread 1 b s = Ret i (loaded s i b) \<and> i < length (bufs s)
    \<and> bc_st (loaded s i b) D (insert b H) \<and> bview (loaded s i b) = bview s
    \<and> cached (loaded s i b) b i \<and> b_data (bufs (loaded s i b) ! i) = bview s b"
proof -
  obtain i where i: "bget_pick s b = Some i" "i < length (bufs s)" "cached s b i \<or> (\<nexists>j. cached s b j)"
    "\<nexists>c. c \<in> H \<and> cached s c i" "b_dirty (bufs s ! i) \<longrightarrow> cached s b i \<and> b_valid (bufs s ! i)"
    using bget_pick_ok [OF st b(1) fin room] by blast
  have "\<not> sl_locked (slk s (SL_buf i))" "b_refcnt (bufs s ! i) = 0"
    using i(4) bc_stD(8,9) [OF st i(2)] by auto
  then have "bread 1 b s = Ret i (loaded s i b)"
    using i bc_stD(1,3) [OF st] b(2) by (intro bread_via_pick) auto
  with loaded_st [OF st i(2,3,4) _ b(2)] i loaded_buf [OF st i(2,3)] show ?thesis
    by (auto simp: cached_loaded)
qed

text \<open>What the cache operations leave alone: everything but the cache, the disk and sleepers woken up.\<close>

definition procs_woken :: "proc list \<Rightarrow> proc list \<Rightarrow> bool" where
  "procs_woken ps qs \<longleftrightarrow> list_all2 (\<lambda>p q. q = p \<or> p_state p = SLEEPING \<and> q = p\<lparr>p_state := RUNNABLE\<rparr>) ps qs"

lemma procs_woken_refl [simp]: "procs_woken ps ps"
  by (simp add: procs_woken_def list_all2_refl)

lemma procs_woken_trans: "procs_woken ps qs \<Longrightarrow> procs_woken qs rs \<Longrightarrow> procs_woken ps rs"
  unfolding procs_woken_def list_all2_conv_all_nth by fastforce

lemma procs_woken_wake [simp]: "procs_woken ps (map (wake_if c) ps)"
  by (auto simp: procs_woken_def list_all2_conv_all_nth wake_if_def)

definition bio_frame :: "'z bst_scheme \<Rightarrow> 'z bst_scheme \<Rightarrow> bool" where
  "bio_frame s t \<longleftrightarrow> t = s\<lparr>procs := procs t, slk := slk t, bufs := bufs t, lru := lru t, disk := disk t, dwrites := dwrites t\<rparr>
     \<and> procs_woken (procs s) (procs t) \<and> (\<forall>k. slk t (SL_inode k) = slk s (SL_inode k))
     \<and> length (bufs t) = length (bufs s)"

lemma bio_frame_refl [simp]: "bio_frame s s"
  by (simp add: bio_frame_def)

lemma bio_frame_trans:
  assumes "bio_frame s t" "bio_frame t u"
  shows "bio_frame s u"
proof -
  have t: "t = s\<lparr>procs := procs t, slk := slk t, bufs := bufs t, lru := lru t, disk := disk t, dwrites := dwrites t\<rparr>"
    and u: "u = t\<lparr>procs := procs u, slk := slk u, bufs := bufs u, lru := lru u, disk := disk u, dwrites := dwrites u\<rparr>"
    using assms by (simp_all add: bio_frame_def)
  have "u = s\<lparr>procs := procs u, slk := slk u, bufs := bufs u, lru := lru u, disk := disk u, dwrites := dwrites u\<rparr>"
    by (subst u, subst t) simp
  with assms show ?thesis
    unfolding bio_frame_def using procs_woken_trans by metis
qed

lemma bio_frame_rest:
  assumes "bio_frame s t"
  shows "disksize t = disksize s" "held t = held s" "cur t = cur s" "phys t = phys s" "freelist t = freelist s"
    "initproc t = initproc s" "nextpid t = nextpid s" "ticks t = ticks s"
proof -
  have t: "t = s\<lparr>procs := procs t, slk := slk t, bufs := bufs t, lru := lru t, disk := disk t, dwrites := dwrites t\<rparr>"
    using assms by (simp add: bio_frame_def)
  show "disksize t = disksize s" "held t = held s" "cur t = cur s" "phys t = phys s" "freelist t = freelist s"
    "initproc t = initproc s" "nextpid t = nextpid s" "ticks t = ticks s"
    by (subst t, simp)+
qed

lemma bio_frame_loaded [simp]: "bio_frame s (loaded s i b)"
  by (simp add: bio_frame_def loaded_def)

section \<open>Changing, writing and releasing a locked buffer\<close>

lemma held_buf:
  assumes st: "bc_st s D H" and b: "b \<in> H" and c: "cached s b i"
  shows "b_valid (bufs s ! i)" "b_refcnt (bufs s ! i) = 1" "sl_locked (slk s (SL_buf i))"
    "sl_pid (slk s (SL_buf i)) = curpid s" "b_dirty (bufs s ! i) \<longleftrightarrow> b \<in> D" "bview s b = b_data (bufs s ! i)"
    "b_dev (bufs s ! i) = 1" "b_blockno (bufs s ! i) = b" "b < disksize s" "i < length (bufs s)"
proof -
  note i = cached_less [OF c]
  show v: "b_valid (bufs s ! i)"
    using bc_stD(6) [OF st, of b] bc_stD(4) [OF st _ c] b by auto
  show "b_refcnt (bufs s ! i) = 1" "sl_locked (slk s (SL_buf i))"
    using bc_stD(8,9) [OF st i] b c by auto
  show "sl_pid (slk s (SL_buf i)) = curpid s" by (rule bc_stD(10) [OF st b c])
  show "b_dirty (bufs s ! i) \<longleftrightarrow> b \<in> D" using bc_stD(7) [OF st i] c cached_fun by blast
  show "bview s b = b_data (bufs s ! i)" using bview_cached [OF st c] v by simp
  show "b_dev (bufs s ! i) = 1" "b_blockno (bufs s ! i) = b" "i < length (bufs s)" using c by (auto simp: cached_def)
  show "b < disksize s" using bc_stD(5) [OF st] b by blast
qed

text \<open>The view after a change of one buffer that keeps its block.\<close>

lemma cached_upd:
  "(\<And>x. b_dev (f x) = b_dev x \<and> b_blockno (f x) = b_blockno x) \<Longrightarrow>
   cached (s\<lparr>bufs := upd_at i f (bufs s)\<rparr>) c j \<longleftrightarrow> cached s c j"
  by (auto simp: cached_def nth_upd_at split: if_splits)

lemma bview_upd:
  assumes st: "bc_st s D H" and c: "cached s b i"
    and t: "\<And>c j. cached t c j \<longleftrightarrow> cached s c j" "\<And>j. j \<noteq> i \<Longrightarrow> bufs t ! j = bufs s ! j"
      "\<And>c. c \<noteq> b \<Longrightarrow> disk t c = disk s c" "b_valid (bufs t ! i)"
  shows "bview t = (bview s)(b := b_data (bufs t ! i))"
proof
  fix x
  show "bview t x = ((bview s)(b := b_data (bufs t ! i))) x"
  proof (cases "x = b")
    case True
    have "bview t b = (if cached t b i \<and> b_valid (bufs t ! i) then b_data (bufs t ! i) else disk t b)"
      by (rule bview_eq) (use bc_stD(4) [OF st _ c] t(1) in blast)
    with True c t show ?thesis by simp
  next
    case False
    show ?thesis
    proof (cases "\<exists>j. cached s x j")
      case True
      then obtain j where j: "cached s x j" by blast
      then have "j \<noteq> i" using False cached_fun [OF c] by blast
      have "bview t x = (if cached t x j \<and> b_valid (bufs t ! j) then b_data (bufs t ! j) else disk t x)"
        by (rule bview_eq) (use bc_stD(4) [OF st _ j] t(1) in blast)
      with \<open>j \<noteq> i\<close> t j False bview_cached [OF st j] show ?thesis by simp
    qed (use t False in \<open>simp add: bview_uncached\<close>)
  qed
qed

lemma bc_st_change:
  assumes st: "bc_st s D H" and c: "cached s b i" and b: "b < disksize s"
    and t: "\<And>c j. cached t c j \<longleftrightarrow> cached s c j" "\<And>j. j \<noteq> i \<Longrightarrow> bufs t ! j = bufs s ! j"
      "\<And>c. c \<noteq> b \<Longrightarrow> disk t c = disk s c" "\<And>j. j \<noteq> i \<Longrightarrow> slk t (SL_buf j) = slk s (SL_buf j)"
    and rest: "quiet t" "curpid t = curpid s" "distinct (lru t)" "set (lru t) = set (lru s)"
      "length (bufs t) = length (bufs s)" "disksize t = disksize s"
    and sets: "D' - {b} = D - {b}" "H' - {b} = H - {b}"
    and i: "b_valid (bufs t ! i)" "b_dirty (bufs t ! i) \<longleftrightarrow> b \<in> D'"
      "b_refcnt (bufs t ! i) = (if b \<in> H' then 1 else 0)" "sl_locked (slk t (SL_buf i)) \<longleftrightarrow> b \<in> H'"
      "b \<in> H' \<Longrightarrow> sl_pid (slk t (SL_buf i)) = curpid s" "b \<notin> D' \<union> H' \<Longrightarrow> b_data (bufs t ! i) = disk t b"
  shows "bc_st t D' H'"
  unfolding bc_st_def t(1) rest(2-)
proof (intro conjI allI impI ballI)
  have only: "cached s x i \<Longrightarrow> x = b" for x using cached_fun [OF c] by blast
  have other: "x \<noteq> b \<Longrightarrow> cached s x j \<Longrightarrow> j \<noteq> i" for x j using only by blast
  have inD: "x \<noteq> b \<Longrightarrow> x \<in> D' \<longleftrightarrow> x \<in> D" and inH: "x \<noteq> b \<Longrightarrow> x \<in> H' \<longleftrightarrow> x \<in> H" for x using sets by blast+
  have exD: "j \<noteq> i \<Longrightarrow> (\<exists>x \<in> D'. cached s x j) \<longleftrightarrow> (\<exists>x \<in> D. cached s x j)" 
    and exH: "j \<noteq> i \<Longrightarrow> (\<exists>x \<in> H'. cached s x j) \<longleftrightarrow> (\<exists>x \<in> H. cached s x j)" for j
    using inD inH bc_stD(4) [OF st c] by metis+
  show "quiet t" "distinct (lru t)" by fact+
  show "set (lru s) = {..<length (bufs s)}" by (rule bc_stD(3) [OF st])
  show "j = k" if "cached s x j \<and> cached s x k" for j k x using that bc_stD(4) [OF st] by blast
  show "x < disksize s" if "x \<in> D' \<union> H'" for x
    using that b bc_stD(5) [OF st, of x] inD [of x] inH [of x] by (cases "x = b") auto
  show "\<exists>j. cached s x j \<and> b_valid (bufs t ! j)" if x: "x \<in> D' \<union> H'" for x
  proof (cases "x = b")
    case True
    then show ?thesis using c i(1) by blast
  next
    case False
    then obtain j where "cached s x j" "b_valid (bufs s ! j)"
      using x bc_stD(6) [OF st, of x] inD inH by blast
    with other [OF False] t(2) show ?thesis by metis
  qed
  fix j assume j: "j < length (bufs s)"
  have iD: "(\<exists>x \<in> D'. cached s x i) \<longleftrightarrow> b \<in> D'" and iH: "(\<exists>x \<in> H'. cached s x i) \<longleftrightarrow> b \<in> H'"
    using only c by blast+
  show "b_dirty (bufs t ! j) \<longleftrightarrow> (\<exists>x \<in> D'. cached s x j)"
    using bc_stD(7) [OF st j] exD [of j] i(2) iD t(2) [of j] by (cases "j = i") simp_all
  show "b_refcnt (bufs t ! j) = (if \<exists>x \<in> H'. cached s x j then 1 else 0)"
    using bc_stD(8) [OF st j] exH [of j] i(3) iH t(2) [of j] by (cases "j = i") simp_all
  show "sl_locked (slk t (SL_buf j)) \<longleftrightarrow> (\<exists>x \<in> H'. cached s x j)"
    using bc_stD(9) [OF st j] exH [of j] i(4) iH t(4) [of j] by (cases "j = i") simp_all
  show "sl_pid (slk t (SL_buf j)) = curpid s" if h: "\<exists>x \<in> H'. cached s x j"
  proof (cases "j = i")
    case True
    with h iH i(5) show ?thesis by simp
  next
    case False
    with h exH obtain x where "x \<in> H" "cached s x j" by blast
    with bc_stD(10) [OF st] t(4) [OF False] show ?thesis by simp
  qed
next
  fix j x assume a: "cached s x j \<and> b_valid (bufs t ! j) \<and> x \<notin> D' \<union> H'"
  show "b_data (bufs t ! j) = disk t x"
  proof (cases "j = i")
    case True
    then have "x = b" using a c cached_fun by blast
    with True a i(6) show ?thesis by simp
  next
    case False
    have "x \<noteq> b" using a False bc_stD(4) [OF st c] by blast
    moreover have "x \<notin> D \<union> H" using a sets \<open>x \<noteq> b\<close> by blast
    ultimately show ?thesis
      using a t(2) [OF False] t(3) [of x] bc_stD(11) [OF st, of x j] by simp
  qed
qed

text \<open>Storing into a locked buffer, and marking it dirty.\<close>

lemma bset_ok:
  fixes d :: "byte list"
  assumes st: "bc_st s D H" and b: "b \<in> H" "cached s b i"
  defines "t \<equiv> s\<lparr>bufs := upd_at i (\<lambda>x. x\<lparr>b_data := d\<rparr>) (bufs s)\<rparr>"
  shows "bc_st t D H" "bview t = (bview s)(b := d)" "cached t c j \<longleftrightarrow> cached s c j" "bio_frame s t"
proof -
  note hb = held_buf [OF st b]
  show same: "cached t c j \<longleftrightarrow> cached s c j" for c j unfolding t_def by (rule cached_upd) simp
  show "bc_st t D H"
    by (rule bc_st_change [OF st b(2) hb(9), of t])
      (use bc_stD(1-3) [OF st] hb b same in \<open>auto simp: t_def\<close>)
  have "bview t = (bview s)(b := b_data (bufs t ! i))"
    by (rule bview_upd [OF st b(2)]) (use hb same in \<open>auto simp: t_def\<close>)
  then show "bview t = (bview s)(b := d)" using hb(10) by (simp add: t_def)
  show "bio_frame s t" by (simp add: bio_frame_def t_def)
qed

lemma bdirty_ok:
  assumes st: "bc_st s D H" and b: "b \<in> H" "cached s b i"
  defines "t \<equiv> s\<lparr>bufs := upd_at i (\<lambda>x. x\<lparr>b_dirty := True\<rparr>) (bufs s)\<rparr>"
  shows "bc_st t (insert b D) H" "bview t = bview s" "cached t c j \<longleftrightarrow> cached s c j" "bio_frame s t"
proof -
  note hb = held_buf [OF st b]
  show same: "cached t c j \<longleftrightarrow> cached s c j" for c j unfolding t_def by (rule cached_upd) simp
  show "bc_st t (insert b D) H"
    by (rule bc_st_change [OF st b(2) hb(9), of t])
      (use bc_stD(1-3) [OF st] hb b same in \<open>auto simp: t_def\<close>)
  have "bview t = (bview s)(b := b_data (bufs t ! i))"
    by (rule bview_upd [OF st b(2)]) (use hb same in \<open>auto simp: t_def\<close>)
  then show "bview t = bview s" using hb(6,10) by (simp add: t_def fun_upd_idem)
  show "bio_frame s t" by (simp add: bio_frame_def t_def)
qed

text \<open>\<^verbatim>\<open>bwrite\<close> puts the view of a locked block on the disk.\<close>

lemma bwrite_ok:
  assumes st: "bc_st s D H" and b: "b \<in> H" "cached s b i"
  shows "\<exists>t. bwrite i s = Ret () t \<and> bc_st t (D - {b}) H \<and> bview t = bview s
    \<and> disk t = (disk s)(b := bview s b) \<and> dwrites t = dwrites s @ [(b, bview s b)]
    \<and> (\<forall>c j. cached t c j \<longleftrightarrow> cached s c j) \<and> bio_frame s t"
proof -
  note hb = held_buf [OF st b]
  have q: "quiet s" by (rule bc_stD(1) [OF st])
  define s1 where "s1 = s\<lparr>bufs := upd_at i (\<lambda>x. x\<lparr>b_dirty := True\<rparr>) (bufs s)\<rparr>"
  define t where "t = s\<lparr>bufs := upd_at i (\<lambda>x. x\<lparr>b_dirty := False, b_valid := True\<rparr>) (bufs s),
     disk := (disk s)(b := bview s b), dwrites := dwrites s @ [(b, bview s b)]\<rparr>"
  have "iderw i s1 = Ret () t"
    using hb q by (subst iderw_write) (simp_all add: s1_def t_def upd_at_comp comp_def)
  then have run: "bwrite i s = Ret () t"
    using hb q by (simp add: bwrite_def holding_quiet s1_def)
  have same: "cached t c j \<longleftrightarrow> cached s c j" for c j
    using cached_upd [where f = "\<lambda>x. x\<lparr>b_dirty := False, b_valid := True\<rparr>" and s = s and i = i and c = c and j = j] by (simp add: t_def cached_def)
  have st': "bc_st t (D - {b}) H"
    by (rule bc_st_change [OF st b(2) hb(9), of t])
      (use bc_stD(1-3) [OF st] hb b same in \<open>auto simp: t_def\<close>)
  have "bview t = (bview s)(b := b_data (bufs t ! i))"
    by (rule bview_upd [OF st b(2)]) (use hb same in \<open>auto simp: t_def\<close>)
  then have "bview t = bview s" using hb(6,10) by (simp add: t_def fun_upd_idem)
  moreover have "bio_frame s t" by (simp add: bio_frame_def t_def)
  ultimately show ?thesis using run st' same by (intro exI [of _ t]) (simp add: t_def)
qed

lemma curpid_wake: "cur s \<noteq> None \<Longrightarrow> the (cur s) < length (procs s) \<Longrightarrow>
    curpid (s\<lparr>procs := map (wake_if c) (procs s)\<rparr>) = curpid s"
  by (auto simp: curpid_def proc_at_def wake_if_def)

lemma brelse_ok:
  assumes st: "bc_st s D H" and b: "b \<in> H" "cached s b i" and clean: "b \<in> D \<or> bview s b = disk s b"
  shows "\<exists>t. brelse i s = Ret () t \<and> bc_st t D (H - {b}) \<and> bview t = bview s \<and> disk t = disk s
    \<and> dwrites t = dwrites s \<and> (\<forall>c j. cached t c j \<longleftrightarrow> cached s c j) \<and> bio_frame s t"
proof -
  note hb = held_buf [OF st b]
  have q: "quiet s" by (rule bc_stD(1) [OF st])
  define t where "t = s\<lparr>procs := map (wake_if (Some (Ch_sleep (SL_buf i)))) (procs s),
     slk := (slk s)(SL_buf i := \<lparr>sl_locked = False, sl_pid = 0\<rparr>),
     bufs := upd_at i (\<lambda>x. x\<lparr>b_refcnt := b_refcnt x - 1\<rparr>) (bufs s), lru := i # remove1 i (lru s)\<rparr>"
  have run: "brelse i s = Ret () t"
    using hb q unfolding brelse_def t_def
    by (simp add: holding_quiet releasesleep_quiet buf_at_def lock_simps quiet_def bst_order)
  have cp: "curpid t = curpid s"
    using q curpid_wake [of s] by (simp add: t_def quiet_def curpid_def proc_at_def)
  have same: "cached t c j \<longleftrightarrow> cached s c j" for c j
    using cached_upd [where f = "\<lambda>x. x\<lparr>b_refcnt := b_refcnt x - 1\<rparr>" and s = s and i = i and c = c and j = j] by (simp add: t_def cached_def)
  have lru: "i \<in> set (lru s)" "distinct (lru s)" using bc_stD(2,3) [OF st] hb(10) by auto
  then have "set (i # remove1 i (lru s)) = set (lru s)" by (auto simp: set_remove1_eq)
  then have st': "bc_st t D (H - {b})"
    by (intro bc_st_change [OF st b(2) hb(9), of t])
      (use q lru hb b same clean cp in \<open>auto simp: t_def\<close>)
  have "bview t = (bview s)(b := b_data (bufs t ! i))"
    by (rule bview_upd [OF st b(2)]) (use hb same in \<open>auto simp: t_def\<close>)
  then have "bview t = bview s" using hb(6,10) by (simp add: t_def fun_upd_idem)
  moreover have "bio_frame s t" by (simp add: bio_frame_def t_def)
  ultimately show ?thesis using run st' same by (intro exI [of _ t]) (simp add: t_def)
qed

section \<open>The interface of the block cache\<close>

text \<open>
  What log.c and fs.c use of bio.c: blocks are read into a locked buffer, changed there,
  written through or left dirty, and released. The laws speak of the view of all blocks,
  the disk, the history of disk writes, and the sets of dirty and of locked blocks.
\<close>

locale block_cache =
  fixes bst_ok :: "'s \<Rightarrow> nat set \<Rightarrow> nat set \<Rightarrow> bool"
    and view :: "'s \<Rightarrow> nat \<Rightarrow> byte list" and dsk :: "'s \<Rightarrow> nat \<Rightarrow> byte list"
    and hist :: "'s \<Rightarrow> (nat \<times> byte list) list" and nblocks :: "'s \<Rightarrow> nat" and nbufs :: "'s \<Rightarrow> nat"
    and isbuf :: "'s \<Rightarrow> nat \<Rightarrow> nat \<Rightarrow> bool" and content :: "'s \<Rightarrow> nat \<Rightarrow> byte list"
    and frame :: "'s \<Rightarrow> 's \<Rightarrow> bool"
    and rd :: "nat \<Rightarrow> ('s, nat) kop" and store :: "nat \<Rightarrow> byte list \<Rightarrow> ('s, unit) kop"
    and wr :: "nat \<Rightarrow> ('s, unit) kop" and put :: "nat \<Rightarrow> ('s, unit) kop"
  assumes rd_law: "bst_ok s D H \<Longrightarrow> finite D \<Longrightarrow> finite H \<Longrightarrow> b \<notin> H \<Longrightarrow> b < nblocks s \<Longrightarrow>
      card (D \<union> H) < nbufs s \<or> b \<in> D \<Longrightarrow>
      \<exists>i t. rd b s = Ret i t \<and> bst_ok t D (insert b H) \<and> view t = view s \<and> dsk t = dsk s \<and> hist t = hist s
        \<and> isbuf t b i \<and> content t i = view s b \<and> (\<forall>c j. c \<in> H \<and> isbuf s c j \<longrightarrow> isbuf t c j) \<and> frame s t"
    and store_law: "bst_ok s D H \<Longrightarrow> b \<in> H \<Longrightarrow> isbuf s b i \<Longrightarrow>
      \<exists>t. store i d s = Ret () t \<and> bst_ok t D H \<and> view t = (view s)(b := d) \<and> dsk t = dsk s \<and> hist t = hist s
        \<and> (\<forall>c j. isbuf t c j \<longleftrightarrow> isbuf s c j) \<and> frame s t"
    and wr_law: "bst_ok s D H \<Longrightarrow> b \<in> H \<Longrightarrow> isbuf s b i \<Longrightarrow>
      \<exists>t. wr i s = Ret () t \<and> bst_ok t (D - {b}) H \<and> view t = view s \<and> dsk t = (dsk s)(b := view s b)
        \<and> hist t = hist s @ [(b, view s b)] \<and> (\<forall>c j. isbuf t c j \<longleftrightarrow> isbuf s c j) \<and> frame s t"
    and put_law: "bst_ok s D H \<Longrightarrow> b \<in> H \<Longrightarrow> isbuf s b i \<Longrightarrow> b \<in> D \<or> view s b = dsk s b \<Longrightarrow>
      \<exists>t. put i s = Ret () t \<and> bst_ok t D (H - {b}) \<and> view t = view s \<and> dsk t = dsk s \<and> hist t = hist s
        \<and> (\<forall>c j. isbuf t c j \<longleftrightarrow> isbuf s c j) \<and> frame s t"
    and content_law: "bst_ok s D H \<Longrightarrow> b \<in> H \<Longrightarrow> isbuf s b i \<Longrightarrow> content s i = view s b"
    and clean_law: "bst_ok s D H \<Longrightarrow> b \<notin> D \<union> H \<Longrightarrow> view s b = dsk s b"
    and bound_law: "bst_ok s D H \<Longrightarrow> b \<in> D \<union> H \<Longrightarrow> b < nblocks s"
    and frame_sizes: "frame s t \<Longrightarrow> nblocks t = nblocks s \<and> nbufs t = nbufs s"
    and frame_trans: "frame s t \<Longrightarrow> frame t u \<Longrightarrow> frame s u"
begin

text \<open>Reading one block, transforming it and writing it through.\<close>

lemma rewrite_block:
  assumes st: "bst_ok s D {}" and fin: "finite D" and b: "b < nblocks s" "card D < nbufs s \<or> b \<in> D"
  shows "\<exists>t. bindK (rd b) (\<lambda>i. bindK (gets (\<lambda>s. content s i)) (\<lambda>x.
             seqK (store i (f x)) (seqK (wr i) (put i)))) s = Ret () t
     \<and> bst_ok t (D - {b}) {} \<and> view t = (view s)(b := f (view s b)) \<and> dsk t = (dsk s)(b := f (view s b))
     \<and> hist t = hist s @ [(b, f (view s b))] \<and> frame s t"
proof -
  obtain i s1 where s1: "rd b s = Ret i s1" "bst_ok s1 D {b}" "view s1 = view s" "dsk s1 = dsk s"
    "hist s1 = hist s" "isbuf s1 b i" "content s1 i = view s b" "frame s s1"
    using rd_law [OF st fin _ _ b(1)] b(2) by auto
  obtain s2 where s2: "store i (f (view s b)) s1 = Ret () s2" "bst_ok s2 D {b}"
    "view s2 = (view s1)(b := f (view s b))" "dsk s2 = dsk s1" "hist s2 = hist s1" "isbuf s2 b i" "frame s1 s2"
    using store_law [OF s1(2) _ s1(6)] s1(6) by blast
  obtain s3 where s3: "wr i s2 = Ret () s3" "bst_ok s3 (D - {b}) {b}" "view s3 = view s2"
    "dsk s3 = (dsk s2)(b := view s2 b)" "hist s3 = hist s2 @ [(b, view s2 b)]" "isbuf s3 b i" "frame s2 s3"
    using wr_law [OF s2(2) _ s2(6)] s2(6) by blast
  have "view s3 b = dsk s3 b" using s3 by simp
  then obtain t where t: "put i s3 = Ret () t" "bst_ok t (D - {b}) ({b} - {b})" "view t = view s3" "dsk t = dsk s3"
    "hist t = hist s3" "frame s3 t"
    using put_law [OF s3(2) _ s3(6)] by blast
  have "frame s t" using frame_trans s1(8) s2(7) s3(7) t(6) by blast
  then show ?thesis
    using s1(1-5,7) s2(1,3-5) s3(1,3-5) t(1-5) by (intro exI [of _ t]) simp
qed

end

text \<open>Storing into a buffer is an assignment to \<^verbatim>\<open>b->data\<close>.\<close>

definition bset :: "nat \<Rightarrow> byte list \<Rightarrow> ('z bst_scheme, unit) kop" where
  "bset i d = upd_buf i (\<lambda>b. b\<lparr>b_data := d\<rparr>)"

interpretation bio: block_cache bc_st bview disk dwrites disksize "\<lambda>s. length (bufs s)" cached
  "\<lambda>s i. b_data (bufs s ! i)" bio_frame "bread 1" bset bwrite brelse
proof
  fix s t u :: "'a bst_scheme" and D H :: "nat set" and b i :: nat and d :: "byte list"
  show "\<exists>i t. bread 1 b s = Ret i t \<and> bc_st t D (insert b H) \<and> bview t = bview s \<and> disk t = disk s \<and> dwrites t = dwrites s
        \<and> cached t b i \<and> b_data (bufs t ! i) = bview s b \<and> (\<forall>c j. c \<in> H \<and> cached s c j \<longrightarrow> cached t c j) \<and> bio_frame s t"
    if a: "bc_st s D H" "finite D" "finite H" "b \<notin> H" "b < disksize s" "card (D \<union> H) < length (bufs s) \<or> b \<in> D"
  proof -
    obtain i where i: "bread 1 b s = Ret i (loaded s i b)" "i < length (bufs s)"
      "bc_st (loaded s i b) D (insert b H)" "bview (loaded s i b) = bview s" "cached (loaded s i b) b i"
      "b_data (bufs (loaded s i b) ! i) = bview s b"
      using bread_ok [OF a(1,4,5,2,3,6)] by blast
    have "cached (loaded s i b) c j" if "c \<in> H" "cached s c j" for c j
    proof -
      have "\<exists>k. cached (loaded s i b) c k" using bc_stD(6) [OF i(3), of c] that by blast
      then show ?thesis using that a(4) by (auto simp: cached_loaded [OF i(2)] split: if_splits dest: bc_stD(4) [OF a(1)])
    qed
    then show ?thesis using i by (intro exI [of _ i] exI [of _ "loaded s i b"]) simp
  qed
  show "\<exists>t. bset i d s = Ret () t \<and> bc_st t D H \<and> bview t = (bview s)(b := d) \<and> disk t = disk s \<and> dwrites t = dwrites s
        \<and> (\<forall>c j. cached t c j \<longleftrightarrow> cached s c j) \<and> bio_frame s t"
    if "bc_st s D H" "b \<in> H" "cached s b i"
    using bset_ok [OF that, of d] by (simp add: bset_def)
  show "\<exists>t. bwrite i s = Ret () t \<and> bc_st t (D - {b}) H \<and> bview t = bview s \<and> disk t = (disk s)(b := bview s b)
        \<and> dwrites t = dwrites s @ [(b, bview s b)] \<and> (\<forall>c j. cached t c j \<longleftrightarrow> cached s c j) \<and> bio_frame s t"
    if "bc_st s D H" "b \<in> H" "cached s b i" by (rule bwrite_ok [OF that])
  show "\<exists>t. brelse i s = Ret () t \<and> bc_st t D (H - {b}) \<and> bview t = bview s \<and> disk t = disk s \<and> dwrites t = dwrites s
        \<and> (\<forall>c j. cached t c j \<longleftrightarrow> cached s c j) \<and> bio_frame s t"
    if "bc_st s D H" "b \<in> H" "cached s b i" "b \<in> D \<or> bview s b = disk s b" by (rule brelse_ok [OF that])
  show "b_data (bufs s ! i) = bview s b" if "bc_st s D H" "b \<in> H" "cached s b i"
    using held_buf(6) [OF that] by simp
  show "bview s b = disk s b" if "bc_st s D H" "b \<notin> D \<union> H" by (rule bview_clean [OF that])
  show "b < disksize s" if "bc_st s D H" "b \<in> D \<union> H" by (rule bc_stD(5) [OF that])
  show "disksize t = disksize s \<and> length (bufs t) = length (bufs s)" if "bio_frame s t"
    using bio_frame_rest [OF that] that by (simp add: bio_frame_def)
  show "bio_frame s u" if "bio_frame s t" "bio_frame t u" by (rule bio_frame_trans [OF that])
qed

section \<open>Correctness of the buffer cache\<close>

lemma brelse_lru:
  assumes "bc_st s D H" "b \<in> H" "cached s b i" "brelse i s = Ret () t"
  shows "lru t = i # remove1 i (lru s)"
proof -
  note hb = held_buf [OF assms(1-3)]
  have "quiet s" by (rule bc_stD(1) [OF assms(1)])
  then show ?thesis
    using assms(4) hb by (auto simp: brelse_def holding_quiet releasesleep_quiet buf_at_def lock_simps quiet_def)
qed

text \<open>
  C17. \<^verbatim>\<open>bread\<close> and \<^verbatim>\<open>brelse\<close>. In a coherent cache, for a block of the disk that the process has not
  locked, and as long as some buffer is neither locked nor dirty, \<^verbatim>\<open>bread\<close> returns a locked
  buffer with the block's current contents: the cached copy if there is one, else the
  disk's. No block changes for any reader, no two buffers ever hold the same block, and
  \<^verbatim>\<open>brelse\<close> unlocks the buffer and puts it first in the order of recent use.
\<close>

theorem bread_brelse_correct:
  assumes "bc_st s D H" "finite D" "finite H" "b \<notin> H" "b < disksize s" "card (D \<union> H) < length (bufs s)"
  shows "\<exists>i t u. bread 1 b s = Ret i t \<and> b_data (bufs t ! i) = bview s b \<and> sl_locked (slk t (SL_buf i))
    \<and> bc_st t D (insert b H) \<and> bview t = bview s \<and> disk t = disk s
    \<and> (\<forall>j k. cached t b j \<and> cached t b k \<longrightarrow> j = k)
    \<and> brelse i t = Ret () u \<and> bc_st u D H \<and> bview u = bview s \<and> disk u = disk s \<and> hd (lru u) = i"
proof -
  obtain i t where t: "bread 1 b s = Ret i t" "bc_st t D (insert b H)" "bview t = bview s" "disk t = disk s"
    "cached t b i" "b_data (bufs t ! i) = bview s b"
    using bio.rd_law [OF assms(1-5)] assms(6) by blast
  have "b \<in> D \<or> bview t b = disk t b"
    using bview_clean [OF assms(1), of b] assms(4) t(3,4) by auto
  then obtain u where u: "brelse i t = Ret () u" "bc_st u D (insert b H - {b})" "bview u = bview t" "disk u = disk t"
    using bio.put_law [OF t(2) _ t(5)] by blast
  have "hd (lru u) = i" using brelse_lru [OF t(2) _ t(5) u(1)] by simp
  moreover have "insert b H - {b} = H" using assms(4) by blast
  ultimately show ?thesis
    using t u held_buf(3) [OF t(2) _ t(5)] bc_stD(4) [OF t(2)] by (intro exI [of _ i] exI [of _ t] exI [of _ u]) auto
qed

text \<open>A freshly booted machine: no block cached, a disk of zeros.\<close>

definition booted :: "(nat \<Rightarrow> byte list) \<Rightarrow> nat \<Rightarrow> bst" where
  "booted d n = \<lparr>held = [], procs = [demo_proc 1 RUNNING, demo_proc 2 RUNNABLE], cur = Some 0,
     initproc = Some 0, nextpid = 3, ticks = 0, slk = (\<lambda>_. \<lparr>sl_locked = False, sl_pid = 0\<rparr>),
     phys = (\<lambda>_. 0), freelist = 0, use_lock = True, ld_end = 0x80200000, ld_data = 0x80108000,
     bufs = replicate NBUF zero_buf, lru = rev [0..<NBUF], disk = d, disksize = n, dwrites = []\<rparr>"

lemma booted_st: "bc_st (booted d n) {} {}"
proof -
  have "\<not> cached (booted d n) b i" for b i by (auto simp: cached_def booted_def zero_buf_def)
  then show ?thesis
    by (simp add: bc_st_def quiet_def booted_def zero_buf_def atLeast0LessThan)
qed

theorem bread_brelse_correct_witness:
  "\<exists>i t. bread 1 7 (booted (\<lambda>b. replicate 512 (of_nat b)) 3000) = Ret i t
     \<and> b_data (bufs t ! i) = replicate 512 7"
proof -
  let ?s = "booted (\<lambda>b. replicate 512 (of_nat b)) 3000"
  have "bview ?s 7 = replicate 512 7" using bview_clean [OF booted_st] by (simp add: booted_def)
  with bread_brelse_correct [OF booted_st, of 7 "\<lambda>b. replicate 512 (of_nat b)" 3000] show ?thesis
    by (auto simp: booted_def NBUF_def MAXOPBLOCKS_def)
qed

end
