(* ===== verification/Log.thy ===== *)
theory Log
  imports Bio
begin

text \<open>
  log.c: the write-ahead log, with \<^verbatim>\<open>struct superblock\<close> of fs.h and \<^verbatim>\<open>readsb\<close> of fs.c, which
  \<^verbatim>\<open>initlog\<close> calls. The in-memory header \<^verbatim>\<open>log.lh\<close> is the list of its first \<^verbatim>\<open>n\<close> block numbers.
  \<^verbatim>\<open>begin_op\<close> waits by going to sleep; \<open>begin_op_test\<close> is one round of its loop, which runs
  again when the process is switched back in.
\<close>

section \<open>The super block (fs.h)\<close>

record superblock =
  sb_size :: nat
  sb_nblocks :: nat
  sb_ninodes :: nat
  sb_nlog :: nat
  sb_logstart :: nat
  sb_inodestart :: nat
  sb_bmapstart :: nat

definition word_at :: "byte list \<Rightarrow> nat \<Rightarrow> nat" where
  "word_at d off = rd32 (\<lambda>i. cview d (off + i))"

definition decode_sb :: "byte list \<Rightarrow> superblock" where
  "decode_sb d = \<lparr>sb_size = word_at d 0, sb_nblocks = word_at d 4, sb_ninodes = word_at d 8,
     sb_nlog = word_at d 12, sb_logstart = word_at d 16, sb_inodestart = word_at d 20,
     sb_bmapstart = word_at d 24\<rparr>"

definition readsb :: "nat \<Rightarrow> ('z bst_scheme, superblock) kop" where
  "readsb dev =
     bindK (bread dev 1) (\<lambda>bp.
     bindK (gets (\<lambda>s. decode_sb (b_data (bufs s ! bp)))) (\<lambda>sb.
     seqK (brelse bp) (ret sb)))"

section \<open>log.c\<close>

record lst = bst +
  log_start :: nat
  log_size :: nat
  log_outstanding :: int
  log_committing :: bool
  log_dev :: nat
  lh :: "nat list"

text \<open>The header block: \<^verbatim>\<open>n\<close> and then the block numbers. A negative \<^verbatim>\<open>n\<close> counts as none.\<close>

definition head_n :: "byte list \<Rightarrow> int" where
  "head_n d = sint (of_nat (word_at d 0) :: u32)"

definition head_blocks :: "byte list \<Rightarrow> nat list" where
  "head_blocks d = map (\<lambda>i. word_at d (4 + 4 * i)) [0..<nat (head_n d)]"

definition put_head :: "nat list \<Rightarrow> byte list \<Rightarrow> byte list" where
  "put_head bl d = splice d 0 (le32 (length bl) @ concat (map le32 bl))"

definition install_one :: "nat \<Rightarrow> ('z lst_scheme, unit) kop" where
  "install_one tail =
     bindK (gets (\<lambda>s. (log_dev s, log_start s + tail + 1, lh s ! tail))) (\<lambda>(dev, from, dst).
     bindK (bread dev from) (\<lambda>lbuf.
     bindK (bread dev dst) (\<lambda>dbuf.
     bindK (gets (\<lambda>s. b_data (bufs s ! lbuf))) (\<lambda>d.
     seqK (bset dbuf d)
     (seqK (bwrite dbuf)
     (seqK (brelse lbuf)
     (brelse dbuf)))))))"

definition install_trans :: "('z lst_scheme, unit) kop" where
  "install_trans = bindK (gets (\<lambda>s. [0..<length (lh s)])) (\<lambda>ts. forK ts install_one)"

text \<open>More than \<^verbatim>\<open>LOGSIZE\<close> entries would overrun \<^verbatim>\<open>log.lh.block\<close>, which C leaves undefined.\<close>

definition read_head :: "('z lst_scheme, unit) kop" where
  "read_head =
     bindK (gets (\<lambda>s. (log_dev s, log_start s))) (\<lambda>(dev, start).
     bindK (bread dev start) (\<lambda>b.
     bindK (gets (\<lambda>s. b_data (bufs s ! b))) (\<lambda>d.
     seqK (panic_if (head_n d > int LOGSIZE) ''undefined: log header overrun'')
     (seqK (modify (\<lambda>s. s\<lparr>lh := head_blocks d\<rparr>))
     (brelse b)))))"

definition write_head :: "('z lst_scheme, unit) kop" where
  "write_head =
     bindK (gets (\<lambda>s. (log_dev s, log_start s, lh s))) (\<lambda>(dev, start, bl).
     bindK (bread dev start) (\<lambda>b.
     bindK (gets (\<lambda>s. b_data (bufs s ! b))) (\<lambda>d.
     seqK (bset b (put_head bl d))
     (seqK (bwrite b)
     (brelse b)))))"

definition recover_from_log :: "('z lst_scheme, unit) kop" where
  "recover_from_log =
     seqK read_head
     (seqK install_trans
     (seqK (modify (\<lambda>s. s\<lparr>lh := []\<rparr>))
     write_head))"

text \<open>\<^verbatim>\<open>sizeof(struct logheader)\<close> is 124, so the first test of \<^verbatim>\<open>initlog\<close> never fires.\<close>

definition initlog :: "nat \<Rightarrow> ('z lst_scheme, unit) kop" where
  "initlog dev =
     seqK (panic_if (4 + 4 * LOGSIZE \<ge> BSIZE) ''initlog: too big logheader'')
     (bindK (readsb dev) (\<lambda>sb.
     seqK (modify (\<lambda>s. s\<lparr>log_start := sb_logstart sb, log_size := sb_nlog sb, log_dev := dev\<rparr>))
     recover_from_log))"

definition begin_op_test :: "('z lst_scheme, unit) kop" where
  "begin_op_test =
     bindK (gets (\<lambda>s. (log_committing s, log_outstanding s, lh s))) (\<lambda>(committing, out, bl).
     if committing then sleep Ch_log L_log
     else if int (length bl) + (out + 1) * int MAXOPBLOCKS > int LOGSIZE then sleep Ch_log L_log
     else
       seqK (modify (\<lambda>s. s\<lparr>log_outstanding := log_outstanding s + 1\<rparr>))
       (rel L_log))"

definition begin_op :: "('z lst_scheme, unit) kop" where
  "begin_op = seqK (acq L_log) begin_op_test"

definition begin_op_resume :: "nat \<Rightarrow> ('z lst_scheme, unit) kop" where
  "begin_op_resume p = seqK (sleep_resume p L_log) begin_op_test"

definition write_log_one :: "nat \<Rightarrow> ('z lst_scheme, unit) kop" where
  "write_log_one tail =
     bindK (gets (\<lambda>s. (log_dev s, log_start s + tail + 1, lh s ! tail))) (\<lambda>(dev, dst, home).
     bindK (bread dev dst) (\<lambda>to.
     bindK (bread dev home) (\<lambda>from.
     bindK (gets (\<lambda>s. b_data (bufs s ! from))) (\<lambda>d.
     seqK (bset to d)
     (seqK (bwrite to)
     (seqK (brelse from)
     (brelse to)))))))"

definition write_log :: "('z lst_scheme, unit) kop" where
  "write_log = bindK (gets (\<lambda>s. [0..<length (lh s)])) (\<lambda>ts. forK ts write_log_one)"

definition commit :: "('z lst_scheme, unit) kop" where
  "commit =
     bindK (gets (\<lambda>s. length (lh s))) (\<lambda>n.
     if n > 0 then
       seqK write_log
       (seqK write_head
       (seqK install_trans
       (seqK (modify (\<lambda>s. s\<lparr>lh := []\<rparr>))
       write_head)))
     else ret ())"

definition end_op :: "('z lst_scheme, unit) kop" where
  "end_op =
     seqK (acq L_log)
     (seqK (modify (\<lambda>s. s\<lparr>log_outstanding := log_outstanding s - 1\<rparr>))
     (seqK (bindK (gets log_committing) (\<lambda>c. panic_if c ''log.committing''))
     (bindK (gets (\<lambda>s. log_outstanding s = 0)) (\<lambda>do_commit.
     seqK (if do_commit then modify (\<lambda>s. s\<lparr>log_committing := True\<rparr>) else wakeup Ch_log)
     (seqK (rel L_log)
     (if do_commit then
        seqK commit
        (seqK (acq L_log)
        (seqK (modify (\<lambda>s. s\<lparr>log_committing := False\<rparr>))
        (seqK (wakeup Ch_log)
        (rel L_log))))
      else ret ()))))))"

definition log_write :: "nat \<Rightarrow> ('z lst_scheme, unit) kop" where
  "log_write b =
     seqK (bindK (gets (\<lambda>s. (length (lh s), log_size s))) (\<lambda>(n, sz).
       panic_if (n \<ge> LOGSIZE \<or> int n \<ge> int sz - 1) ''too big a transaction''))
     (seqK (bindK (gets log_outstanding) (\<lambda>out. panic_if (out < 1) ''log_write outside of trans''))
     (seqK (acq L_log)
     (bindK (gets (\<lambda>s. b_blockno (buf_at b s))) (\<lambda>blockno.
     seqK (modify (\<lambda>s. s\<lparr>lh := if blockno \<in> set (lh s) then lh s else lh s @ [blockno]\<rparr>))
     (seqK (upd_buf b (\<lambda>x. x\<lparr>b_dirty := True\<rparr>))
     (rel L_log))))))"

section \<open>Copying blocks through the cache\<close>

context block_cache
begin

text \<open>Both buffers locked: the first read is \<open>a\<close>, the second is \<open>b\<close>.\<close>

lemma read_two:
  assumes st: "bst_ok s D {}" and fin: "finite D" and ab: "a \<noteq> b" "a < nblocks s" "b < nblocks s"
    and room: "card D < nbufs s \<or> a \<in> D" "card (insert a D) < nbufs s \<or> b \<in> D"
  obtains i s1 j s2 where "rd a s = Ret i s1" "rd b s1 = Ret j s2" "bst_ok s2 D {a, b}" "view s2 = view s"
    "dsk s2 = dsk s" "hist s2 = hist s" "isbuf s2 a i" "isbuf s2 b j" "content s2 i = view s a"
    "content s2 j = view s b" "frame s s2"
proof -
  obtain i s1 where s1: "rd a s = Ret i s1" "bst_ok s1 D {a}" "view s1 = view s" "dsk s1 = dsk s"
    "hist s1 = hist s" "isbuf s1 a i" "frame s s1"
    using rd_law [OF st fin _ _ ab(2)] room(1) by auto
  have "b < nblocks s1" "card (D \<union> {a}) < nbufs s1 \<or> b \<in> D"
    using frame_sizes [OF s1(7)] ab(3) room(2) by simp_all
  then obtain j s2 where s2: "rd b s1 = Ret j s2" "bst_ok s2 D {b, a}" "view s2 = view s1" "dsk s2 = dsk s1"
    "hist s2 = hist s1" "isbuf s2 b j" "isbuf s2 a i" "frame s1 s2"
    using rd_law [OF s1(2) fin, of b] s1(6) ab(1) by (auto simp: insert_commute)
  have "bst_ok s2 D {a, b}" using s2(2) by (simp add: insert_commute)
  then show thesis
    using that s1 s2 content_law [OF \<open>bst_ok s2 D {a, b}\<close>] frame_trans by auto
qed

lemma put_two:
  assumes st: "bst_ok s D {a, b}" and bufs: "isbuf s a i" "isbuf s b j" and ab: "a \<noteq> b"
    and clean: "a \<in> D \<or> view s a = dsk s a" "b \<in> D \<or> view s b = dsk s b"
  shows "\<exists>t. seqK (put i) (put j) s = Ret () t \<and> bst_ok t D {} \<and> view t = view s \<and> dsk t = dsk s \<and> hist t = hist s \<and> frame s t"
proof -
  obtain s1 where s1: "put i s = Ret () s1" "bst_ok s1 D ({a, b} - {a})" "view s1 = view s" "dsk s1 = dsk s"
    "hist s1 = hist s" "isbuf s1 b j" "frame s s1"
    using put_law [OF st _ bufs(1) clean(1)] bufs(2) by blast
  have st1: "bst_ok s1 D {b}" using s1(2) ab by (simp add: insert_Diff_if)
  obtain t where t: "put j s1 = Ret () t" "bst_ok t D ({b} - {b})" "view t = view s1" "dsk t = dsk s1"
    "hist t = hist s1" "frame s1 t"
    using put_law [OF st1 _ s1(6)] clean(2) s1(3,4) by auto
  show ?thesis using s1 t frame_trans [OF s1(7) t(6)] by (intro exI [of _ t]) simp
qed

lemma copy_to_second:
  assumes st: "bst_ok s D {}" and fin: "finite D" and ab: "a \<noteq> b" "a < nblocks s" "b < nblocks s"
    and room: "card D < nbufs s \<or> a \<in> D" "card (insert a D) < nbufs s \<or> b \<in> D"
  shows "\<exists>t. bindK (rd a) (\<lambda>i. bindK (rd b) (\<lambda>j. bindK (gets (\<lambda>s. content s i)) (\<lambda>d.
             seqK (store j d) (seqK (wr j) (seqK (put i) (put j)))))) s = Ret () t
     \<and> bst_ok t (D - {b}) {} \<and> view t = (view s)(b := view s a) \<and> dsk t = (dsk s)(b := view s a)
     \<and> hist t = hist s @ [(b, view s a)] \<and> frame s t"
proof -
  obtain i s1 j s2 where r: "rd a s = Ret i s1" "rd b s1 = Ret j s2" "bst_ok s2 D {a, b}" "view s2 = view s"
    "dsk s2 = dsk s" "hist s2 = hist s" "isbuf s2 a i" "isbuf s2 b j" "content s2 i = view s a" "frame s s2"
    by (rule read_two [OF assms])
  obtain s3 where s3: "store j (view s a) s2 = Ret () s3" "bst_ok s3 D {a, b}" "view s3 = (view s2)(b := view s a)"
    "dsk s3 = dsk s2" "hist s3 = hist s2" "isbuf s3 a i" "isbuf s3 b j" "frame s2 s3"
    using store_law [OF r(3) _ r(8)] r(7,8) by blast
  obtain s4 where s4: "wr j s3 = Ret () s4" "bst_ok s4 (D - {b}) {a, b}" "view s4 = view s3"
    "dsk s4 = (dsk s3)(b := view s3 b)" "hist s4 = hist s3 @ [(b, view s3 b)]" "isbuf s4 a i" "isbuf s4 b j" "frame s3 s4"
    using wr_law [OF s3(2) _ s3(7)] s3(6,7) by blast
  have c: "a \<in> D - {b} \<or> view s4 a = dsk s4 a" "b \<in> D - {b} \<or> view s4 b = dsk s4 b"
    using clean_law [OF st, of a] ab(1) s4 s3 r by auto
  obtain t where t: "seqK (put i) (put j) s4 = Ret () t" "bst_ok t (D - {b}) {}" "view t = view s4"
    "dsk t = dsk s4" "hist t = hist s4" "frame s4 t"
    using put_two [OF s4(2,6,7) ab(1) c] by auto
  have "frame s t" using frame_trans r(10) s3(8) s4(8) t(6) by blast
  then show ?thesis
    using r(1,2,4-6,9) s3(1,3-5) s4(1,3-5) t(1-5) by (intro exI [of _ t]) simp
qed

lemma copy_to_first:
  assumes st: "bst_ok s D {}" and fin: "finite D" and ab: "a \<noteq> b" "a < nblocks s" "b < nblocks s"
    and room: "card D < nbufs s \<or> a \<in> D" "card (insert a D) < nbufs s \<or> b \<in> D"
  shows "\<exists>t. bindK (rd a) (\<lambda>i. bindK (rd b) (\<lambda>j. bindK (gets (\<lambda>s. content s j)) (\<lambda>d.
             seqK (store i d) (seqK (wr i) (seqK (put j) (put i)))))) s = Ret () t
     \<and> bst_ok t (D - {a}) {} \<and> view t = (view s)(a := view s b) \<and> dsk t = (dsk s)(a := view s b)
     \<and> hist t = hist s @ [(a, view s b)] \<and> frame s t"
proof -
  obtain i s1 j s2 where r: "rd a s = Ret i s1" "rd b s1 = Ret j s2" "bst_ok s2 D {a, b}" "view s2 = view s"
    "dsk s2 = dsk s" "hist s2 = hist s" "isbuf s2 a i" "isbuf s2 b j" "content s2 j = view s b" "frame s s2"
    by (rule read_two [OF assms])
  obtain s3 where s3: "store i (view s b) s2 = Ret () s3" "bst_ok s3 D {a, b}" "view s3 = (view s2)(a := view s b)"
    "dsk s3 = dsk s2" "hist s3 = hist s2" "isbuf s3 a i" "isbuf s3 b j" "frame s2 s3"
    using store_law [OF r(3) _ r(7)] r(7,8) by blast
  obtain s4 where s4: "wr i s3 = Ret () s4" "bst_ok s4 (D - {a}) {a, b}" "view s4 = view s3"
    "dsk s4 = (dsk s3)(a := view s3 a)" "hist s4 = hist s3 @ [(a, view s3 a)]" "isbuf s4 a i" "isbuf s4 b j" "frame s3 s4"
    using wr_law [OF s3(2) _ s3(6)] s3(6,7) by blast
  have st4: "bst_ok s4 (D - {a}) {b, a}" using s4(2) by (simp add: insert_commute)
  have c: "b \<in> D - {a} \<or> view s4 b = dsk s4 b" "a \<in> D - {a} \<or> view s4 a = dsk s4 a"
    using clean_law [OF st, of b] ab(1) s4 s3 r by auto
  obtain t where t: "seqK (put j) (put i) s4 = Ret () t" "bst_ok t (D - {a}) {}" "view t = view s4"
    "dsk t = dsk s4" "hist t = hist s4" "frame s4 t"
    using put_two [OF st4 s4(7,6) ab(1) [symmetric] c] by auto
  have "frame s t" using frame_trans r(10) s3(8) s4(8) t(6) by blast
  then show ?thesis
    using r(1,2,4-6,9) s3(1,3-5) s4(1,3-5) t(1-5) by (intro exI [of _ t]) simp
qed

lemma read_block:
  assumes st: "bst_ok s D {}" and fin: "finite D" and b: "b < nblocks s" "card D < nbufs s \<or> b \<in> D"
  obtains i s1 t where "rd b s = Ret i s1" "content s1 i = view s b" "put i s1 = Ret () t" "bst_ok t D {}"
    "view t = view s" "dsk t = dsk s" "hist t = hist s" "frame s t"
    "bst_ok s1 D {b}" "isbuf s1 b i" "view s1 = view s" "dsk s1 = dsk s" "hist s1 = hist s" "frame s s1"
proof -
  obtain i s1 where s1: "rd b s = Ret i s1" "bst_ok s1 D {b}" "view s1 = view s" "dsk s1 = dsk s"
    "hist s1 = hist s" "isbuf s1 b i" "content s1 i = view s b" "frame s s1"
    using rd_law [OF st fin _ _ b(1)] b(2) by auto
  have "b \<in> D \<or> view s1 b = dsk s1 b" using clean_law [OF st, of b] s1 by auto
  then obtain t where t: "put i s1 = Ret () t" "bst_ok t D ({b} - {b})" "view t = view s1" "dsk t = dsk s1"
    "hist t = hist s1" "frame s1 t"
    using put_law [OF s1(2) _ s1(6)] by blast
  show thesis using that s1 t frame_trans [OF s1(8) t(6)] by simp
qed

end

section \<open>Sequences of block writes\<close>

definition apply_writes :: "(nat \<Rightarrow> 'b) \<Rightarrow> (nat \<times> 'b) list \<Rightarrow> (nat \<Rightarrow> 'b)" where
  "apply_writes d ws = foldl (\<lambda>d (b, x). d(b := x)) d ws"

lemma apply_writes_simps [simp]:
  "apply_writes d [] = d" "apply_writes d ((b, x) # ws) = apply_writes (d(b := x)) ws"
  "apply_writes d (ws @ vs) = apply_writes (apply_writes d ws) vs"
  by (simp_all add: apply_writes_def)

lemma apply_writes_other: "b \<notin> fst ` set ws \<Longrightarrow> apply_writes d ws b = d b"
  by (induction ws arbitrary: d) auto

lemma apply_writes_at:
  "distinct (map fst ws) \<Longrightarrow> (b, x) \<in> set ws \<Longrightarrow> apply_writes d ws b = x"
  by (induction ws arbitrary: d) (auto simp: apply_writes_other)

lemma apply_writes_map_of:
  "distinct (map fst ws) \<Longrightarrow> apply_writes d ws b = (case map_of ws b of Some x \<Rightarrow> x | None \<Rightarrow> d b)"
  by (auto simp: apply_writes_at apply_writes_other map_of_eq_None_iff dest: map_of_SomeD split: option.split)

section \<open>What the steps of a commit do\<close>

lemma bio_frame_log:
  assumes "bio_frame s t"
  shows "log_start t = log_start s" "log_size t = log_size s" "log_dev t = log_dev s" "lh t = lh s"
    "log_outstanding t = log_outstanding s" "log_committing t = log_committing s"
proof -
  have t: "t = s\<lparr>procs := procs t, slk := slk t, bufs := bufs t, lru := lru t, disk := disk t, dwrites := dwrites t\<rparr>"
    using assms by (simp add: bio_frame_def)
  show "log_start t = log_start s" "log_size t = log_size s" "log_dev t = log_dev s" "lh t = lh s"
    "log_outstanding t = log_outstanding s" "log_committing t = log_committing s"
    by (subst t, simp)+
qed

lemma bio_frame_nbufs: "bio_frame s t \<Longrightarrow> length (bufs t) = length (bufs s)"
  by (simp add: bio_frame_def)

text \<open>The log's own blocks: the header and the copies of the logged blocks.\<close>

definition log_area :: "'z lst_scheme \<Rightarrow> nat set" where
  "log_area s = {log_start s..<log_start s + log_size s}"

definition log_wf :: "'z lst_scheme \<Rightarrow> bool" where
  "log_wf s \<longleftrightarrow> log_dev s = 1 \<and> length (lh s) < log_size s \<and> log_start s + log_size s \<le> disksize s
     \<and> distinct (lh s) \<and> set (lh s) \<inter> log_area s = {} \<and> (\<forall>b \<in> set (lh s). b < disksize s)"

lemma log_wf_frame: "bio_frame s t \<Longrightarrow> log_wf t = log_wf s"
  using bio_frame_log [of s t] bio_frame_rest(1) [of s t] by (simp add: log_wf_def log_area_def)

lemma log_wf_entry:
  assumes "log_wf s" "k < length (lh s)"
  shows "log_start s + k + 1 < disksize s" "lh s ! k < disksize s" "log_start s + k + 1 \<noteq> lh s ! j \<or> j \<ge> length (lh s)"
    "log_start s + k + 1 \<in> log_area s" "log_start s < disksize s" "log_start s \<in> log_area s" "log_start s \<noteq> lh s ! k"
proof -
  have a: "log_start s + k + 1 \<in> log_area s" "log_start s \<in> log_area s"
    using assms by (auto simp: log_wf_def log_area_def)
  show "log_start s + k + 1 < disksize s" "lh s ! k < disksize s" "log_start s + k + 1 \<in> log_area s"
    "log_start s < disksize s" "log_start s \<in> log_area s"
    using assms a by (auto simp: log_wf_def)
  show "log_start s + k + 1 \<noteq> lh s ! j \<or> j \<ge> length (lh s)"
    using a(1) assms nth_mem [of j "lh s"] unfolding log_wf_def by (metis disjoint_iff not_le)
  show "log_start s \<noteq> lh s ! k"
    using a(2) assms nth_mem [of k "lh s"] unfolding log_wf_def by (metis disjoint_iff)
qed

lemma install_one_ok:
  assumes wf: "log_wf s" and st: "bc_st s D {}" and fin: "finite D" and k: "k < length (lh s)"
    and room: "card D < length (bufs s)" "lh s ! k \<in> D \<or> card D + 1 < length (bufs s)"
  defines "w \<equiv> (lh s ! k, bview s (log_start s + k + 1))"
  shows "\<exists>t. install_one k s = Ret () t \<and> bc_st t (D - {fst w}) {} \<and> bview t = (bview s)(fst w := snd w)
    \<and> disk t = (disk s)(fst w := snd w) \<and> dwrites t = dwrites s @ [w] \<and> bio_frame s t"
proof -
  note e = log_wf_entry [OF wf k]
  have "card (insert (log_start s + k + 1) D) \<le> card D + 1" using fin by (simp add: card_insert_if)
  then have "card (insert (log_start s + k + 1) D) < length (bufs s) \<or> lh s ! k \<in> D" using room by linarith
  from bio.copy_to_second [OF st fin _ e(1,2) _ this] e(3) [of k] k room wf show ?thesis
    by (auto simp: install_one_def w_def log_wf_def)
qed

lemma write_log_one_ok:
  assumes wf: "log_wf s" and st: "bc_st s D {}" and fin: "finite D" and k: "k < length (lh s)"
    and room: "card D < length (bufs s)" "lh s ! k \<in> D" and D: "D \<inter> log_area s = {}"
  defines "w \<equiv> (log_start s + k + 1, bview s (lh s ! k))"
  shows "\<exists>t. write_log_one k s = Ret () t \<and> bc_st t D {} \<and> bview t = (bview s)(fst w := snd w)
    \<and> disk t = (disk s)(fst w := snd w) \<and> dwrites t = dwrites s @ [w] \<and> bio_frame s t"
proof -
  note e = log_wf_entry [OF wf k]
  have "D - {log_start s + k + 1} = D" using e(4) D by blast
  with bio.copy_to_first [OF st fin _ e(1,2)] e(3) [of k] k room wf show ?thesis
    by (auto simp: write_log_one_def w_def log_wf_def)
qed

lemma install_loop_ok:
  assumes "log_wf s" "bc_st s D {}" "finite D" "distinct ts" "\<forall>k \<in> set ts. k < length (lh s)"
    "card D < length (bufs s)" "\<forall>k \<in> set ts. lh s ! k \<in> D \<or> card D + 1 < length (bufs s)"
  shows "\<exists>t. forK ts install_one s = Ret () t \<and> bc_st t (D - (\<lambda>k. lh s ! k) ` set ts) {}
    \<and> bview t = apply_writes (bview s) (map (\<lambda>k. (lh s ! k, bview s (log_start s + k + 1))) ts)
    \<and> disk t = apply_writes (disk s) (map (\<lambda>k. (lh s ! k, bview s (log_start s + k + 1))) ts)
    \<and> dwrites t = dwrites s @ map (\<lambda>k. (lh s ! k, bview s (log_start s + k + 1))) ts \<and> bio_frame s t"
  using assms
proof (induction ts arbitrary: s D)
  case (Cons k ts)
  have k: "k < length (lh s)" using Cons.prems(5) by simp
  obtain s1 where s1: "install_one k s = Ret () s1" "bc_st s1 (D - {lh s ! k}) {}"
    "bview s1 = (bview s)(lh s ! k := bview s (log_start s + k + 1))"
    "disk s1 = (disk s)(lh s ! k := bview s (log_start s + k + 1))"
    "dwrites s1 = dwrites s @ [(lh s ! k, bview s (log_start s + k + 1))]" "bio_frame s s1"
    using install_one_ok [OF Cons.prems(1-3) k] Cons.prems(6,7) by auto
  note same = bio_frame_log [OF s1(6)] bio_frame_nbufs [OF s1(6)]
  have dist: "distinct (lh s)" using Cons.prems(1) by (simp add: log_wf_def)
  have rest: "lh s ! j \<noteq> lh s ! k" if "j \<in> set ts" for j
    using that Cons.prems(4,5) dist k by (auto simp: nth_eq_iff_index_eq)
  have card: "card (D - {lh s ! k}) \<le> card D" by (simp add: card_Diff1_le)
  have logv: "bview s1 (log_start s + j + 1) = bview s (log_start s + j + 1)" if "j \<in> set ts" for j
    using s1(3) log_wf_entry(3) [OF Cons.prems(1), of j k] that Cons.prems(5) k by auto
  have ws: "map (\<lambda>k. (lh s ! k, bview s1 (log_start s + k + 1))) ts
      = map (\<lambda>k. (lh s ! k, bview s (log_start s + k + 1))) ts"
    using logv by (intro map_cong) auto
  have wf1: "log_wf s1" using Cons.prems(1) log_wf_frame [OF s1(6)] by simp
  have "card (D - {lh s ! k}) < length (bufs s1)" using card Cons.prems(6) same(7) by simp
  moreover have "\<forall>j \<in> set ts. lh s1 ! j \<in> D - {lh s ! k} \<or> card (D - {lh s ! k}) + 1 < length (bufs s1)"
    using Cons.prems(7) rest card same(4,7) by fastforce
  ultimately obtain t where t: "forK ts install_one s1 = Ret () t"
    "bc_st t (D - {lh s ! k} - (\<lambda>k. lh s ! k) ` set ts) {}"
    "bview t = apply_writes (bview s1) (map (\<lambda>k. (lh s ! k, bview s (log_start s + k + 1))) ts)"
    "disk t = apply_writes (disk s1) (map (\<lambda>k. (lh s ! k, bview s (log_start s + k + 1))) ts)"
    "dwrites t = dwrites s1 @ map (\<lambda>k. (lh s ! k, bview s (log_start s + k + 1))) ts" "bio_frame s1 t"
    using Cons.IH [OF wf1 s1(2)] Cons.prems(3-5) unfolding same(1,4) ws by auto
  have "D - {lh s ! k} - (\<lambda>k. lh s ! k) ` set ts = D - (\<lambda>k. lh s ! k) ` set (k # ts)" by auto
  with s1 t bio_frame_trans [OF s1(6) t(6)] show ?case by (intro exI [of _ t]) simp
qed simp

lemma write_log_loop_ok:
  assumes "log_wf s" "bc_st s D {}" "finite D" "\<forall>k \<in> set ts. k < length (lh s)"
    "card D < length (bufs s)" "\<forall>k \<in> set ts. lh s ! k \<in> D" "D \<inter> log_area s = {}"
  shows "\<exists>t. forK ts write_log_one s = Ret () t \<and> bc_st t D {}
    \<and> bview t = apply_writes (bview s) (map (\<lambda>k. (log_start s + k + 1, bview s (lh s ! k))) ts)
    \<and> disk t = apply_writes (disk s) (map (\<lambda>k. (log_start s + k + 1, bview s (lh s ! k))) ts)
    \<and> dwrites t = dwrites s @ map (\<lambda>k. (log_start s + k + 1, bview s (lh s ! k))) ts \<and> bio_frame s t"
  using assms
proof (induction ts arbitrary: s)
  case (Cons k ts)
  have k: "k < length (lh s)" using Cons.prems(4) by simp
  obtain s1 where s1: "write_log_one k s = Ret () s1" "bc_st s1 D {}"
    "bview s1 = (bview s)(log_start s + k + 1 := bview s (lh s ! k))"
    "disk s1 = (disk s)(log_start s + k + 1 := bview s (lh s ! k))"
    "dwrites s1 = dwrites s @ [(log_start s + k + 1, bview s (lh s ! k))]" "bio_frame s s1"
    using write_log_one_ok [OF Cons.prems(1-3) k Cons.prems(5) _ Cons.prems(7)] Cons.prems(6) by auto
  note same = bio_frame_log [OF s1(6)] bio_frame_nbufs [OF s1(6)]
  have homev: "bview s1 (lh s ! j) = bview s (lh s ! j)" if "j \<in> set ts" for j
    using s1(3) log_wf_entry(3) [OF Cons.prems(1) k, of j] that Cons.prems(4) by auto
  have ws: "map (\<lambda>k. (log_start s + k + 1, bview s1 (lh s ! k))) ts
      = map (\<lambda>k. (log_start s + k + 1, bview s (lh s ! k))) ts"
    using homev by (intro map_cong) auto
  have wf1: "log_wf s1" using Cons.prems(1) log_wf_frame [OF s1(6)] by simp
  have "log_area s1 = log_area s" using same by (simp add: log_area_def)
  then obtain t where t: "forK ts write_log_one s1 = Ret () t" "bc_st t D {}"
    "bview t = apply_writes (bview s1) (map (\<lambda>k. (log_start s + k + 1, bview s (lh s ! k))) ts)"
    "disk t = apply_writes (disk s1) (map (\<lambda>k. (log_start s + k + 1, bview s (lh s ! k))) ts)"
    "dwrites t = dwrites s1 @ map (\<lambda>k. (log_start s + k + 1, bview s (lh s ! k))) ts" "bio_frame s1 t"
    using Cons.IH [OF wf1 s1(2) Cons.prems(3)] Cons.prems(4-7) unfolding same(1,4,7) ws by auto
  with s1 bio_frame_trans [OF s1(6) t(6)] show ?case by (intro exI [of _ t]) simp
qed simp

lemma write_head_ok:
  assumes "log_dev s = 1" "log_start s < disksize s" "bc_st s D {}" "finite D" "card D < length (bufs s)"
    "log_start s \<notin> D"
  shows "\<exists>t. write_head s = Ret () t \<and> bc_st t D {}
    \<and> bview t = (bview s)(log_start s := put_head (lh s) (bview s (log_start s)))
    \<and> disk t = (disk s)(log_start s := put_head (lh s) (bview s (log_start s)))
    \<and> dwrites t = dwrites s @ [(log_start s, put_head (lh s) (bview s (log_start s)))] \<and> bio_frame s t"
  using bio.rewrite_block [OF assms(3,4,2), of "put_head (lh s)"] assms(1,5,6)
  by (simp add: write_head_def)

lemma bc_st_lh [simp]: "bc_st (s\<lparr>lh := l\<rparr>) = bc_st s" "bview (s\<lparr>lh := l\<rparr>) = bview s"
  by (simp_all add: bc_st_def bview_def cached_def quiet_def curpid_def proc_at_def fun_eq_iff split: option.split)

lemma bio_frame_lh:
  assumes "bio_frame (s\<lparr>lh := l\<rparr>) t"
  shows "bio_frame s (t\<lparr>lh := lh s\<rparr>)"
proof -
  have t: "t = (s\<lparr>lh := l\<rparr>)\<lparr>procs := procs t, slk := slk t, bufs := bufs t, lru := lru t, disk := disk t, dwrites := dwrites t\<rparr>"
    using assms by (simp add: bio_frame_def)
  have "t\<lparr>lh := lh s\<rparr> = s\<lparr>procs := procs t, slk := slk t, bufs := bufs t, lru := lru t, disk := disk t, dwrites := dwrites t\<rparr>"
    by (subst t) (cases s, simp)
  with assms show ?thesis by (simp add: bio_frame_def)
qed

section \<open>commit\<close>

text \<open>The block writes of a commit, in order.\<close>

definition log_writes :: "'z lst_scheme \<Rightarrow> (nat \<times> byte list) list" where
  "log_writes s = map (\<lambda>k. (log_start s + k + 1, bview s (lh s ! k))) [0..<length (lh s)]"

definition home_writes :: "'z lst_scheme \<Rightarrow> (nat \<times> byte list) list" where
  "home_writes s = map (\<lambda>k. (lh s ! k, bview s (lh s ! k))) [0..<length (lh s)]"

definition commit_head :: "'z lst_scheme \<Rightarrow> byte list" where
  "commit_head s = put_head (lh s) (bview s (log_start s))"

definition commit_writes :: "'z lst_scheme \<Rightarrow> (nat \<times> byte list) list" where
  "commit_writes s = log_writes s @ [(log_start s, commit_head s)] @ home_writes s
     @ [(log_start s, put_head [] (commit_head s))]"

lemma log_writes_fst: "map fst (log_writes s) = map (\<lambda>k. log_start s + k + 1) [0..<length (lh s)]"
  and home_writes_fst: "map fst (home_writes s) = lh s"
  by (simp_all add: log_writes_def home_writes_def comp_def map_nth)

lemma log_writes_distinct: "distinct (map fst (log_writes s))"
  by (simp add: log_writes_fst distinct_map inj_on_def)

lemma log_writes_at: "k < length (lh s) \<Longrightarrow> apply_writes d (log_writes s) (log_start s + k + 1) = bview s (lh s ! k)"
  by (rule apply_writes_at [OF log_writes_distinct]) (auto simp: log_writes_def)

lemma home_writes_at: "log_wf s \<Longrightarrow> b \<in> set (lh s) \<Longrightarrow> apply_writes d (home_writes s) b = bview s b"
proof (rule apply_writes_at)
  assume "log_wf s" "b \<in> set (lh s)"
  then show "distinct (map fst (home_writes s))" "(b, bview s b) \<in> set (home_writes s)"
    by (simp_all only: home_writes_fst log_wf_def) (auto simp: home_writes_def in_set_conv_nth)
qed

lemma log_writes_other: "log_wf s \<Longrightarrow> b \<notin> log_area s \<or> b = log_start s \<Longrightarrow> apply_writes d (log_writes s) b = d b"
  by (rule apply_writes_other) (auto simp: log_writes_def log_wf_def log_area_def)

lemma home_writes_other: "b \<notin> set (lh s) \<Longrightarrow> apply_writes d (home_writes s) b = d b"
  by (rule apply_writes_other) (metis home_writes_fst list.set_map)

text \<open>A transaction ready to commit: the logged blocks are exactly the dirty ones.\<close>

definition commit_ready :: "'z lst_scheme \<Rightarrow> bool" where
  "commit_ready s \<longleftrightarrow> log_wf s \<and> bc_st s (set (lh s)) {} \<and> length (lh s) < length (bufs s) \<and> lh s \<noteq> []"

lemma commit_run:
  assumes ready: "commit_ready s"
  shows "\<exists>t. commit s = Ret () t \<and> bc_st t {} {} \<and> lh t = [] \<and> dwrites t = dwrites s @ commit_writes s
    \<and> disk t = apply_writes (disk s) (commit_writes s) \<and> bview t = apply_writes (bview s) (commit_writes s)
    \<and> bio_frame s (t\<lparr>lh := lh s\<rparr>)"
proof -
  let ?D = "set (lh s)" and ?ts = "[0..<length (lh s)]"
  have wf: "log_wf s" and st: "bc_st s ?D {}" and ne: "0 < length (lh s)" and len: "length (lh s) < length (bufs s)"
    using ready by (auto simp: commit_ready_def)
  have card: "card ?D < length (bufs s)" using len card_length [of "lh s"] by linarith
  have area: "?D \<inter> log_area s = {}" using wf by (simp add: log_wf_def)
  note e0 = log_wf_entry [OF wf ne]
  have start: "log_start s \<notin> ?D" using area e0(6) by blast
  have dev: "log_dev s = 1" and nonempty: "bufs s \<noteq> []" using wf len by (auto simp: log_wf_def)
  obtain s1 where s1: "forK ?ts write_log_one s = Ret () s1" "bc_st s1 ?D {}" "bview s1 = apply_writes (bview s) (log_writes s)"
    "disk s1 = apply_writes (disk s) (log_writes s)" "dwrites s1 = dwrites s @ log_writes s" "bio_frame s s1"
    using write_log_loop_ok [OF wf st _ _ card _ area, of ?ts] by (auto simp: log_writes_def)
  note f1 = bio_frame_log [OF s1(6)] bio_frame_nbufs [OF s1(6)] bio_frame_rest(1) [OF s1(6)]
  have h1: "put_head (lh s) (bview s1 (log_start s)) = commit_head s"
    using s1(3) log_writes_other [OF wf] by (simp add: commit_head_def)
  obtain s2 where s2: "write_head s1 = Ret () s2" "bc_st s2 ?D {}" "bview s2 = (bview s1)(log_start s := commit_head s)"
    "disk s2 = (disk s1)(log_start s := commit_head s)" "dwrites s2 = dwrites s1 @ [(log_start s, commit_head s)]" "bio_frame s1 s2"
    using write_head_ok [of s1 ?D] s1(2) f1 card start e0(5) dev h1 by auto
  note f2 = bio_frame_log [OF s2(6)] bio_frame_nbufs [OF s2(6)] bio_frame_rest(1) [OF s2(6)]
  have wf2: "log_wf s2" using wf log_wf_frame [OF s1(6)] log_wf_frame [OF s2(6)] by simp
  have "bview s2 (log_start s + k + 1) = bview s (lh s ! k)" if "k < length (lh s)" for k
    using that s2(3) s1(3) log_writes_at by simp
  then have hw: "map (\<lambda>k. (lh s2 ! k, bview s2 (log_start s2 + k + 1))) [0..<length (lh s2)] = home_writes s"
    using f1 f2 by (auto simp: home_writes_def)
  obtain s3 where s3: "forK [0..<length (lh s2)] install_one s2 = Ret () s3"
    "bc_st s3 (?D - (\<lambda>k. lh s2 ! k) ` set [0..<length (lh s2)]) {}"
    "bview s3 = apply_writes (bview s2) (home_writes s)" "disk s3 = apply_writes (disk s2) (home_writes s)"
    "dwrites s3 = dwrites s2 @ home_writes s" "bio_frame s2 s3"
    using install_loop_ok [OF wf2 s2(2), of "[0..<length (lh s2)]"] card f1 f2 unfolding hw by auto
  have none: "?D - (\<lambda>k. lh s2 ! k) ` set [0..<length (lh s2)] = {}"
    using f1 f2 by (auto simp: in_set_conv_nth)
  have st3: "bc_st (s3\<lparr>lh := []\<rparr>) {} {}" using s3(2) unfolding none by simp
  note f3 = bio_frame_log [OF s3(6)] bio_frame_nbufs [OF s3(6)] bio_frame_rest(1) [OF s3(6)]
  have h2: "bview s3 (log_start s) = commit_head s"
    using s3(3) s2(3) home_writes_other [OF start] by simp
  obtain t where t: "write_head (s3\<lparr>lh := []\<rparr>) = Ret () t" "bc_st t {} {}"
    "bview t = (bview s3)(log_start s := put_head [] (commit_head s))"
    "disk t = (disk s3)(log_start s := put_head [] (commit_head s))"
    "dwrites t = dwrites s3 @ [(log_start s, put_head [] (commit_head s))]" "bio_frame (s3\<lparr>lh := []\<rparr>) t"
    using write_head_ok [OF _ _ st3] f1(1,3,7,8) f2(1,3,7,8) f3(1,3,7,8) e0(5) dev h2 nonempty by auto
  have "bio_frame s (t\<lparr>lh := lh s\<rparr>)"
    using bio_frame_lh [OF t(6)] f1(4) f2(4) f3(4)
      bio_frame_trans [OF s1(6) bio_frame_trans [OF s2(6) bio_frame_trans [OF s3(6)]]] by auto
  moreover have "commit s = Ret () t"
    using ne s1(1) s2(1) s3(1) t(1) f1(4) by (simp add: commit_def write_log_def install_trans_def)
  moreover have "lh t = []" using bio_frame_log(4) [OF t(6)] by simp
  ultimately show ?thesis
    using s1 s2 s3 t by (intro exI [of _ t]) (simp add: commit_writes_def)
qed

section \<open>The header block reads back\<close>

lemma word_at_append: "word_at (xs @ ys) (length xs + off) = word_at ys off"
  unfolding word_at_def by (rule rd32_cong) (simp add: cview_def nth_append)

lemma word_at_prefix: "off + 4 \<le> length xs \<Longrightarrow> word_at (xs @ ys) off = word_at xs off"
  unfolding word_at_def by (rule rd32_cong) (simp add: cview_def nth_append)

lemma word_at_le32: "v < 4294967296 \<Longrightarrow> word_at (le32 v @ r) 0 = v"
proof -
  assume v: "v < 4294967296"
  have "word_at (le32 v @ r) 0 = rd32 (\<lambda>i. (le32 v @ r) ! i)"
    unfolding word_at_def by (rule rd32_cong) simp
  with rd32_le32 [OF v] show ?thesis by simp
qed

lemma word_at_words:
  "\<forall>b \<in> set bl. b < 4294967296 \<Longrightarrow> i < length bl \<Longrightarrow> word_at (concat (map le32 bl)) (4 * i) = bl ! i"
proof (induction bl arbitrary: i)
  case (Cons x bl)
  show ?case
  proof (cases i)
    case 0
    with Cons show ?thesis using word_at_le32 [of x "concat (map le32 bl)"] by simp
  next
    case (Suc j)
    with Cons word_at_append [of "le32 x" "concat (map le32 bl)" "4 * j"] show ?thesis by simp
  qed
qed simp

lemma length_words [simp]: "length (concat (map le32 bl)) = 4 * length bl"
  by (induction bl) auto

definition head_ok :: "nat list \<Rightarrow> byte list \<Rightarrow> bool" where
  "head_ok bl d \<longleftrightarrow> length d = BSIZE \<and> length bl \<le> LOGSIZE \<and> (\<forall>b \<in> set bl. b < 4294967296)"

lemma put_head_reads:
  assumes "head_ok bl d"
  shows "head_n (put_head bl d) = int (length bl)" "head_blocks (put_head bl d) = bl"
    "length (put_head bl d) = BSIZE"
proof -
  have n: "length bl \<le> 30" and d: "length d = 512"
    using assms by (simp_all add: head_ok_def LOGSIZE_def MAXOPBLOCKS_def BSIZE_def)
  let ?h = "le32 (length bl) @ concat (map le32 bl)"
  have put: "put_head bl d = ?h @ drop (4 + 4 * length bl) d" by (simp add: put_head_def splice_def)
  have "word_at (put_head bl d) 0 = length bl"
    using n unfolding put append.assoc by (intro word_at_le32) simp
  moreover have "sint (of_nat (length bl) :: u32) = int (length bl)"
  proof -
    have "uint (of_nat (length bl) :: u32) = int (length bl)"
      using n by (simp add: unsigned_of_nat take_bit_nat_eq_self)
    then show ?thesis using n by (simp add: sint_uint signed_take_bit_int_eq_self)
  qed
  ultimately show hn: "head_n (put_head bl d) = int (length bl)" by (simp add: head_n_def)
  have "word_at (put_head bl d) (4 + 4 * i) = bl ! i" if "i < length bl" for i
  proof -
    have "word_at (put_head bl d) (4 + 4 * i) = word_at ?h (length (le32 (length bl)) + 4 * i)"
      unfolding put by (subst word_at_prefix) (use that in simp_all)
    also have "\<dots> = bl ! i"
      unfolding word_at_append using word_at_words [of bl i] assms that by (simp add: head_ok_def)
    finally show ?thesis .
  qed
  then show "head_blocks (put_head bl d) = bl"
    by (auto simp: head_blocks_def hn intro!: nth_equalityI)
  show "length (put_head bl d) = BSIZE" using n d by (simp add: put BSIZE_def)
qed

section \<open>Recovery\<close>

lemma read_head_ok:
  assumes dev: "log_dev s = 1" "log_start s < disksize s" and st: "bc_st s {} {}" and bufs: "bufs s \<noteq> []"
    and n: "head_n (disk s (log_start s)) \<le> int LOGSIZE"
  shows "\<exists>t. read_head s = Ret () (t\<lparr>lh := head_blocks (disk s (log_start s))\<rparr>) \<and> bc_st t {} {} \<and> disk t = disk s
     \<and> dwrites t = dwrites s \<and> bview t = bview s \<and> bio_frame s t"
proof -
  let ?b = "head_blocks (disk s (log_start s))"
  obtain i s1 where s1: "bread 1 (log_start s) s = Ret i s1" "b_data (bufs s1 ! i) = bview s (log_start s)"
    "bc_st s1 {} {log_start s}" "cached s1 (log_start s) i" "bview s1 = bview s" "disk s1 = disk s"
    "dwrites s1 = dwrites s" "bio_frame s s1"
    by (rule bio.read_block [OF st _ dev(2)]) (use bufs in auto)
  have clean: "bview s (log_start s) = disk s (log_start s)" by (rule bview_clean [OF st]) simp
  have c: "cached (s1\<lparr>lh := ?b\<rparr>) (log_start s) i" using s1(4) by (simp add: cached_def)
  have "bc_st (s1\<lparr>lh := ?b\<rparr>) {} {log_start s}" using s1(3) by simp
  from bio.put_law [OF this _ c] s1 clean obtain t where t: "brelse i (s1\<lparr>lh := ?b\<rparr>) = Ret () t" "bc_st t {} {}"
    "bview t = bview s" "disk t = disk s" "dwrites t = dwrites s" "bio_frame (s1\<lparr>lh := ?b\<rparr>) t"
    by auto
  have lh: "lh s1 = lh s" "lh t = ?b" using bio_frame_log(4) [OF s1(8)] bio_frame_log(4) [OF t(6)] by simp_all
  have run: "read_head s = Ret () t"
    using s1(1,2) t(1) clean dev n by (simp add: read_head_def)
  have fr: "bio_frame s (t\<lparr>lh := lh s\<rparr>)"
    using bio_frame_trans [OF s1(8)] bio_frame_lh [OF t(6)] lh by simp
  have "t = (t\<lparr>lh := lh s\<rparr>)\<lparr>lh := ?b\<rparr>" using lh(2) by simp
  with run t(2-5) fr show ?thesis by (intro exI [of _ "t\<lparr>lh := lh s\<rparr>"]) simp
qed

text \<open>The block writes of a recovery from a disk \<open>d\<close> whose log starts at block \<open>start\<close>.\<close>

definition recover_writes :: "(nat \<Rightarrow> byte list) \<Rightarrow> nat \<Rightarrow> (nat \<times> byte list) list" where
  "recover_writes d start =
     (let bl = head_blocks (d start)
      in map (\<lambda>k. (bl ! k, d (start + k + 1))) [0..<length bl] @ [(start, put_head [] (d start))])"

lemma recover_run:
  assumes st: "bc_st s {} {}" and bufs: "2 < length (bufs s)" and n: "head_n (disk s (log_start s)) \<le> int LOGSIZE"
    and wf: "log_wf (s\<lparr>lh := head_blocks (disk s (log_start s))\<rparr>)"
  shows "\<exists>t. recover_from_log s = Ret () t \<and> bc_st t {} {} \<and> lh t = []
     \<and> disk t = apply_writes (disk s) (recover_writes (disk s) (log_start s))"
proof -
  let ?b = "head_blocks (disk s (log_start s))"
  have dev: "log_dev s = 1" "log_start s < disksize s" using wf by (auto simp: log_wf_def)
  have "bufs s \<noteq> []" using bufs by auto
  obtain t1 where t1: "read_head s = Ret () (t1\<lparr>lh := ?b\<rparr>)" "bc_st t1 {} {}" "disk t1 = disk s" "bview t1 = bview s"
    "bio_frame s t1"
    using read_head_ok [OF dev st \<open>bufs s \<noteq> []\<close> n] by blast
  note f1 = bio_frame_log [OF t1(5)] bio_frame_nbufs [OF t1(5)] bio_frame_rest(1) [OF t1(5)]
  have all_clean: "bview s b = disk s b" for b by (rule bview_clean [OF st]) simp
  have wf1: "log_wf (t1\<lparr>lh := ?b\<rparr>)" using wf f1 by (simp add: log_wf_def log_area_def)
  have start: "log_start s \<notin> set ?b" using wf by (auto simp: log_wf_def log_area_def)
  let ?W = "map (\<lambda>k. (?b ! k, disk s (log_start s + k + 1))) [0..<length ?b]"
  have "bc_st (t1\<lparr>lh := ?b\<rparr>) {} {}" using t1(2) by simp
  from install_loop_ok [OF wf1 this, of "[0..<length ?b]"] bufs \<open>bufs s \<noteq> []\<close> f1(1,4,7,8) t1(3,4) all_clean obtain t2 where
    t2: "forK [0..<length ?b] install_one (t1\<lparr>lh := ?b\<rparr>) = Ret () t2" "bc_st t2 {} {}"
    "disk t2 = apply_writes (disk s) ?W" "bio_frame (t1\<lparr>lh := ?b\<rparr>) t2"
    by auto
  note f2 = bio_frame_log [OF t2(4)] bio_frame_nbufs [OF t2(4)] bio_frame_rest(1) [OF t2(4)]
  have hd: "disk t2 (log_start s) = disk s (log_start s)"
    unfolding t2(3) using start by (intro apply_writes_other) (auto simp: in_set_conv_nth)
  have "bc_st (t2\<lparr>lh := []\<rparr>) {} {}" using t2(2) by simp
  from write_head_ok [OF _ _ this] f1(1,3,7,8) f2(1,3,7,8) dev \<open>bufs s \<noteq> []\<close> obtain t where
    t: "write_head (t2\<lparr>lh := []\<rparr>) = Ret () t" "bc_st t {} {}"
    "disk t = (disk t2)(log_start s := put_head [] (bview t2 (log_start s)))" "bio_frame (t2\<lparr>lh := []\<rparr>) t"
    by auto
  have "bview t2 (log_start s) = disk t2 (log_start s)" by (rule bview_clean [OF t2(2)]) simp
  moreover have "recover_from_log s = Ret () t"
    using t1(1) t2(1) t(1) by (simp add: recover_from_log_def install_trans_def)
  moreover have "lh t = []" using bio_frame_log(4) [OF t(4)] by simp
  ultimately show ?thesis
    using t t2(3) hd by (intro exI [of _ t]) (simp add: recover_writes_def Let_def)
qed

section \<open>Crash safety\<close>

text \<open>A machine just booted from a disk, before \<^verbatim>\<open>initlog\<close> has run.\<close>

definition rebooted :: "(nat \<Rightarrow> byte list) \<Rightarrow> nat \<Rightarrow> lst" where
  "rebooted d n = bst.extend (booted d n)
     (lst.fields 0 0 0 False 0 [])"

lemma rebooted_simps [simp]:
  "disk (rebooted d n) = d" "disksize (rebooted d n) = n" "length (bufs (rebooted d n)) = NBUF"
  by (simp_all add: rebooted_def booted_def bst.defs)

lemma rebooted_st: "bc_st (rebooted d n) {} {}"
proof -
  have "\<not> cached (rebooted d n) b i" for b i
    by (auto simp: cached_def rebooted_def bst.defs booted_def zero_buf_def)
  then show ?thesis
    by (simp add: bc_st_def quiet_def rebooted_def bst.defs booted_def zero_buf_def atLeast0LessThan)
qed

lemma bc_st_logpos [simp]:
  "bc_st (s\<lparr>log_start := a, log_size := b, log_dev := c\<rparr>) = bc_st s"
  by (simp add: bc_st_def cached_def quiet_def curpid_def proc_at_def fun_eq_iff)

lemma initlog_run:
  assumes st: "bc_st s {} {}" and bufs: "2 < length (bufs s)" and sb: "decode_sb (disk s 1) = sb" "1 < disksize s"
    and n: "head_n (disk s (sb_logstart sb)) \<le> int LOGSIZE"
    and wf: "log_wf (s\<lparr>log_start := sb_logstart sb, log_size := sb_nlog sb, log_dev := 1,
                        lh := head_blocks (disk s (sb_logstart sb))\<rparr>)"
  shows "\<exists>t. initlog 1 s = Ret () t \<and> bc_st t {} {} \<and> lh t = []
     \<and> disk t = apply_writes (disk s) (recover_writes (disk s) (sb_logstart sb))"
proof -
  obtain i s1 t1 where r: "bread 1 1 s = Ret i s1" "b_data (bufs s1 ! i) = bview s 1" "brelse i s1 = Ret () t1"
    "bc_st t1 {} {}" "disk t1 = disk s" "bio_frame s t1"
    by (rule bio.read_block [OF st _ sb(2)]) (use bufs in auto)
  have "bview s 1 = disk s 1" by (rule bview_clean [OF st]) simp
  with r(1-3) sb(1) have rd: "readsb 1 s = Ret sb t1" by (simp add: readsb_def)
  note f = bio_frame_log [OF r(6)] bio_frame_nbufs [OF r(6)] bio_frame_rest(1) [OF r(6)]
  let ?t = "t1\<lparr>log_start := sb_logstart sb, log_size := sb_nlog sb, log_dev := 1\<rparr>"
  have "bc_st ?t {} {}" using r(4) by simp
  moreover have "log_wf (?t\<lparr>lh := head_blocks (disk ?t (log_start ?t))\<rparr>)"
    using wf f(8) r(5) by (simp add: log_wf_def log_area_def)
  ultimately obtain t where t: "recover_from_log ?t = Ret () t" "bc_st t {} {}" "lh t = []"
    "disk t = apply_writes (disk s) (recover_writes (disk s) (sb_logstart sb))"
    using recover_run [of ?t] bufs n f(7) r(5) by auto
  have "initlog 1 s = Ret () t"
    using rd t(1) by (simp add: initlog_def LOGSIZE_def MAXOPBLOCKS_def BSIZE_def)
  with t show ?thesis by blast
qed

text \<open>The disk after a crash that lets the first \<open>k\<close> block writes of the commit through.\<close>

definition crash_disk :: "'z lst_scheme \<Rightarrow> nat \<Rightarrow> nat \<Rightarrow> byte list" where
  "crash_disk s k = apply_writes (disk s) (take k (commit_writes s))"

text \<open>What the disk and the transaction are assumed to be like when a commit starts.\<close>

definition crash_ready :: "'z lst_scheme \<Rightarrow> bool" where
  "crash_ready s \<longleftrightarrow> commit_ready s \<and> head_ok (lh s) (disk s (log_start s))
     \<and> head_n (disk s (log_start s)) = 0
     \<and> sb_logstart (decode_sb (disk s 1)) = log_start s \<and> sb_nlog (decode_sb (disk s 1)) = log_size s
     \<and> 1 \<notin> log_area s \<and> 1 \<notin> set (lh s) \<and> 1 < disksize s"

lemma crash_disk_cases:
  assumes "log_wf s"
  defines "n \<equiv> length (lh s)"
  shows "k \<le> n \<Longrightarrow> b \<notin> log_area s \<or> b = log_start s \<Longrightarrow> crash_disk s k b = disk s b"
    and "n < k \<Longrightarrow> k \<le> 2 * n + 1 \<Longrightarrow> crash_disk s k (log_start s) = commit_head s"
    and "2 * n + 1 < k \<Longrightarrow> crash_disk s k (log_start s) = put_head [] (commit_head s)"
    and "n < k \<Longrightarrow> j < n \<Longrightarrow> crash_disk s k (log_start s + j + 1) = bview s (lh s ! j)"
    and "n < k \<Longrightarrow> b \<notin> log_area s \<Longrightarrow> b \<notin> set (lh s) \<Longrightarrow> crash_disk s k b = disk s b"
    and "2 * n + 1 < k \<Longrightarrow> b \<in> set (lh s) \<Longrightarrow> crash_disk s k b = bview s b"
proof -
  have len: "length (log_writes s) = n" "length (home_writes s) = n"
    by (simp_all add: log_writes_def home_writes_def n_def)
  have tk: "take k (commit_writes s) = take k (log_writes s) @ take (k - n) [(log_start s, commit_head s)]
      @ take (k - n - 1) (home_writes s) @ take (k - n - 1 - n) [(log_start s, put_head [] (commit_head s))]"
    by (cases "k - n") (simp_all add: commit_writes_def len take_Cons')
  have area: "set (lh s) \<inter> log_area s = {}" "n < log_size s" using assms by (auto simp: log_wf_def)
  have sub: "fst ` set (take j (home_writes s)) \<subseteq> set (lh s)" for j
    by (metis home_writes_fst image_mono list.set_map set_take_subset)
  have hw: "b \<notin> set (lh s) \<Longrightarrow> apply_writes d (take j (home_writes s)) b = d b" for b j d
    using sub by (intro apply_writes_other) blast
  have start: "log_start s \<notin> set (lh s)" "log_start s \<in> log_area s" using area by (auto simp: log_area_def)
  have logb: "log_start s + j + 1 \<notin> set (lh s)" if "j < n" for j
    using area that by (auto simp: log_area_def)
  { assume "k \<le> n" "b \<notin> log_area s \<or> b = log_start s"
    moreover have "fst ` set (take k (log_writes s)) \<subseteq> {log_start s + j + 1 |j. j < n}"
      using set_take_subset [of k "log_writes s"] by (auto simp: log_writes_def n_def)
    ultimately show "crash_disk s k b = disk s b"
      unfolding crash_disk_def tk using area by (auto intro!: apply_writes_other simp: log_area_def) }
  { assume "n < k" "k \<le> 2 * n + 1"
    then show "crash_disk s k (log_start s) = commit_head s"
      by (simp add: crash_disk_def tk len hw start(1)) }
  { assume "2 * n + 1 < k"
    then show "crash_disk s k (log_start s) = put_head [] (commit_head s)"
      by (simp add: crash_disk_def tk len) }
  { assume "n < k" "j < n"
    then show "crash_disk s k (log_start s + j + 1) = bview s (lh s ! j)"
      using log_writes_at [of j s] logb [of j]
      by (cases "k - n - 1 - n") (simp_all add: crash_disk_def tk len hw n_def home_writes_other) }
  { assume "n < k" "b \<notin> log_area s" "b \<notin> set (lh s)"
    then show "crash_disk s k b = disk s b"
      using log_writes_other [OF assms(1), of b] start(2)
      by (cases "k - n - 1 - n") (auto simp: crash_disk_def tk len hw home_writes_other) }
  { assume "2 * n + 1 < k" "b \<in> set (lh s)"
    then show "crash_disk s k b = bview s b"
      using home_writes_at [OF assms(1)] start(1) by (auto simp: crash_disk_def tk len) }
qed

lemma recover_empty:
  "head_n (d a) = 0 \<Longrightarrow> apply_writes d (recover_writes d a) = d(a := put_head [] (d a))"
  by (simp add: recover_writes_def head_blocks_def)

lemma recover_install:
  assumes "distinct (head_blocks (d a))" "b \<noteq> a" "a \<notin> set (head_blocks (d a))"
    "\<forall>j < length (head_blocks (d a)). d (a + j + 1) = v (head_blocks (d a) ! j)"
  shows "apply_writes d (recover_writes d a) b = (if b \<in> set (head_blocks (d a)) then v b else d b)"
proof -
  let ?W = "map (\<lambda>k. (head_blocks (d a) ! k, d (a + k + 1))) [0..<length (head_blocks (d a))]"
  have fst: "map fst ?W = head_blocks (d a)" by (simp add: comp_def map_nth)
  have "apply_writes d ?W b = (if b \<in> set (head_blocks (d a)) then v b else d b)"
  proof (cases "b \<in> set (head_blocks (d a))")
    case True
    then have "(b, v b) \<in> set ?W" using assms(4) by (auto simp: in_set_conv_nth)
    with assms(1) fst True show ?thesis using apply_writes_at [of ?W b "v b" d] by simp
  next
    case False
    then have "b \<notin> fst ` set ?W" using fst by (metis list.set_map)
    with False show ?thesis by (simp add: apply_writes_other)
  qed
  with assms(2) show ?thesis by (simp add: recover_writes_def Let_def)
qed

lemma crash_head:
  assumes "crash_ready s"
  shows "k \<le> length (lh s) \<or> 2 * length (lh s) + 1 < k \<Longrightarrow> head_n (crash_disk s k (log_start s)) = 0"
    and "length (lh s) < k \<Longrightarrow> k \<le> 2 * length (lh s) + 1 \<Longrightarrow>
      head_n (crash_disk s k (log_start s)) = int (length (lh s)) \<and> head_blocks (crash_disk s k (log_start s)) = lh s"
proof -
  have wf: "log_wf s" and st: "bc_st s (set (lh s)) {}" and h: "head_ok (lh s) (disk s (log_start s))"
    using assms by (auto simp: crash_ready_def commit_ready_def)
  have "log_start s \<notin> set (lh s)" using wf by (auto simp: log_wf_def log_area_def)
  then have "bview s (log_start s) = disk s (log_start s)" using bview_clean [OF st] by simp
  with h have ch: "head_n (commit_head s) = int (length (lh s))" "head_blocks (commit_head s) = lh s"
    "head_ok [] (commit_head s)"
    using put_head_reads [OF h] by (simp_all add: commit_head_def head_ok_def)
  note c = crash_disk_cases [OF wf, of k]
  show "head_n (crash_disk s k (log_start s)) = 0" if "k \<le> length (lh s) \<or> 2 * length (lh s) + 1 < k"
    using that c(1) [of "log_start s"] c(3) put_head_reads(1) [OF ch(3)] assms
    by (auto simp: crash_ready_def)
  show "head_n (crash_disk s k (log_start s)) = int (length (lh s)) \<and> head_blocks (crash_disk s k (log_start s)) = lh s"
    if "length (lh s) < k" "k \<le> 2 * length (lh s) + 1"
    using c(2) [OF that] ch by simp
qed

lemma crash_recover:
  assumes ready: "crash_ready s" and b: "b \<notin> log_area s"
  shows "apply_writes (crash_disk s k) (recover_writes (crash_disk s k) (log_start s)) b
     = (if k \<le> length (lh s) then disk s b else bview s b)"
proof -
  let ?d = "crash_disk s k" and ?n = "length (lh s)"
  have wf: "log_wf s" and st: "bc_st s (set (lh s)) {}"
    using ready by (auto simp: crash_ready_def commit_ready_def)
  have ne: "b \<noteq> log_start s" using b wf by (auto simp: log_wf_def log_area_def)
  have clean: "b \<notin> set (lh s) \<Longrightarrow> bview s b = disk s b" using bview_clean [OF st] by simp
  note c = crash_disk_cases [OF wf, of k] and h = crash_head [OF ready, of k]
  consider "k \<le> ?n" | "?n < k" "k \<le> 2 * ?n + 1" | "2 * ?n + 1 < k" by linarith
  then show ?thesis
  proof cases
    case 1
    then show ?thesis using h(1) recover_empty [of ?d "log_start s"] c(1) [of b] b ne by simp
  next
    case 2
    have "log_start s \<notin> set (lh s)" "distinct (lh s)" using wf by (auto simp: log_wf_def log_area_def)
    then have "apply_writes ?d (recover_writes ?d (log_start s)) b = (if b \<in> set (lh s) then bview s b else ?d b)"
      using recover_install [of ?d "log_start s" b "bview s"] h(2) [OF 2] ne c(4) 2 by simp
    with 2 clean c(5) [of b] b show ?thesis by auto
  next
    case 3
    then have "?d b = bview s b" using c(5,6) [of b] clean b by fastforce
    with 3 show ?thesis using h(1) recover_empty [of ?d "log_start s"] ne by simp
  qed
qed

lemma crash_initlog:
  assumes ready: "crash_ready s"
  shows "\<exists>t. initlog 1 (rebooted (crash_disk s k) (disksize s)) = Ret () t \<and> bc_st t {} {} \<and> lh t = []
     \<and> disk t = apply_writes (crash_disk s k) (recover_writes (crash_disk s k) (log_start s))"
proof -
  let ?d = "crash_disk s k" and ?n = "length (lh s)"
  have wf: "log_wf s" and small: "?n \<le> LOGSIZE"
    using ready by (auto simp: crash_ready_def commit_ready_def head_ok_def)
  note c = crash_disk_cases [OF wf, of k] and h = crash_head [OF ready, of k]
  have "?d 1 = disk s 1" using c(1,5) [of 1] ready by (cases "k \<le> ?n") (auto simp: crash_ready_def)
  then have sb: "sb_logstart (decode_sb (?d 1)) = log_start s" "sb_nlog (decode_sb (?d 1)) = log_size s"
    using ready by (simp_all add: crash_ready_def)
  have bl: "head_blocks (?d (log_start s)) = [] \<or> head_blocks (?d (log_start s)) = lh s"
    "head_n (?d (log_start s)) \<le> int LOGSIZE"
    using h small by (cases "k \<le> ?n"; cases "2 * ?n + 1 < k"; simp add: head_blocks_def)+
  have "log_wf ((rebooted ?d (disksize s))\<lparr>log_start := log_start s, log_size := log_size s, log_dev := 1,
      lh := head_blocks (?d (log_start s))\<rparr>)"
    using bl(1) wf by (auto simp: log_wf_def log_area_def)
  then show ?thesis
    using initlog_run [OF rebooted_st [of ?d "disksize s"] _ refl] bl(2) sb ready
    by (simp add: crash_ready_def NBUF_def MAXOPBLOCKS_def)
qed

text \<open>
  C14. A commit is atomic across a crash. A transaction that is ready to commit commits without
  panicking; the block writes it issues are those the disk sees, and if the machine stops after
  any number \<open>k\<close> of them, booting from what is then on the disk and running \<^verbatim>\<open>initlog\<close> gives
  a disk on which every block outside the log has its old content or every block has its new
  content: the old one as long as the header write has not happened, the new one from then on.
\<close>

theorem commit_crash_atomic:
  assumes "crash_ready s"
  shows "\<exists>t. commit s = Ret () t \<and> take (length (dwrites s)) (dwrites t) = dwrites s
    \<and> disk t = apply_writes (disk s) (drop (length (dwrites s)) (dwrites t))
    \<and> (\<forall>k. \<exists>r. initlog 1 (rebooted (apply_writes (disk s) (take k (drop (length (dwrites s)) (dwrites t)))) (disksize s)) = Ret () r
         \<and> lh r = [] \<and> (\<forall>b. b \<notin> log_area s \<longrightarrow> disk r b = (if k \<le> length (lh s) then disk s b else bview s b)))"
proof -
  have "commit_ready s" using assms by (simp add: crash_ready_def)
  then obtain t where t: "commit s = Ret () t" "dwrites t = dwrites s @ commit_writes s"
    "disk t = apply_writes (disk s) (commit_writes s)"
    using commit_run by blast
  have "\<exists>r. initlog 1 (rebooted (crash_disk s k) (disksize s)) = Ret () r \<and> lh r = []
      \<and> (\<forall>b. b \<notin> log_area s \<longrightarrow> disk r b = (if k \<le> length (lh s) then disk s b else bview s b))" for k
    using crash_initlog [OF assms, of k] crash_recover [OF assms, of _ k] by force
  with t show ?thesis by (intro exI [of _ t]) (simp add: crash_disk_def)
qed

definition demo_disk :: "nat \<Rightarrow> byte list" where
  "demo_disk b = (if b = 1 then concat (map le32 [3000, 2900, 200, 30, 2, 32, 58]) @ replicate 484 0
     else replicate 512 0)"

definition demo_txn :: lst where
  "demo_txn = (rebooted demo_disk 3000)\<lparr>bufs := (replicate NBUF zero_buf)[0 := \<lparr>b_valid = True, b_dirty = True,
     b_dev = 1, b_blockno = 100, b_refcnt = 0, b_data = replicate 512 7\<rparr>],
     log_start := 2, log_size := 30, log_dev := 1, lh := [100]\<rparr>"

lemma demo_sb: "decode_sb (demo_disk 1) = \<lparr>sb_size = 3000, sb_nblocks = 2900, sb_ninodes = 200, sb_nlog = 30,
    sb_logstart = 2, sb_inodestart = 32, sb_bmapstart = 58\<rparr>"
  by (simp add: decode_sb_def demo_disk_def word_at_def rd32_def le32_def cview_def nth_append nth_Cons')

lemma demo_txn_cached: "cached demo_txn b i \<longleftrightarrow> b = 100 \<and> i = 0"
  by (auto simp: cached_def demo_txn_def NBUF_def MAXOPBLOCKS_def zero_buf_def nth_list_update)

lemma demo_txn_view: "bview demo_txn 100 = replicate 512 7"
  by (simp add: bview_def demo_txn_cached) (simp add: demo_txn_def NBUF_def MAXOPBLOCKS_def upt_conv_Cons)

lemma demo_txn_ready: "crash_ready demo_txn"
proof -
  have "bc_st demo_txn {100} {}"
    unfolding bc_st_def demo_txn_cached
    by (auto simp: demo_txn_def quiet_def rebooted_def bst.defs booted_def NBUF_def MAXOPBLOCKS_def zero_buf_def nth_list_update)
  then show ?thesis
    using demo_sb
    by (auto simp: crash_ready_def commit_ready_def log_wf_def log_area_def head_ok_def demo_txn_def NBUF_def MAXOPBLOCKS_def
        LOGSIZE_def BSIZE_def demo_disk_def head_n_def word_at_def rd32_def cview_def)
qed

theorem commit_crash_atomic_witness:
  "crash_ready demo_txn \<and> (\<exists>t. commit demo_txn = Ret () t
    \<and> (\<exists>r. initlog 1 (rebooted (apply_writes demo_disk (take 1 (dwrites t))) 3000) = Ret () r \<and> disk r 100 = replicate 512 0)
    \<and> (\<exists>r. initlog 1 (rebooted (apply_writes demo_disk (take 2 (dwrites t))) 3000) = Ret () r \<and> disk r 100 = replicate 512 7))"
proof -
  have f: "dwrites demo_txn = []" "disk demo_txn = demo_disk" "disksize demo_txn = 3000" "lh demo_txn = [100]"
    "100 \<notin> log_area demo_txn"
    by (simp_all add: demo_txn_def rebooted_def bst.defs booted_def log_area_def)
  obtain t where t: "commit demo_txn = Ret () t" and c:
    "\<And>k. \<exists>r. initlog 1 (rebooted (apply_writes demo_disk (take k (dwrites t))) 3000) = Ret () r
       \<and> (\<forall>b. b \<notin> log_area demo_txn \<longrightarrow> disk r b = (if k \<le> 1 then demo_disk b else bview demo_txn b))"
    using commit_crash_atomic [OF demo_txn_ready] unfolding f by (simp add: One_nat_def) blast
  have "demo_disk 100 = replicate 512 0" by (simp add: demo_disk_def)
  with c [of 1] c [of 2] t demo_txn_ready f(5) demo_txn_view show ?thesis by fastforce
qed

section \<open>Inside a transaction\<close>

text \<open>A process between \<^verbatim>\<open>begin_op\<close> and \<^verbatim>\<open>end_op\<close> with the logged blocks dirty in the cache.\<close>

definition in_txn :: "'z lst_scheme \<Rightarrow> nat set \<Rightarrow> bool" where
  "in_txn s H \<longleftrightarrow> bc_st s (set (lh s)) H \<and> distinct (lh s) \<and> 1 \<le> log_outstanding s \<and> L_log \<notin> set (held s)"

lemma log_write_ok:
  assumes txn: "in_txn s H" and b: "b \<in> H" "cached s b i" and room: "length (lh s) < LOGSIZE" "length (lh s) + 1 < log_size s"
  shows "log_write i s = Ret () (s\<lparr>bufs := upd_at i (\<lambda>x. x\<lparr>b_dirty := True\<rparr>) (bufs s),
      lh := if b \<in> set (lh s) then lh s else lh s @ [b]\<rparr>)"
proof -
  have [simp]: "b_blockno (bufs s ! i) = b" using b(2) by (simp add: cached_def)
  show ?thesis
    using txn room by (simp add: log_write_def in_txn_def lock_simps buf_at_def)
qed

lemma log_write_stays_in_txn:
  assumes "in_txn s H" "b \<in> H" "cached s b i" "length (lh s) < LOGSIZE" "length (lh s) + 1 < log_size s"
  defines "t \<equiv> s\<lparr>bufs := upd_at i (\<lambda>x. x\<lparr>b_dirty := True\<rparr>) (bufs s), lh := if b \<in> set (lh s) then lh s else lh s @ [b]\<rparr>"
  shows "log_write i s = Ret () t" "in_txn t H" "bview t = bview s" "cached t c j = cached s c j"
proof -
  have st: "bc_st s (set (lh s)) H" using assms(1) by (simp add: in_txn_def)
  note d = bdirty_ok [OF st assms(2,3)]
  show "log_write i s = Ret () t" unfolding t_def by (rule log_write_ok [OF assms(1-5)])
  show "in_txn t H" using assms(1) d(1) by (auto simp: in_txn_def t_def insert_absorb)
  show "bview t = bview s" using d(2) by (simp add: t_def)
  show "cached t c j = cached s c j" using d(3) [of c j] by (simp add: t_def cached_def)
qed

text \<open>
  C16. \<^verbatim>\<open>log_write\<close> on a locked buffer records its block in the log once (a block written twice is
  absorbed), marks the buffer dirty so that \<^verbatim>\<open>bget\<close> does not recycle it, changes no block content, and
  keeps the invariant that the logged blocks are exactly the dirty ones; a transaction that has
  reached the limit panics instead.
\<close>

theorem log_write_correct:
  assumes "in_txn s H" "b \<in> H" "cached s b i"
  shows "(length (lh s) \<ge> LOGSIZE \<or> length (lh s) + 1 \<ge> log_size s \<longrightarrow> log_write i s = Panic ''too big a transaction'')
    \<and> (length (lh s) < LOGSIZE \<and> length (lh s) + 1 < log_size s \<longrightarrow>
      (\<exists>t. log_write i s = Ret () t \<and> in_txn t H \<and> set (lh t) = insert b (set (lh s))
         \<and> (b \<in> set (lh s) \<longrightarrow> lh t = lh s) \<and> length (lh t) < log_size t
         \<and> bview t = bview s \<and> disk t = disk s \<and> cached t b i))"
proof (cases "length (lh s) < LOGSIZE \<and> length (lh s) + 1 < log_size s")
  case True
  then show ?thesis
    using log_write_stays_in_txn [OF assms] assms(3) by auto
next
  case False
  then show ?thesis by (auto simp: log_write_def)
qed

definition demo_op :: lst where
  "demo_op = demo_txn\<lparr>slk := (slk demo_txn)(SL_buf 0 := \<lparr>sl_locked = True, sl_pid = 1\<rparr>),
     bufs := (bufs demo_txn)[0 := (bufs demo_txn ! 0)\<lparr>b_refcnt := 1\<rparr>], log_outstanding := 1\<rparr>"

lemma demo_op_txn: "in_txn demo_op {100}" "cached demo_op b i \<longleftrightarrow> b = 100 \<and> i = 0"
proof -
  show c: "cached demo_op b i \<longleftrightarrow> b = 100 \<and> i = 0" for b i
    by (auto simp: cached_def demo_op_def demo_txn_def NBUF_def MAXOPBLOCKS_def zero_buf_def nth_list_update)
  have "bc_st demo_op {100} {100}"
    unfolding bc_st_def c
    by (auto simp: demo_op_def demo_txn_def quiet_def curpid_def rebooted_def bst.defs booted_def NBUF_def MAXOPBLOCKS_def
        zero_buf_def nth_list_update demo_proc_def proc_at_def)
  then show "in_txn demo_op {100}"
    by (simp add: in_txn_def demo_op_def demo_txn_def rebooted_def bst.defs booted_def)
qed

theorem log_write_correct_witness:
  "in_txn demo_op {100} \<and> cached demo_op 100 0
   \<and> (\<exists>t. log_write 0 demo_op = Ret () t \<and> in_txn t {100} \<and> lh t = [100])"
proof -
  have "lh demo_op = [100]" "log_size demo_op = 30" by (simp_all add: demo_op_def demo_txn_def)
  with log_write_correct [OF demo_op_txn(1), of 100 0] demo_op_txn show ?thesis
    by (auto simp: LOGSIZE_def MAXOPBLOCKS_def)
qed

section \<open>Beginning and ending operations\<close>

lemma bc_st_flags [simp]:
  "bc_st (s\<lparr>log_outstanding := n\<rparr>) = bc_st s" "bc_st (s\<lparr>log_committing := c\<rparr>) = bc_st s"
  "bview (s\<lparr>log_outstanding := n\<rparr>) = bview s" "bview (s\<lparr>log_committing := c\<rparr>) = bview s"
  by (simp_all add: bc_st_def bview_def cached_def quiet_def curpid_def proc_at_def fun_eq_iff split: option.split)

lemma bc_st_wake [simp]:
  "bview (s\<lparr>procs := ps\<rparr>) = bview s"
  "bc_st s D H \<Longrightarrow> bc_st (s\<lparr>procs := map (wake_if c) (procs s)\<rparr>) D H"
proof -
  have [simp]: "cached (s\<lparr>procs := qs\<rparr>) = cached s" for qs by (simp add: cached_def fun_eq_iff)
  show "bview (s\<lparr>procs := ps\<rparr>) = bview s" by (simp add: bview_def fun_eq_iff split: option.split)
  assume st: "bc_st s D H"
  then have "curpid (s\<lparr>procs := map (wake_if c) (procs s)\<rparr>) = curpid s"
    by (intro curpid_wake) (auto simp: bc_st_def quiet_def)
  with st show "bc_st (s\<lparr>procs := map (wake_if c) (procs s)\<rparr>) D H" by (simp add: bc_st_def)
qed

text \<open>The transaction as the last operation in it finds it when it ends.\<close>

definition op_ready :: "'z lst_scheme \<Rightarrow> bool" where
  "op_ready s \<longleftrightarrow> log_wf s \<and> bc_st s (set (lh s)) {} \<and> length (lh s) < length (bufs s)
     \<and> L_log \<notin> set (held s) \<and> \<not> log_committing s"

lemma commit_ok:
  assumes "log_wf s" "bc_st s (set (lh s)) {}" "length (lh s) < length (bufs s)"
  shows "\<exists>t. commit s = Ret () t \<and> bc_st t {} {} \<and> lh t = []
    \<and> (\<forall>b. b \<notin> log_area s \<longrightarrow> disk t b = bview s b) \<and> bio_frame s (t\<lparr>lh := lh s\<rparr>)"
proof (cases "lh s = []")
  case True
  then have "bview s b = disk s b" for b using bview_clean [OF assms(2)] by simp
  moreover have "bio_frame s (s\<lparr>lh := lh s\<rparr>)" by simp
  ultimately show ?thesis using True assms by (intro exI [of _ s]) (simp add: commit_def)
next
  case False
  with assms have "commit_ready s" by (simp add: commit_ready_def)
  then obtain t where t: "commit s = Ret () t" "bc_st t {} {}" "lh t = []" "bio_frame s (t\<lparr>lh := lh s\<rparr>)"
    "disk t = apply_writes (disk s) (commit_writes s)"
    using commit_run by blast
  have "disk t b = bview s b" if b: "b \<notin> log_area s" for b
  proof -
    have "b \<noteq> log_start s" "log_start s \<notin> set (lh s)" using b assms(1) by (auto simp: log_wf_def log_area_def)
    moreover have "b \<notin> set (lh s) \<Longrightarrow> bview s b = disk s b" using bview_clean [OF assms(2)] by simp
    ultimately show ?thesis
      using log_writes_other [OF assms(1), of b] b home_writes_at [OF assms(1), of b] home_writes_other [of b s]
      by (cases "b \<in> set (lh s)") (simp_all add: t(5) commit_writes_def)
  qed
  with t show ?thesis by blast
qed

text \<open>
  C15. The end of an operation. While others of the transaction are still running it only
  gives its reservation back; the last one commits: afterwards every block outside the log is on
  the disk with the content it had in the cache, the log is empty and no buffer is dirty. In both
  cases the lock is free again and whoever waits in \<^verbatim>\<open>begin_op\<close> has been woken.
\<close>

theorem end_op_correct:
  assumes "op_ready s" "1 \<le> log_outstanding s"
  shows "\<exists>t. end_op s = Ret () t \<and> log_outstanding t = log_outstanding s - 1 \<and> \<not> log_committing t
    \<and> held t = held s \<and> (\<forall>p \<in> set (procs t). \<not> (p_state p = SLEEPING \<and> p_chan p = Some Ch_log))
    \<and> (if log_outstanding s = 1
       then lh t = [] \<and> bc_st t {} {} \<and> (\<forall>b. b \<notin> log_area s \<longrightarrow> disk t b = bview s b)
       else lh t = lh s \<and> disk t = disk s \<and> bview t = bview s)"
proof -
  let ?wake = "\<lambda>t. t\<lparr>procs := map (wake_if (Some Ch_log)) (procs t)\<rparr>"
  have woken: "\<forall>p \<in> set (procs (?wake t)). \<not> (p_state p = SLEEPING \<and> p_chan p = Some Ch_log)" for t :: "'a lst_scheme"
    by (auto simp: wake_if_def)
  have free: "L_log \<notin> set (held s)" "L_ptable \<notin> set (held s)"
    using assms by (auto simp: op_ready_def bc_st_def quiet_def)
  have idle: "\<not> log_committing s" using assms by (simp add: op_ready_def)
  show ?thesis
  proof (cases "log_outstanding s = 1")
    case False
    have ws: "wakeup Ch_log (s\<lparr>held := L_log # held s, log_outstanding := log_outstanding s - 1\<rparr>)
      = Ret () (?wake (s\<lparr>held := L_log # held s, log_outstanding := log_outstanding s - 1\<rparr>))"
      using free by (intro wakeup_eq) simp
    have "end_op s = Ret () (?wake (s\<lparr>log_outstanding := log_outstanding s - 1\<rparr>))"
      using False idle free by (simp add: end_op_def lock_simps ws)
    with False assms woken [of "s\<lparr>log_outstanding := log_outstanding s - 1\<rparr>"] show ?thesis
      by (simp add: op_ready_def)
  next
    case True
    let ?s = "s\<lparr>log_outstanding := 0, log_committing := True\<rparr>"
    have "log_wf ?s" "bc_st ?s (set (lh ?s)) {}" "length (lh ?s) < length (bufs ?s)"
      using assms(1) by (simp_all add: op_ready_def log_wf_def log_area_def)
    from commit_ok [OF this] obtain t where t: "commit ?s = Ret () t" "bc_st t {} {}" "lh t = []"
      "\<And>b. b \<notin> log_area s \<Longrightarrow> disk t b = bview s b" "bio_frame ?s (t\<lparr>lh := lh s\<rparr>)"
      by (auto simp: log_area_def)
    have f: "held t = held s" "log_outstanding t = 0"
      using bio_frame_rest(2) [OF t(5)] bio_frame_log(5) [OF t(5)] by simp_all
    let ?t = "t\<lparr>log_committing := False\<rparr>"
    have wt: "wakeup Ch_log (t\<lparr>held := L_log # held s, log_committing := False\<rparr>)
      = Ret () (?wake (t\<lparr>held := L_log # held s, log_committing := False\<rparr>))"
      using free by (intro wakeup_eq) simp
    have "end_op s = Ret () (?wake ?t)"
      using True idle free t(1) f(1) by (simp add: end_op_def lock_simps wt)
    moreover have "bc_st (?wake ?t) {} {}" by (rule bc_st_wake(2)) (simp add: t(2))
    ultimately show ?thesis using True t f woken [of ?t] by simp
  qed
qed

theorem end_op_correct_witness:
  "\<exists>t. end_op (demo_txn\<lparr>log_outstanding := 1\<rparr>) = Ret () t \<and> disk t 100 = replicate 512 7 \<and> lh t = []"
proof -
  let ?s = "demo_txn\<lparr>log_outstanding := 1\<rparr>"
  have "log_committing demo_txn = False" "held demo_txn = []"
    by (simp_all add: demo_txn_def rebooted_def bst.defs lst.defs booted_def)
  then have "op_ready ?s"
    using demo_txn_ready by (simp add: op_ready_def crash_ready_def commit_ready_def log_wf_def log_area_def)
  moreover have "100 \<notin> log_area ?s" by (simp add: log_area_def demo_txn_def)
  ultimately show ?thesis using end_op_correct [of ?s] demo_txn_view by auto
qed

end
