(* ===== verification/Fs.thy ===== *)
theory Fs
  imports Log
begin

text \<open>
  fs.c, fs.h and the inode of file.h: the block allocator, inodes and the inode cache,
  file content, directories and path names, with the owner and mode bits of this kernel.

  An inode pointer is an index into \<^verbatim>\<open>icache.inode\<close>; \<open>None\<close> is the null pointer. A
  \<^verbatim>\<open>short\<close> field is the signed number it holds; sizes and offsets are 32-bit words. \<^verbatim>\<open>readi\<close>
  returns the bytes it copies to \<^verbatim>\<open>dst\<close>, \<^verbatim>\<open>writei\<close> takes the bytes at \<^verbatim>\<open>src\<close>. The table
  \<^verbatim>\<open>devsw\<close> of device functions is an argument. The message \<^verbatim>\<open>iinit\<close> prints is left out.
\<close>

section \<open>Constants and data\<close>

definition ROOTINO :: nat where "ROOTINO = 1"
definition NDIRECT :: nat where "NDIRECT = 7"
definition NINDIRECT :: nat where "NINDIRECT = BSIZE div 4"
definition MAXFILE :: nat where "MAXFILE = NDIRECT + NINDIRECT"
definition MODE_RUSR :: u32 where "MODE_RUSR = 32"
definition MODE_WUSR :: u32 where "MODE_WUSR = 16"
definition MODE_XUSR :: u32 where "MODE_XUSR = 8"
definition MODE_ROTH :: u32 where "MODE_ROTH = 4"
definition MODE_WOTH :: u32 where "MODE_WOTH = 2"
definition MODE_XOTH :: u32 where "MODE_XOTH = 1"
definition IPB :: nat where "IPB = BSIZE div 64"
definition BPB :: nat where "BPB = BSIZE * 8"
definition DIRSIZ :: nat where "DIRSIZ = 14"
definition T_DIR :: int where "T_DIR = 1"
definition T_FILE :: int where "T_FILE = 2"
definition T_DEV :: int where "T_DEV = 3"

lemmas fs_consts = NDIRECT_def NINDIRECT_def MAXFILE_def IPB_def BPB_def DIRSIZ_def BSIZE_def
lemmas mode_defs = MODE_RUSR_def MODE_WUSR_def MODE_XUSR_def MODE_ROTH_def MODE_WOTH_def MODE_XOTH_def
lemmas type_defs = T_DIR_def T_FILE_def T_DEV_def

definition IBLOCK :: "nat \<Rightarrow> superblock \<Rightarrow> nat" where
  "IBLOCK i sb = i div IPB + sb_inodestart sb"

definition BBLOCK :: "nat \<Rightarrow> superblock \<Rightarrow> nat" where
  "BBLOCK b sb = b div BPB + sb_bmapstart sb"

record dinode =
  d_type :: int
  d_major :: int
  d_minor :: int
  d_nlink :: int
  d_size :: u32
  d_addrs :: "nat list"
  d_id :: "byte list"
  d_mode :: u32

text \<open>The 64 bytes of a disk inode.\<close>

definition le_short :: "int \<Rightarrow> byte list" where
  "le_short i = le16 (nat (i mod 65536))"

definition short_at :: "byte list \<Rightarrow> nat \<Rightarrow> int" where
  "short_at d off = to_short (int (rd16 (\<lambda>i. cview d (off + i))))"

definition enc_dinode :: "dinode \<Rightarrow> byte list" where
  "enc_dinode di = le_short (d_type di) @ le_short (d_major di) @ le_short (d_minor di)
     @ le_short (d_nlink di) @ le32 (unat (d_size di)) @ concat (map le32 (d_addrs di)) @ d_id di
     @ le32 (unat (d_mode di))"

definition dec_dinode :: "byte list \<Rightarrow> nat \<Rightarrow> dinode" where
  "dec_dinode d off = \<lparr>d_type = short_at d off, d_major = short_at d (off + 2),
     d_minor = short_at d (off + 4), d_nlink = short_at d (off + 6),
     d_size = of_nat (word_at d (off + 8)),
     d_addrs = map (\<lambda>i. word_at d (off + 12 + 4 * i)) [0..<NDIRECT + 1],
     d_id = take 16 (drop (off + 44) d), d_mode = of_nat (word_at d (off + 60))\<rparr>"

definition zero_dinode :: dinode where
  "zero_dinode = \<lparr>d_type = 0, d_major = 0, d_minor = 0, d_nlink = 0, d_size = 0,
     d_addrs = replicate (NDIRECT + 1) 0, d_id = replicate 16 0, d_mode = 0\<rparr>"

record inode =
  i_dev :: nat
  i_inum :: nat
  i_ref :: int
  i_valid :: bool
  i_type :: int
  i_major :: int
  i_minor :: int
  i_nlink :: int
  i_size :: u32
  i_addrs :: "nat list"
  i_user :: "byte list"
  i_mode :: u32

definition zero_inode :: inode where
  "zero_inode = \<lparr>i_dev = 0, i_inum = 0, i_ref = 0, i_valid = False, i_type = 0, i_major = 0, i_minor = 0,
     i_nlink = 0, i_size = 0, i_addrs = replicate (NDIRECT + 1) 0, i_user = replicate 16 0, i_mode = 0\<rparr>"

record stat =
  st_type :: int
  st_dev :: nat
  st_ino :: nat
  st_nlink :: int
  st_size :: u32
  st_id :: "byte list"
  st_mode :: u32

record fsst = lst +
  sblk :: superblock
  icache :: "inode list"

text \<open>\<^verbatim>\<open>struct devsw\<close>: the read and write functions of each major device number, if any.\<close>

record 's devsw =
  dev_read :: "int \<Rightarrow> (nat \<Rightarrow> int \<Rightarrow> ('s, int \<times> byte list) kop) option"
  dev_write :: "int \<Rightarrow> (nat \<Rightarrow> byte list \<Rightarrow> int \<Rightarrow> ('s, int) kop) option"

definition inode_at :: "nat \<Rightarrow> 'z fsst_scheme \<Rightarrow> inode" where
  "inode_at ip s = icache s ! ip"

definition upd_inode :: "nat \<Rightarrow> (inode \<Rightarrow> inode) \<Rightarrow> ('z fsst_scheme, unit) kop" where
  "upd_inode ip f = modify (\<lambda>s. s\<lparr>icache := upd_at ip f (icache s)\<rparr>)"

definition buf_data :: "nat \<Rightarrow> ('z bst_scheme, byte list) kop" where
  "buf_data bp = gets (\<lambda>s. b_data (bufs s ! bp))"

section \<open>Blocks\<close>

definition bzero :: "nat \<Rightarrow> nat \<Rightarrow> ('z fsst_scheme, unit) kop" where
  "bzero dev bno =
     bindK (bread dev bno) (\<lambda>bp.
     seqK (bset bp (replicate BSIZE 0))
     (seqK (log_write bp)
     (brelse bp)))"

definition bit_used :: "byte list \<Rightarrow> nat \<Rightarrow> bool" where
  "bit_used d bi = ((d ! (bi div 8)) AND push_bit (bi mod 8) 1 \<noteq> 0)"

definition mark_used :: "byte list \<Rightarrow> nat \<Rightarrow> byte list" where
  "mark_used d bi = d[bi div 8 := (d ! (bi div 8)) OR push_bit (bi mod 8) 1]"

definition mark_free :: "byte list \<Rightarrow> nat \<Rightarrow> byte list" where
  "mark_free d bi = d[bi div 8 := (d ! (bi div 8)) AND NOT (push_bit (bi mod 8) 1)]"

fun balloc_from :: "nat \<Rightarrow> superblock \<Rightarrow> nat list \<Rightarrow> ('z fsst_scheme, nat) kop" where
  "balloc_from dev sb [] = panic ''balloc: out of blocks''"
| "balloc_from dev sb (b # bs) =
     bindK (bread dev (BBLOCK b sb)) (\<lambda>bp.
     bindK (buf_data bp) (\<lambda>d.
     case List.find (\<lambda>bi. b + bi < sb_size sb \<and> \<not> bit_used d bi) [0..<BPB] of
       Some bi \<Rightarrow>
         seqK (bset bp (mark_used d bi))
         (seqK (log_write bp)
         (seqK (brelse bp)
         (seqK (bzero dev (b + bi))
         (ret (b + bi)))))
     | None \<Rightarrow> seqK (brelse bp) (balloc_from dev sb bs)))"

definition balloc :: "nat \<Rightarrow> ('z fsst_scheme, nat) kop" where
  "balloc dev = bindK (gets sblk) (\<lambda>sb.
     balloc_from dev sb (map (\<lambda>k. k * BPB) [0..<(sb_size sb + BPB - 1) div BPB]))"

definition bfree :: "nat \<Rightarrow> nat \<Rightarrow> ('z fsst_scheme, unit) kop" where
  "bfree dev b =
     bindK (gets sblk) (\<lambda>sb.
     bindK (bread dev (BBLOCK b sb)) (\<lambda>bp.
     bindK (buf_data bp) (\<lambda>d.
     seqK (panic_if (\<not> bit_used d (b mod BPB)) ''freeing free block'')
     (seqK (bset bp (mark_free d (b mod BPB)))
     (seqK (log_write bp)
     (brelse bp))))))"

section \<open>Inodes\<close>

definition iinit :: "nat \<Rightarrow> ('z fsst_scheme, unit) kop" where
  "iinit dev =
     bindK (gets (\<lambda>s. [0..<length (icache s)])) (\<lambda>is.
     seqK (forK is (\<lambda>i. initsleeplock (SL_inode i)))
     (bindK (readsb dev) (\<lambda>sb. modify (\<lambda>s. s\<lparr>sblk := sb\<rparr>))))"

definition iget :: "nat \<Rightarrow> nat \<Rightarrow> ('z fsst_scheme, nat) kop" where
  "iget dev inum =
     seqK (acq L_icache)
     (bindK (gets (\<lambda>s. find_slot (\<lambda>ip. i_ref ip > 0 \<and> i_dev ip = dev \<and> i_inum ip = inum) (icache s))) (\<lambda>hit.
     case hit of
       Some ip \<Rightarrow>
         seqK (upd_inode ip (\<lambda>x. x\<lparr>i_ref := i_ref x + 1\<rparr>))
         (seqK (rel L_icache) (ret ip))
     | None \<Rightarrow>
         bindK (gets (\<lambda>s. find_slot (\<lambda>ip. i_ref ip = 0) (icache s))) (\<lambda>empty.
         case empty of
           None \<Rightarrow> panic ''iget: no inodes''
         | Some ip \<Rightarrow>
             seqK (upd_inode ip (\<lambda>x. x\<lparr>i_dev := dev, i_inum := inum, i_ref := 1, i_valid := False\<rparr>))
             (seqK (rel L_icache) (ret ip)))))"

definition new_dinode :: "int \<Rightarrow> dinode" where
  "new_dinode type = zero_dinode\<lparr>d_type := type,
     d_mode := (if type = T_FILE then MODE_RUSR OR MODE_WUSR OR MODE_ROTH
       else if type = T_DIR then MODE_RUSR OR MODE_WUSR OR MODE_XUSR OR MODE_ROTH OR MODE_XOTH
       else if type = T_DEV then MODE_RUSR OR MODE_WUSR OR MODE_XUSR OR MODE_ROTH OR MODE_WOTH OR MODE_XOTH
       else 0),
     d_id := safestrcpy_arr (replicate 16 0) (cview (lit ''root'')) 16\<rparr>"

fun ialloc_from :: "nat \<Rightarrow> int \<Rightarrow> superblock \<Rightarrow> nat list \<Rightarrow> ('z fsst_scheme, nat) kop" where
  "ialloc_from dev type sb [] = panic ''ialloc: no inodes''"
| "ialloc_from dev type sb (inum # rest) =
     bindK (bread dev (IBLOCK inum sb)) (\<lambda>bp.
     bindK (buf_data bp) (\<lambda>d.
     if short_at d (64 * (inum mod IPB)) = 0 then
       seqK (bset bp (splice d (64 * (inum mod IPB)) (enc_dinode (new_dinode type))))
       (seqK (log_write bp)
       (seqK (brelse bp)
       (iget dev inum)))
     else seqK (brelse bp) (ialloc_from dev type sb rest)))"

definition ialloc :: "nat \<Rightarrow> int \<Rightarrow> ('z fsst_scheme, nat) kop" where
  "ialloc dev type = bindK (gets sblk) (\<lambda>sb. ialloc_from dev type sb [1..<sb_ninodes sb])"

definition disk_form :: "inode \<Rightarrow> dinode" where
  "disk_form x = \<lparr>d_type = i_type x, d_major = i_major x, d_minor = i_minor x, d_nlink = i_nlink x,
     d_size = i_size x, d_addrs = i_addrs x, d_id = strncpy_bytes 16 (cview (i_user x)), d_mode = i_mode x\<rparr>"

definition iupdate :: "nat \<Rightarrow> ('z fsst_scheme, unit) kop" where
  "iupdate ip =
     bindK (gets (\<lambda>s. (inode_at ip s, sblk s))) (\<lambda>(x, sb).
     bindK (bread (i_dev x) (IBLOCK (i_inum x) sb)) (\<lambda>bp.
     bindK (buf_data bp) (\<lambda>d.
     seqK (bset bp (splice d (64 * (i_inum x mod IPB)) (enc_dinode (disk_form x))))
     (seqK (log_write bp)
     (brelse bp)))))"

definition idup :: "nat \<Rightarrow> ('z fsst_scheme, nat) kop" where
  "idup ip =
     seqK (acq L_icache)
     (seqK (upd_inode ip (\<lambda>x. x\<lparr>i_ref := i_ref x + 1\<rparr>))
     (seqK (rel L_icache) (ret ip)))"

definition from_disk :: "dinode \<Rightarrow> inode \<Rightarrow> inode" where
  "from_disk di x = x\<lparr>i_type := d_type di, i_major := d_major di, i_minor := d_minor di,
     i_nlink := d_nlink di, i_size := d_size di, i_addrs := d_addrs di,
     i_user := strncpy_bytes 16 (cview (d_id di)), i_mode := d_mode di\<rparr>"

definition iload :: "nat \<Rightarrow> ('z fsst_scheme, unit) kop" where
  "iload ip =
     bindK (gets (\<lambda>s. (inode_at ip s, sblk s))) (\<lambda>(x, sb).
     if \<not> i_valid x then
       bindK (bread (i_dev x) (IBLOCK (i_inum x) sb)) (\<lambda>bp.
       bindK (buf_data bp) (\<lambda>d.
       seqK (upd_inode ip (from_disk (dec_dinode d (64 * (i_inum x mod IPB)))))
       (seqK (brelse bp)
       (seqK (upd_inode ip (\<lambda>x. x\<lparr>i_valid := True\<rparr>))
       (bindK (gets (\<lambda>s. i_type (inode_at ip s))) (\<lambda>ty.
       panic_if (ty = 0) ''ilock: no type''))))))
     else ret ())"

definition ilock :: "nat \<Rightarrow> ('z fsst_scheme, unit) kop" where
  "ilock ip =
     seqK (bindK (gets (\<lambda>s. i_ref (inode_at ip s))) (\<lambda>r. panic_if (r < 1) ''ilock''))
     (seqK (acquiresleep (SL_inode ip))
     (iload ip))"

definition iunlock :: "nat \<Rightarrow> ('z fsst_scheme, unit) kop" where
  "iunlock ip =
     bindK (holdingsleep (SL_inode ip)) (\<lambda>h.
     bindK (gets (\<lambda>s. i_ref (inode_at ip s))) (\<lambda>r.
     seqK (panic_if (\<not> h \<or> r < 1) ''iunlock'')
     (releasesleep (SL_inode ip))))"

section \<open>File content\<close>

definition bmap :: "nat \<Rightarrow> nat \<Rightarrow> ('z fsst_scheme, nat) kop" where
  "bmap ip bn =
     bindK (gets (inode_at ip)) (\<lambda>x.
     if bn < NDIRECT then
       if i_addrs x ! bn = 0 then
         bindK (balloc (i_dev x)) (\<lambda>addr.
         seqK (upd_inode ip (\<lambda>x. x\<lparr>i_addrs := (i_addrs x)[bn := addr]\<rparr>))
         (ret addr))
       else ret (i_addrs x ! bn)
     else if bn - NDIRECT < NINDIRECT then
       bindK (if i_addrs x ! NDIRECT = 0 then
           bindK (balloc (i_dev x)) (\<lambda>addr.
           seqK (upd_inode ip (\<lambda>x. x\<lparr>i_addrs := (i_addrs x)[NDIRECT := addr]\<rparr>))
           (ret addr))
         else ret (i_addrs x ! NDIRECT)) (\<lambda>ind.
       bindK (bread (i_dev x) ind) (\<lambda>bp.
       bindK (buf_data bp) (\<lambda>a.
       bindK (if word_at a (4 * (bn - NDIRECT)) = 0 then
           bindK (balloc (i_dev x)) (\<lambda>addr.
           bindK (buf_data bp) (\<lambda>a.
           seqK (bset bp (splice a (4 * (bn - NDIRECT)) (le32 addr)))
           (seqK (log_write bp)
           (ret addr))))
         else ret (word_at a (4 * (bn - NDIRECT)))) (\<lambda>addr.
       seqK (brelse bp)
       (ret addr)))))
     else panic ''bmap: out of range'')"

definition itrunc_direct :: "nat \<Rightarrow> nat \<Rightarrow> ('z fsst_scheme, unit) kop" where
  "itrunc_direct ip i =
     bindK (gets (inode_at ip)) (\<lambda>x.
     if i_addrs x ! i \<noteq> 0 then
       seqK (bfree (i_dev x) (i_addrs x ! i))
       (upd_inode ip (\<lambda>x. x\<lparr>i_addrs := (i_addrs x)[i := 0]\<rparr>))
     else ret ())"

definition itrunc :: "nat \<Rightarrow> ('z fsst_scheme, unit) kop" where
  "itrunc ip =
     seqK (forK [0..<NDIRECT] (itrunc_direct ip))
     (seqK (bindK (gets (inode_at ip)) (\<lambda>x.
       if i_addrs x ! NDIRECT \<noteq> 0 then
         bindK (bread (i_dev x) (i_addrs x ! NDIRECT)) (\<lambda>bp.
         seqK (forK [0..<NINDIRECT] (\<lambda>j.
           bindK (buf_data bp) (\<lambda>a.
           if word_at a (4 * j) \<noteq> 0 then bfree (i_dev x) (word_at a (4 * j)) else ret ())))
         (seqK (brelse bp)
         (seqK (bfree (i_dev x) (i_addrs x ! NDIRECT))
         (upd_inode ip (\<lambda>x. x\<lparr>i_addrs := (i_addrs x)[NDIRECT := 0]\<rparr>)))))
       else ret ()))
     (seqK (upd_inode ip (\<lambda>x. x\<lparr>i_size := 0\<rparr>))
     (iupdate ip)))"

definition iput :: "nat \<Rightarrow> ('z fsst_scheme, unit) kop" where
  "iput ip =
     seqK (acquiresleep (SL_inode ip))
     (seqK (bindK (gets (inode_at ip)) (\<lambda>x.
       if i_valid x \<and> i_nlink x = 0 then
         seqK (acq L_icache)
         (bindK (gets (\<lambda>s. i_ref (inode_at ip s))) (\<lambda>r.
         seqK (rel L_icache)
         (if r = 1 then
            seqK (itrunc ip)
            (seqK (upd_inode ip (\<lambda>x. x\<lparr>i_type := 0\<rparr>))
            (seqK (iupdate ip)
            (upd_inode ip (\<lambda>x. x\<lparr>i_valid := False\<rparr>))))
          else ret ())))
       else ret ()))
     (seqK (releasesleep (SL_inode ip))
     (seqK (acq L_icache)
     (seqK (upd_inode ip (\<lambda>x. x\<lparr>i_ref := i_ref x - 1\<rparr>))
     (rel L_icache)))))"

definition iunlockput :: "nat \<Rightarrow> ('z fsst_scheme, unit) kop" where
  "iunlockput ip = seqK (iunlock ip) (iput ip)"

definition stati :: "nat \<Rightarrow> ('z fsst_scheme, stat) kop" where
  "stati ip = gets (\<lambda>s. let x = inode_at ip s in
     \<lparr>st_type = i_type x, st_dev = i_dev x, st_ino = i_inum x, st_nlink = i_nlink x, st_size = i_size x,
      st_id = strncpy_bytes 16 (cview (i_user x)), st_mode = i_mode x\<rparr>)"

text \<open>
  The copying loops. The callers have checked that \<^verbatim>\<open>off + n\<close> does not wrap, so offsets are
  natural numbers here; \<open>n\<close> is what remains to be copied.
\<close>

function readi_loop :: "nat \<Rightarrow> nat \<Rightarrow> nat \<Rightarrow> ('z fsst_scheme, byte list) kop" where
  "readi_loop ip off n =
     (if n = 0 then ret []
      else
        bindK (gets (\<lambda>s. i_dev (inode_at ip s))) (\<lambda>dev.
        bindK (bmap ip (off div BSIZE)) (\<lambda>a.
        bindK (bread dev a) (\<lambda>bp.
        bindK (buf_data bp) (\<lambda>d.
        seqK (brelse bp)
        (bindK (readi_loop ip (off + min n (BSIZE - off mod BSIZE)) (n - min n (BSIZE - off mod BSIZE))) (\<lambda>r.
        ret (take (min n (BSIZE - off mod BSIZE)) (drop (off mod BSIZE) d) @ r)))))))
     )"
  by auto
termination
  by (relation "measure (\<lambda>(ip, off, n). n)") (auto simp: BSIZE_def)

declare readi_loop.simps [simp del]

definition readi :: "('z fsst_scheme) devsw \<Rightarrow> nat \<Rightarrow> u32 \<Rightarrow> u32 \<Rightarrow> ('z fsst_scheme, int \<times> byte list) kop" where
  "readi dv ip off n =
     bindK (gets (inode_at ip)) (\<lambda>x.
     if i_type x = T_DEV then
       if i_major x < 0 \<or> i_major x \<ge> int NDEV then ret (-1, [])
       else case dev_read dv (i_major x) of
         None \<Rightarrow> ret (-1, [])
       | Some f \<Rightarrow> f ip (sint n)
     else if off > i_size x \<or> off + n < off then ret (-1, [])
     else
       (let n = if off + n > i_size x then i_size x - off else n
        in bindK (readi_loop ip (unat off) (unat n)) (\<lambda>bs. ret (sint n, bs))))"

function writei_loop :: "nat \<Rightarrow> byte list \<Rightarrow> nat \<Rightarrow> nat \<Rightarrow> ('z fsst_scheme, unit) kop" where
  "writei_loop ip src off n =
     (if n = 0 then ret ()
      else
        bindK (gets (\<lambda>s. i_dev (inode_at ip s))) (\<lambda>dev.
        bindK (bmap ip (off div BSIZE)) (\<lambda>a.
        bindK (bread dev a) (\<lambda>bp.
        bindK (buf_data bp) (\<lambda>d.
        seqK (bset bp (splice d (off mod BSIZE) (take (min n (BSIZE - off mod BSIZE)) src)))
        (seqK (log_write bp)
        (seqK (brelse bp)
        (writei_loop ip (drop (min n (BSIZE - off mod BSIZE)) src)
           (off + min n (BSIZE - off mod BSIZE)) (n - min n (BSIZE - off mod BSIZE))))))))))"
  by auto
termination
  by (relation "measure (\<lambda>(ip, src, off, n). n)") (auto simp: BSIZE_def)

declare writei_loop.simps [simp del]

definition writei :: "('z fsst_scheme) devsw \<Rightarrow> nat \<Rightarrow> byte list \<Rightarrow> u32 \<Rightarrow> u32 \<Rightarrow> ('z fsst_scheme, int) kop" where
  "writei dv ip src off n =
     bindK (gets (inode_at ip)) (\<lambda>x.
     if i_type x = T_DEV then
       if i_major x < 0 \<or> i_major x \<ge> int NDEV then ret (-1)
       else case dev_write dv (i_major x) of
         None \<Rightarrow> ret (-1)
       | Some f \<Rightarrow> f ip src (sint n)
     else if off > i_size x \<or> off + n < off then ret (-1)
     else if off + n > of_nat (MAXFILE * BSIZE) then ret (-1)
     else
       seqK (writei_loop ip src (unat off) (unat n))
       (seqK (bindK (gets (\<lambda>s. i_size (inode_at ip s))) (\<lambda>sz.
         if n > 0 \<and> off + n > sz then
           seqK (upd_inode ip (\<lambda>x. x\<lparr>i_size := off + n\<rparr>))
           (iupdate ip)
         else ret ()))
       (ret (sint n))))"

section \<open>Directories\<close>

definition namecmp :: "(nat \<Rightarrow> byte) \<Rightarrow> (nat \<Rightarrow> byte) \<Rightarrow> int" where
  "namecmp s t = strncmp s t DIRSIZ"

text \<open>\<^verbatim>\<open>struct dirent\<close>: two bytes of inode number, then the name.\<close>

definition de_inum :: "byte list \<Rightarrow> nat" where
  "de_inum de = rd16 (cview de)"

definition de_name :: "byte list \<Rightarrow> byte list" where
  "de_name de = drop 2 de"

definition enc_dirent :: "nat \<Rightarrow> byte list \<Rightarrow> byte list" where
  "enc_dirent inum name = le16 inum @ name"

definition dir_offs :: "u32 \<Rightarrow> nat list" where
  "dir_offs sz = map (\<lambda>k. 16 * k) [0..<(unat sz + 15) div 16]"

fun dirlookup_from :: "('z fsst_scheme) devsw \<Rightarrow> nat \<Rightarrow> byte list \<Rightarrow> nat list \<Rightarrow> ('z fsst_scheme, (nat \<times> nat) option) kop" where
  "dirlookup_from dv dp name [] = ret None"
| "dirlookup_from dv dp name (off # offs) =
     bindK (readi dv dp (of_nat off) 16) (\<lambda>(r, de).
     seqK (panic_if (r \<noteq> 16) ''dirlookup read'')
     (if de_inum de = 0 then dirlookup_from dv dp name offs
      else if namecmp (cview name) (cview (de_name de)) = 0 then
        bindK (gets (\<lambda>s. i_dev (inode_at dp s))) (\<lambda>dev.
        bindK (iget dev (de_inum de)) (\<lambda>ip. ret (Some (ip, off))))
      else dirlookup_from dv dp name offs))"

definition dirlookup :: "('z fsst_scheme) devsw \<Rightarrow> nat \<Rightarrow> byte list \<Rightarrow> ('z fsst_scheme, (nat \<times> nat) option) kop" where
  "dirlookup dv dp name =
     bindK (gets (inode_at dp)) (\<lambda>x.
     seqK (panic_if (i_type x \<noteq> T_DIR) ''dirlookup not DIR'')
     (dirlookup_from dv dp name (dir_offs (i_size x))))"

text \<open>The offset of the first empty entry, or the first offset past the end.\<close>

fun dirlink_slot :: "('z fsst_scheme) devsw \<Rightarrow> nat \<Rightarrow> nat list \<Rightarrow> nat \<Rightarrow> ('z fsst_scheme, nat) kop" where
  "dirlink_slot dv dp [] end = ret end"
| "dirlink_slot dv dp (off # offs) end =
     bindK (readi dv dp (of_nat off) 16) (\<lambda>(r, de).
     seqK (panic_if (r \<noteq> 16) ''dirlink read'')
     (if de_inum de = 0 then ret off else dirlink_slot dv dp offs end))"

definition dirlink :: "('z fsst_scheme) devsw \<Rightarrow> nat \<Rightarrow> byte list \<Rightarrow> nat \<Rightarrow> ('z fsst_scheme, int) kop" where
  "dirlink dv dp name inum =
     bindK (dirlookup dv dp name) (\<lambda>hit.
     case hit of
       Some (ip, off) \<Rightarrow> seqK (iput ip) (ret (-1))
     | None \<Rightarrow>
         bindK (gets (\<lambda>s. i_size (inode_at dp s))) (\<lambda>sz.
         bindK (dirlink_slot dv dp (dir_offs sz) (16 * ((unat sz + 15) div 16))) (\<lambda>off.
         bindK (writei dv dp (enc_dirent inum (strncpy_bytes DIRSIZ (cview name))) (of_nat off) 16) (\<lambda>r.
         seqK (panic_if (r \<noteq> 16) ''dirlink'')
         (ret 0)))))"

section \<open>Paths\<close>

text \<open>
  A path is the list of its bytes before the final NUL; \<open>name\<close> is the \<^verbatim>\<open>DIRSIZ\<close>-byte buffer
  the element is copied into.
\<close>

definition slash :: byte where "slash = 47"

definition skipelem :: "byte list \<Rightarrow> byte list \<Rightarrow> (byte list \<times> byte list) option" where
  "skipelem path name =
     (let path = dropWhile (\<lambda>c. c = slash) path in
      if path = [] then None
      else
        let s = takeWhile (\<lambda>c. c \<noteq> slash) path;
            rest = dropWhile (\<lambda>c. c \<noteq> slash) path;
            name' = (if length s \<ge> DIRSIZ then splice name 0 (take DIRSIZ s) else splice name 0 (s @ [0]))
        in Some (dropWhile (\<lambda>c. c = slash) rest, name'))"

lemma skipelem_shorter: "skipelem path name = Some (rest, n) \<Longrightarrow> length rest < length path"
proof -
  assume a: "skipelem path name = Some (rest, n)"
  let ?p = "dropWhile (\<lambda>c. c = slash) path"
  have ne: "?p \<noteq> []" and r: "rest = dropWhile (\<lambda>c. c = slash) (dropWhile (\<lambda>c. c \<noteq> slash) ?p)"
    using a by (auto simp: skipelem_def Let_def split: if_splits)
  have "hd ?p \<noteq> slash" using ne hd_dropWhile by blast
  with ne obtain c cs where p: "?p = c # cs" "c \<noteq> slash" by (cases ?p) auto
  have "length rest \<le> length cs"
    unfolding r p(1) using p(2) le_trans [OF length_dropWhile_le length_dropWhile_le] by simp
  moreover have "length ?p \<le> length path" by (rule length_dropWhile_le)
  ultimately show ?thesis using p(1) by simp
qed

text \<open>\<^verbatim>\<open>!strncmp(myproc()->id, "root", 16) || !strncmp(myproc()->id, ip->user, 16)\<close>.\<close>

definition is_owner :: "byte list \<Rightarrow> inode \<Rightarrow> bool" where
  "is_owner who x \<longleftrightarrow> is_root who \<or> strncmp (cview who) (cview (i_user x)) 16 = 0"

text \<open>The search permission test: the second mask is \<^verbatim>\<open>(!ip->mode & MODE_XOTH)\<close> as written.\<close>

definition search_denied :: "byte list \<Rightarrow> inode \<Rightarrow> bool" where
  "search_denied who x \<longleftrightarrow> i_type x \<noteq> T_DEV \<and>
     (if is_owner who x then i_mode x AND MODE_XUSR = 0
      else ((if i_mode x = 0 then 1 else 0) AND MODE_XOTH) \<noteq> 0)"

function namex_loop :: "('z fsst_scheme) devsw \<Rightarrow> nat \<Rightarrow> byte list \<Rightarrow> bool \<Rightarrow> byte list \<Rightarrow> ('z fsst_scheme, nat option \<times> byte list) kop" where
  "namex_loop dv ip path nameiparent name =
     (case skipelem path name of
        None \<Rightarrow>
          if nameiparent then seqK (iput ip) (ret (None, name)) else ret (Some ip, name)
      | Some (rest, name') \<Rightarrow>
          seqK (ilock ip)
          (bindK (gets (inode_at ip)) (\<lambda>x.
          bindK (bindK myproc (\<lambda>p. gets (\<lambda>s. p_id (proc_at p s)))) (\<lambda>who.
          if search_denied who x then seqK (iunlockput ip) (ret (None, name'))
          else if i_type x \<noteq> T_DIR then seqK (iunlockput ip) (ret (None, name'))
          else if nameiparent \<and> rest = [] then seqK (iunlock ip) (ret (Some ip, name'))
          else
            bindK (dirlookup dv ip name') (\<lambda>hit.
            case hit of
              None \<Rightarrow> seqK (iunlockput ip) (ret (None, name'))
            | Some (next, _) \<Rightarrow>
                seqK (iunlockput ip) (namex_loop dv next rest nameiparent name'))))))"
  by pat_completeness auto
termination
  by (relation "measure (\<lambda>(dv, ip, path, np, name). length path)") (auto simp: skipelem_shorter)

declare namex_loop.simps [simp del]

definition namex :: "('z fsst_scheme) devsw \<Rightarrow> byte list \<Rightarrow> bool \<Rightarrow> byte list \<Rightarrow> ('z fsst_scheme, nat option \<times> byte list) kop" where
  "namex dv path nameiparent name =
     bindK (if path \<noteq> [] \<and> hd path = slash then iget ROOTDEV ROOTINO
            else bindK myproc (\<lambda>p. bindK (gets (\<lambda>s. p_cwd (proc_at p s))) (\<lambda>cwd.
              case cwd of Some ip \<Rightarrow> idup ip | None \<Rightarrow> panic ''trap''))) (\<lambda>ip.
     namex_loop dv ip path nameiparent name)"

definition namei :: "('z fsst_scheme) devsw \<Rightarrow> byte list \<Rightarrow> ('z fsst_scheme, nat option) kop" where
  "namei dv path = bindK (namex dv path False (replicate DIRSIZ 0)) (\<lambda>(ip, _). ret ip)"

definition nameiparent :: "('z fsst_scheme) devsw \<Rightarrow> byte list \<Rightarrow> ('z fsst_scheme, nat option \<times> byte list) kop" where
  "nameiparent dv path = namex dv path True (replicate DIRSIZ 0)"

end
