(* ===== verification/File.thy ===== *)
theory File
  imports Fs Vm
begin

text \<open>
  file.c and pipe.c: the table of open files and pipes. A file pointer is an index into
  \<^verbatim>\<open>ftable.file\<close>. A \<^verbatim>\<open>struct pipe\<close> lives in a page from \<^verbatim>\<open>kalloc\<close>; \<open>pipes\<close> gives its content
  by the address of that page. The bytes a read delivers are returned with its count, the bytes
  a write takes are an argument. A process that has to wait in a pipe ends in \<open>Swtch\<close>; the
  \<open>_resume\<close> functions are what it does when it runs again.
\<close>

section \<open>Data\<close>

definition PIPESIZE :: nat where "PIPESIZE = 512"

record pipe =
  pi_data :: "byte list"
  pi_nread :: u32
  pi_nwrite :: u32
  pi_readopen :: bool
  pi_writeopen :: bool

datatype fdtype = FD_NONE | FD_PIPE | FD_INODE

record kfile =
  f_type :: fdtype
  f_ref :: int
  f_readable :: bool
  f_writable :: bool
  f_pipe :: u32
  f_ip :: "nat option"
  f_off :: u32

definition zero_file :: kfile where
  "zero_file = \<lparr>f_type = FD_NONE, f_ref = 0, f_readable = False, f_writable = False, f_pipe = 0,
     f_ip = None, f_off = 0\<rparr>"

record fdst = fsst +
  ftable :: "kfile list"
  pipes :: "u32 \<Rightarrow> pipe"

definition file_at :: "nat \<Rightarrow> 'z fdst_scheme \<Rightarrow> kfile" where
  "file_at f s = ftable s ! f"

definition upd_file :: "nat \<Rightarrow> (kfile \<Rightarrow> kfile) \<Rightarrow> ('z fdst_scheme, unit) kop" where
  "upd_file f g = modify (\<lambda>s. s\<lparr>ftable := upd_at f g (ftable s)\<rparr>)"

definition upd_pipe :: "u32 \<Rightarrow> (pipe \<Rightarrow> pipe) \<Rightarrow> ('z fdst_scheme, unit) kop" where
  "upd_pipe p g = modify (\<lambda>s. s\<lparr>pipes := (pipes s)(p := g (pipes s p))\<rparr>)"

text \<open>\<^verbatim>\<open>myproc()->killed\<close>.\<close>

definition am_killed :: "('z kst_scheme, bool) kop" where
  "am_killed = bindK myproc (\<lambda>p. gets (\<lambda>s. p_killed (proc_at p s)))"

text \<open>A call of \<^verbatim>\<open>sleep\<close> that is followed by another test of the caller's condition.\<close>

definition sleep_on :: "chan \<Rightarrow> lock_id \<Rightarrow> ('z kst_scheme, 'a) kop" where
  "sleep_on c lk = seqK (sleep c lk) (panic ''sleep returned'')"

text \<open>A pointer that must not be null, with what happens when it is.\<close>

definition nonnull :: "string \<Rightarrow> 'a option \<Rightarrow> ('s, 'a) kop" where
  "nonnull msg x = (case x of Some a \<Rightarrow> ret a | None \<Rightarrow> panic msg)"

section \<open>The file table\<close>

definition filealloc :: "('z fdst_scheme, nat option) kop" where
  "filealloc =
     seqK (acq L_ftable)
     (bindK (gets (\<lambda>s. find_slot (\<lambda>f. f_ref f = 0) (ftable s))) (\<lambda>slot.
     case slot of
       Some f \<Rightarrow>
         seqK (upd_file f (\<lambda>x. x\<lparr>f_ref := 1\<rparr>))
         (seqK (rel L_ftable) (ret (Some f)))
     | None \<Rightarrow> seqK (rel L_ftable) (ret None)))"

definition filedup :: "nat \<Rightarrow> ('z fdst_scheme, nat) kop" where
  "filedup f =
     seqK (acq L_ftable)
     (seqK (bindK (gets (\<lambda>s. f_ref (file_at f s))) (\<lambda>r. panic_if (r < 1) ''filedup''))
     (seqK (upd_file f (\<lambda>x. x\<lparr>f_ref := f_ref x + 1\<rparr>))
     (seqK (rel L_ftable) (ret f))))"

section \<open>pipe.c\<close>

definition pipeclose :: "u32 \<Rightarrow> bool \<Rightarrow> ('z fdst_scheme, unit) kop" where
  "pipeclose p writable =
     seqK (acq (L_pipe p))
     (seqK (if writable then
         seqK (upd_pipe p (\<lambda>x. x\<lparr>pi_writeopen := False\<rparr>)) (wakeup (Ch_nread p))
       else
         seqK (upd_pipe p (\<lambda>x. x\<lparr>pi_readopen := False\<rparr>)) (wakeup (Ch_nwrite p)))
     (bindK (gets (\<lambda>s. \<not> pi_readopen (pipes s p) \<and> \<not> pi_writeopen (pipes s p))) (\<lambda>closed.
     if closed then seqK (rel (L_pipe p)) (kfree p)
     else rel (L_pipe p))))"

definition pipe_full :: "pipe \<Rightarrow> bool" where
  "pipe_full x \<longleftrightarrow> pi_nwrite x = pi_nread x + of_nat PIPESIZE"

definition pipe_put :: "byte \<Rightarrow> pipe \<Rightarrow> pipe" where
  "pipe_put b x = x\<lparr>pi_data := (pi_data x)[unat (pi_nwrite x mod of_nat PIPESIZE) := b],
     pi_nwrite := pi_nwrite x + 1\<rparr>"

fun pipewrite_loop :: "u32 \<Rightarrow> int \<Rightarrow> byte list \<Rightarrow> ('z fdst_scheme, int) kop" where
  "pipewrite_loop p n [] = seqK (wakeup (Ch_nread p)) (seqK (rel (L_pipe p)) (ret n))"
| "pipewrite_loop p n (b # bs) =
     bindK (gets (\<lambda>s. pipes s p)) (\<lambda>x.
     if pipe_full x then
       bindK am_killed (\<lambda>k.
       if \<not> pi_readopen x \<or> k then seqK (rel (L_pipe p)) (ret (-1))
       else seqK (wakeup (Ch_nread p)) (sleep_on (Ch_nwrite p) (L_pipe p)))
     else seqK (upd_pipe p (pipe_put b)) (pipewrite_loop p n bs))"

definition pipewrite :: "u32 \<Rightarrow> byte list \<Rightarrow> int \<Rightarrow> ('z fdst_scheme, int) kop" where
  "pipewrite p src n = seqK (acq (L_pipe p)) (pipewrite_loop p n (take (nat n) src))"

definition pipewrite_resume :: "nat \<Rightarrow> u32 \<Rightarrow> int \<Rightarrow> byte list \<Rightarrow> ('z fdst_scheme, int) kop" where
  "pipewrite_resume me p n rest = seqK (sleep_resume me (L_pipe p)) (pipewrite_loop p n rest)"

definition pipe_get :: "pipe \<Rightarrow> byte \<times> pipe" where
  "pipe_get x = (pi_data x ! unat (pi_nread x mod of_nat PIPESIZE), x\<lparr>pi_nread := pi_nread x + 1\<rparr>)"

fun piperead_copy :: "u32 \<Rightarrow> nat \<Rightarrow> ('z fdst_scheme, byte list) kop" where
  "piperead_copy p 0 = ret []"
| "piperead_copy p (Suc k) =
     bindK (gets (\<lambda>s. pipes s p)) (\<lambda>x.
     if pi_nread x = pi_nwrite x then ret []
     else seqK (upd_pipe p (\<lambda>x. snd (pipe_get x)))
       (bindK (piperead_copy p k) (\<lambda>bs. ret (fst (pipe_get x) # bs))))"

definition piperead_test :: "u32 \<Rightarrow> int \<Rightarrow> ('z fdst_scheme, int \<times> byte list) kop" where
  "piperead_test p n =
     bindK (gets (\<lambda>s. pipes s p)) (\<lambda>x.
     if pi_nread x = pi_nwrite x \<and> pi_writeopen x then
       bindK am_killed (\<lambda>k.
       if k then seqK (rel (L_pipe p)) (ret (-1, []))
       else sleep_on (Ch_nread p) (L_pipe p))
     else
       bindK (piperead_copy p (nat n)) (\<lambda>bs.
       seqK (wakeup (Ch_nwrite p))
       (seqK (rel (L_pipe p))
       (ret (int (length bs), bs)))))"

definition piperead :: "u32 \<Rightarrow> int \<Rightarrow> ('z fdst_scheme, int \<times> byte list) kop" where
  "piperead p n = seqK (acq (L_pipe p)) (piperead_test p n)"

definition piperead_resume :: "nat \<Rightarrow> u32 \<Rightarrow> int \<Rightarrow> ('z fdst_scheme, int \<times> byte list) kop" where
  "piperead_resume me p n = seqK (sleep_resume me (L_pipe p)) (piperead_test p n)"

section \<open>Closing and pipe creation\<close>

definition fileclose :: "nat \<Rightarrow> ('z fdst_scheme, unit) kop" where
  "fileclose f =
     seqK (acq L_ftable)
     (bindK (gets (file_at f)) (\<lambda>x.
     seqK (panic_if (f_ref x < 1) ''fileclose'')
     (seqK (upd_file f (\<lambda>x. x\<lparr>f_ref := f_ref x - 1\<rparr>))
     (if f_ref x - 1 > 0 then rel L_ftable
      else
        seqK (upd_file f (\<lambda>x. x\<lparr>f_ref := 0, f_type := FD_NONE\<rparr>))
        (seqK (rel L_ftable)
        (case f_type x of
           FD_PIPE \<Rightarrow> pipeclose (f_pipe x) (f_writable x)
         | FD_INODE \<Rightarrow>
             seqK begin_op
             (bindK (nonnull ''trap'' (f_ip x)) (\<lambda>ip.
             seqK (iput ip)
             end_op))
         | FD_NONE \<Rightarrow> ret ()))))))"

definition close_opt :: "nat option \<Rightarrow> ('z fdst_scheme, unit) kop" where
  "close_opt f = (case f of Some f \<Rightarrow> fileclose f | None \<Rightarrow> ret ())"

definition pipealloc_bad :: "u32 \<Rightarrow> nat option \<Rightarrow> nat option \<Rightarrow> ('z fdst_scheme, (nat \<times> nat) option) kop" where
  "pipealloc_bad p f0 f1 =
     seqK (if p \<noteq> 0 then kfree p else ret ())
     (seqK (close_opt f0)
     (seqK (close_opt f1)
     (ret None)))"

text \<open>\<open>Some (f0, f1)\<close> stands for the return value 0 with the two files stored.\<close>

definition pipealloc :: "('z fdst_scheme, (nat \<times> nat) option) kop" where
  "pipealloc =
     bindK filealloc (\<lambda>f0. case f0 of None \<Rightarrow> pipealloc_bad 0 None None | Some r \<Rightarrow>
     bindK filealloc (\<lambda>f1. case f1 of None \<Rightarrow> pipealloc_bad 0 (Some r) None | Some w \<Rightarrow>
     bindK kalloc (\<lambda>p. if p = 0 then pipealloc_bad 0 (Some r) (Some w) else
     seqK (upd_pipe p (\<lambda>x. x\<lparr>pi_nread := 0, pi_nwrite := 0, pi_readopen := True, pi_writeopen := True\<rparr>))
     (seqK (upd_file r (\<lambda>x. x\<lparr>f_type := FD_PIPE, f_readable := True, f_writable := False, f_pipe := p\<rparr>))
     (seqK (upd_file w (\<lambda>x. x\<lparr>f_type := FD_PIPE, f_readable := False, f_writable := True, f_pipe := p\<rparr>))
     (ret (Some (r, w))))))))"

section \<open>File metadata, reading and writing\<close>

definition filestat :: "nat \<Rightarrow> ('z fdst_scheme, stat option) kop" where
  "filestat f =
     bindK (gets (file_at f)) (\<lambda>x.
     if f_type x = FD_INODE then
       bindK (nonnull ''ilock'' (f_ip x)) (\<lambda>ip.
       seqK (ilock ip)
       (bindK (stati ip) (\<lambda>st.
       seqK (iunlock ip)
       (ret (Some st)))))
     else ret None)"

definition fileread :: "('z fdst_scheme) devsw \<Rightarrow> nat \<Rightarrow> int \<Rightarrow> ('z fdst_scheme, int \<times> byte list) kop" where
  "fileread dv f n =
     bindK (gets (file_at f)) (\<lambda>x.
     if \<not> f_readable x then ret (-1, [])
     else case f_type x of
       FD_PIPE \<Rightarrow> piperead (f_pipe x) n
     | FD_INODE \<Rightarrow>
         seqK begin_op
         (bindK (nonnull ''ilock'' (f_ip x)) (\<lambda>ip.
         seqK (ilock ip)
         (bindK (readi dv ip (f_off x) (word_of_int n)) (\<lambda>(r, bs).
         seqK (if r > 0 then upd_file f (\<lambda>x. x\<lparr>f_off := f_off x + word_of_int r\<rparr>) else ret ())
         (seqK (iunlock ip)
         (seqK end_op
         (ret (r, bs))))))))
     | FD_NONE \<Rightarrow> panic ''fileread'')"

definition write_max :: nat where
  "write_max = ((MAXOPBLOCKS - 1 - 1 - 2) div 2) * 512"

text \<open>One round of the loop of \<^verbatim>\<open>filewrite\<close> for an inode: its \<^verbatim>\<open>n1\<close> bytes in one transaction.\<close>

definition filewrite_chunk :: "('z fdst_scheme) devsw \<Rightarrow> nat \<Rightarrow> byte list \<Rightarrow> ('z fdst_scheme, int) kop" where
  "filewrite_chunk dv f chunk =
     seqK begin_op
     (bindK (gets (file_at f)) (\<lambda>x.
     bindK (nonnull ''ilock'' (f_ip x)) (\<lambda>ip.
     seqK (ilock ip)
     (bindK (writei dv ip chunk (f_off x) (of_nat (length chunk))) (\<lambda>r.
     seqK (if r > 0 then upd_file f (\<lambda>x. x\<lparr>f_off := f_off x + word_of_int r\<rparr>) else ret ())
     (seqK (iunlock ip)
     (seqK end_op
     (ret r))))))))"

text \<open>\<open>rest\<close> is what is left to write; the result tells whether \<^verbatim>\<open>i == n\<close> at the end.\<close>

function filewrite_loop :: "('z fdst_scheme) devsw \<Rightarrow> nat \<Rightarrow> byte list \<Rightarrow> ('z fdst_scheme, bool) kop" where
  "filewrite_loop dv f rest =
     (if rest = [] then ret True
      else
        bindK (filewrite_chunk dv f (take write_max rest)) (\<lambda>r.
        if r < 0 then ret False
        else if r \<noteq> int (length (take write_max rest)) then panic ''short filewrite''
        else filewrite_loop dv f (drop write_max rest)))"
  by pat_completeness auto
termination
  by (relation "measure (\<lambda>(dv, f, rest). length rest)") (auto simp: write_max_def MAXOPBLOCKS_def)

declare filewrite_loop.simps [simp del]

definition filewrite :: "('z fdst_scheme) devsw \<Rightarrow> nat \<Rightarrow> byte list \<Rightarrow> int \<Rightarrow> ('z fdst_scheme, int) kop" where
  "filewrite dv f src n =
     bindK (gets (file_at f)) (\<lambda>x.
     if \<not> f_writable x then ret (-1)
     else case f_type x of
       FD_PIPE \<Rightarrow> pipewrite (f_pipe x) src n
     | FD_INODE \<Rightarrow>
         bindK (filewrite_loop dv f (take (nat n) src)) (\<lambda>ok.
         ret (if ok \<and> n \<ge> 0 then n else -1))
     | FD_NONE \<Rightarrow> panic ''filewrite'')"

section \<open>A pipe is a bounded queue\<close>

text \<open>
  The bytes in a pipe, oldest first: the counters run modulo \<open>2 ^ 32\<close>, which \<^verbatim>\<open>PIPESIZE\<close>
  divides, so the ring stays consistent when they wrap.
\<close>

definition pipe_ok :: "pipe \<Rightarrow> bool" where
  "pipe_ok x \<longleftrightarrow> length (pi_data x) = PIPESIZE \<and> unat (pi_nwrite x - pi_nread x) \<le> PIPESIZE"

definition pqueue :: "pipe \<Rightarrow> byte list" where
  "pqueue x = map (\<lambda>i. pi_data x ! ((unat (pi_nread x) + i) mod PIPESIZE)) [0..<unat (pi_nwrite x - pi_nread x)]"

lemma unat_mod_pipe: "unat (w mod 512 :: u32) = unat w mod 512"
  by (simp add: unat_mod)

lemma ring_index: "unat (w :: u32) mod PIPESIZE = (unat r + unat (w - r)) mod PIPESIZE"
proof -
  have "unat w = (unat r + unat (w - r)) mod 4294967296"
    using unat_word_ariths(1) [of r "w - r"] by simp
  then show ?thesis by (simp add: PIPESIZE_def mod_mod_cancel)
qed

lemma pqueue_length [simp]: "length (pqueue x) = unat (pi_nwrite x - pi_nread x)"
  by (simp add: pqueue_def)

lemma pipe_full_iff: "pipe_ok x \<Longrightarrow> pipe_full x \<longleftrightarrow> length (pqueue x) = PIPESIZE"
proof -
  have "pi_nwrite x = pi_nread x + 512 \<longleftrightarrow> pi_nwrite x - pi_nread x = 512" by (simp add: algebra_simps)
  also have "\<dots> \<longleftrightarrow> unat (pi_nwrite x - pi_nread x) = 512" by (simp add: word_unat_eq_iff)
  finally show ?thesis by (simp add: pipe_full_def PIPESIZE_def)
qed

lemma pipe_empty_iff: "pi_nread x = pi_nwrite x \<longleftrightarrow> pqueue x = []"
proof -
  have "pi_nread x = pi_nwrite x \<longleftrightarrow> pi_nwrite x - pi_nread x = 0" by auto
  also have "\<dots> \<longleftrightarrow> length (pqueue x) = 0" by (simp add: unat_eq_0)
  finally show ?thesis by (simp only: length_0_conv)
qed

lemma unat_step: "unat (d :: u32) \<le> 512 \<Longrightarrow> unat (d + 1) = unat d + 1"
  by (subst unat_add_lem [THEN iffD1]) simp_all

lemma pipe_put_queue:
  assumes ok: "pipe_ok x" and room: "\<not> pipe_full x"
  shows "pqueue (pipe_put b x) = pqueue x @ [b]" "pipe_ok (pipe_put b x)"
proof -
  let ?n = "unat (pi_nwrite x - pi_nread x)"
  have n: "?n < 512" using ok room pipe_full_iff [OF ok] by (simp add: pipe_ok_def PIPESIZE_def)
  have e: "pi_nwrite x + 1 - pi_nread x = (pi_nwrite x - pi_nread x) + 1" by simp
  have n': "unat (pi_nwrite x + 1 - pi_nread x) = ?n + 1" unfolding e using n by (intro unat_step) simp
  have ix: "(unat (pi_nread x) + i) mod 512 \<noteq> unat (pi_nwrite x) mod 512" if "i < ?n" for i
  proof -
    have "(unat (pi_nread x) + i) mod 512 \<noteq> (unat (pi_nread x) + ?n) mod 512"
    proof
      assume "(unat (pi_nread x) + i) mod 512 = (unat (pi_nread x) + ?n) mod 512"
      then have "(512 :: nat) dvd (unat (pi_nread x) + ?n) - (unat (pi_nread x) + i)"
        using that by (metis mod_eq_dvd_iff_nat add_le_cancel_left less_imp_le)
      then show False using that n by (auto dest: dvd_imp_le)
    qed
    then show ?thesis using ring_index [of "pi_nwrite x" "pi_nread x"] by (simp add: PIPESIZE_def)
  qed
  show "pipe_ok (pipe_put b x)" using ok n n' by (simp add: pipe_ok_def pipe_put_def PIPESIZE_def)
  show "pqueue (pipe_put b x) = pqueue x @ [b]"
  proof (rule nth_equalityI)
    show "length (pqueue (pipe_put b x)) = length (pqueue x @ [b])" using n' by (simp add: pipe_put_def)
    fix i assume "i < length (pqueue (pipe_put b x))"
    then have "i < ?n \<or> i = ?n" using n' by (auto simp: pipe_put_def)
    then show "pqueue (pipe_put b x) ! i = (pqueue x @ [b]) ! i"
      using ix [of i] ok n' ring_index [of "pi_nwrite x" "pi_nread x"]
      by (auto simp: pqueue_def pipe_put_def unat_mod_pipe nth_append pipe_ok_def PIPESIZE_def)
  qed
qed

lemma pipe_get_queue:
  assumes ok: "pipe_ok x" and ne: "pi_nread x \<noteq> pi_nwrite x"
  shows "pqueue x = fst (pipe_get x) # pqueue (snd (pipe_get x))" "pipe_ok (snd (pipe_get x))"
proof -
  let ?n = "unat (pi_nwrite x - pi_nread x)"
  have pos: "0 < ?n" using ne pipe_empty_iff [of x] by (simp flip: pqueue_length)
  have e: "pi_nwrite x - (pi_nread x + 1) = (pi_nwrite x - pi_nread x) - 1" by simp
  have n': "unat (pi_nwrite x - (pi_nread x + 1)) = ?n - 1"
    unfolding e using ne by (intro unat_minus_one) simp
  have ix: "(unat (pi_nread x + 1) + i) mod 512 = (unat (pi_nread x) + (i + 1)) mod 512" for i
  proof -
    have "unat (pi_nread x + 1) mod 512 = (unat (pi_nread x) + 1) mod 512"
      using ring_index [of "pi_nread x + 1" "pi_nread x"] by (simp add: PIPESIZE_def)
    then have "(unat (pi_nread x + 1) + i) mod 512 = (unat (pi_nread x) + 1 + i) mod 512"
      by (intro mod_add_cong) simp_all
    then show ?thesis by (simp add: algebra_simps)
  qed
  show "pipe_ok (snd (pipe_get x))" using ok n' unfolding pipe_ok_def pipe_get_def by simp linarith
  have "[0..<?n] = 0 # map Suc [0..<?n - 1]" using pos by (simp add: upt_conv_Cons map_Suc_upt)
  then show "pqueue x = fst (pipe_get x) # pqueue (snd (pipe_get x))"
    using n' ix by (simp add: pqueue_def pipe_get_def unat_mod_pipe comp_def PIPESIZE_def One_nat_def)
qed

lemma keeps_pipes [keep_rules]: "keeps pipes am_killed" "keeps pipes (sleep_on c lk)" "keeps pipes (wakeup c)" "keeps pipes (rel l)"
  unfolding am_killed_def sleep_on_def by (intro keep_rules; simp)+

lemma upd_pipe_eq [simp]: "upd_pipe p g s = Ret () (s\<lparr>pipes := (pipes s)(p := g (pipes s p))\<rparr>)"
  by (simp add: upd_pipe_def)

text \<open>One uninterrupted stretch of a writer appends a prefix of its bytes; of a reader, takes a prefix.\<close>

lemma pipewrite_loop_appends:
  "pipe_ok (pipes s p) \<Longrightarrow> outst (pipewrite_loop p n bs s) = Some t \<Longrightarrow>
   \<exists>k \<le> length bs. pqueue (pipes t p) = pqueue (pipes s p) @ take k bs \<and> pipe_ok (pipes t p)
     \<and> pi_nwrite (pipes t p) = pi_nwrite (pipes s p) + of_nat k
     \<and> (pipewrite_loop p n bs s = Ret r t \<and> r \<noteq> -1 \<longrightarrow> k = length bs \<and> r = n)"
proof (induction bs arbitrary: s)
  case Nil
  let ?m = "seqK (wakeup (Ch_nread p)) (seqK (rel (L_pipe p)) (ret n))"
  have "keeps pipes ?m" by (intro keep_rules)
  with Nil(2) have "pipes t = pipes s" unfolding pipewrite_loop.simps by (rule keepsD [rotated])
  moreover have "?m s = Ret r t \<Longrightarrow> r = n" by auto
  ultimately show ?case using Nil(1) by (intro exI [of _ 0]) simp
next
  case (Cons b bs)
  show ?case
  proof (cases "pipe_full (pipes s p)")
    case True
    let ?m = "bindK am_killed (\<lambda>k. if \<not> pi_readopen (pipes s p) \<or> k then seqK (rel (L_pipe p)) (ret (-1))
        else seqK (wakeup (Ch_nread p)) (sleep_on (Ch_nwrite p) (L_pipe p)))"
    have m: "pipewrite_loop p n (b # bs) s = ?m s" using True by simp
    have "keeps pipes ?m" by (intro keep_rules)
    with Cons.prems(2) have "pipes t = pipes s" unfolding m by (rule keepsD [rotated])
    moreover have "?m s = Ret r t \<Longrightarrow> r = -1"
      by (auto simp: sleep_on_def sleep_not_Ret split: if_splits)
    ultimately show ?thesis using Cons.prems(1) unfolding m by (intro exI [of _ 0]) auto
  next
    case False
    let ?s = "s\<lparr>pipes := (pipes s)(p := pipe_put b (pipes s p))\<rparr>"
    note q = pipe_put_queue [OF Cons.prems(1) False, of b]
    have m: "pipewrite_loop p n (b # bs) s = pipewrite_loop p n bs ?s" using False by simp
    obtain k where k: "k \<le> length bs" "pqueue (pipes t p) = pqueue (pipes ?s p) @ take k bs" "pipe_ok (pipes t p)"
      "pi_nwrite (pipes t p) = pi_nwrite (pipes ?s p) + of_nat k"
      "pipewrite_loop p n bs ?s = Ret r t \<and> r \<noteq> -1 \<longrightarrow> k = length bs \<and> r = n"
      using Cons.IH [of ?s] q(2) Cons.prems(2) unfolding m by auto
    have "pi_nwrite (pipe_put b (pipes s p)) = pi_nwrite (pipes s p) + 1" by (simp add: pipe_put_def)
    with k q(1) show ?thesis unfolding m by (intro exI [of _ "Suc k"]) (auto simp: add.assoc)
  qed
qed

lemma piperead_copy_takes:
  "pipe_ok (pipes s p) \<Longrightarrow> \<exists>t. piperead_copy p k s = Ret (take k (pqueue (pipes s p))) t
     \<and> pqueue (pipes t p) = drop k (pqueue (pipes s p)) \<and> pipe_ok (pipes t p)"
proof (induction k arbitrary: s)
  case (Suc k)
  show ?case
  proof (cases "pi_nread (pipes s p) = pi_nwrite (pipes s p)")
    case True
    with Suc.prems show ?thesis using pipe_empty_iff [of "pipes s p"] by auto
  next
    case False
    let ?s = "s\<lparr>pipes := (pipes s)(p := snd (pipe_get (pipes s p)))\<rparr>"
    note q = pipe_get_queue [OF Suc.prems False]
    obtain t where "piperead_copy p k ?s = Ret (take k (pqueue (pipes ?s p))) t"
      "pqueue (pipes t p) = drop k (pqueue (pipes ?s p))" "pipe_ok (pipes t p)"
      using Suc.IH [of ?s] q(2) by auto
    with False q(1) show ?thesis by (intro exI [of _ t]) (simp add: pipe_get_def)
  qed
qed simp

definition delivered :: "(int \<times> byte list, 's) out \<Rightarrow> byte list" where
  "delivered o' = (case o' of Ret (r, bs) t \<Rightarrow> bs | _ \<Rightarrow> [])"

lemma wake_release:
  "outst (seqK (wakeup c) (seqK (rel l) (ret v)) u) = Some t \<Longrightarrow> seqK (wakeup c) (seqK (rel l) (ret v)) u = Ret v t"
  by (cases "L_ptable \<in> set (held u)"; cases "l \<in> set (held u)") (simp_all add: wakeup_def wakeup_steps_def lock_simps)

lemma delivered_Nil: "(\<And>r bs u. x = Ret (r, bs) u \<Longrightarrow> bs = []) \<Longrightarrow> delivered x = []"
  by (cases x) (auto simp: delivered_def)

lemma piperead_test_takes:
  assumes ok: "pipe_ok (pipes s p)" and t: "outst (piperead_test p n s) = Some t"
  shows "pqueue (pipes s p) = delivered (piperead_test p n s) @ pqueue (pipes t p) \<and> pipe_ok (pipes t p)
    \<and> (\<forall>bs. piperead_test p n s = Ret (r, bs) t \<and> r \<noteq> -1 \<longrightarrow> r = int (length bs)
        \<and> bs = take (nat n) (pqueue (pipes s p)) \<and> (bs = [] \<and> 0 < n \<longrightarrow> \<not> pi_writeopen (pipes s p)))"
proof (cases "pi_nread (pipes s p) = pi_nwrite (pipes s p) \<and> pi_writeopen (pipes s p)")
  case True
  let ?m = "bindK am_killed (\<lambda>k. if k then seqK (rel (L_pipe p)) (ret (-1, [] :: byte list)) else sleep_on (Ch_nread p) (L_pipe p))"
  have m: "piperead_test p n s = ?m s" using True by (simp add: piperead_test_def)
  have "keeps pipes ?m" by (intro keep_rules)
  with t have same: "pipes t = pipes s" unfolding m by (rule keepsD [rotated])
  define x where "x = piperead_test p n s"
  have no: "x = Ret (r, bs) u \<Longrightarrow> r = -1 \<and> bs = []" for r bs u
    unfolding x_def m by (auto simp: sleep_on_def sleep_not_Ret split: if_splits)
  have "delivered x = []" by (rule delivered_Nil) (use no in blast)
  with same ok show ?thesis unfolding x_def [symmetric] by (auto dest: no)
next
  case False
  obtain u where u: "piperead_copy p (nat n) s = Ret (take (nat n) (pqueue (pipes s p))) u"
    "pqueue (pipes u p) = drop (nat n) (pqueue (pipes s p))" "pipe_ok (pipes u p)"
    using piperead_copy_takes [OF ok] by blast
  let ?bs = "take (nat n) (pqueue (pipes s p))"
  let ?m = "seqK (wakeup (Ch_nwrite p)) (seqK (rel (L_pipe p)) (ret (int (length ?bs), ?bs)))"
  have m: "piperead_test p n s = ?m u" using False u(1) by (auto simp: piperead_test_def)
  have "keeps pipes ?m" by (intro keep_rules)
  with t have same: "pipes t = pipes u" unfolding m by (rule keepsD [rotated])
  have ret: "?m u = Ret (int (length ?bs), ?bs) t" using t unfolding m by (rule wake_release)
  have "?bs = [] \<and> 0 < n \<longrightarrow> \<not> pi_writeopen (pipes s p)" using False pipe_empty_iff [of "pipes s p"] by auto
  then show ?thesis unfolding m ret using same u(2,3) by (auto simp: delivered_def)
qed

text \<open>
  Any interleaving of writers and readers of one pipe with the rest of the kernel: \<open>W\<close> is what
  the writers have put in so far, \<open>R\<close> what the readers have been given. A writer or reader that
  sleeps and comes back contributes several steps.
\<close>

inductive pipe_run :: "u32 \<Rightarrow> ('z fdst_scheme) \<Rightarrow> byte list \<Rightarrow> byte list \<Rightarrow> ('z fdst_scheme) \<Rightarrow> bool"
  for p :: u32 and s0 :: "'z fdst_scheme" where
  start: "pipe_run p s0 [] [] s0"
| other: "pipe_run p s0 W R s \<Longrightarrow> pipes t p = pipes s p \<Longrightarrow> pipe_run p s0 W R t"
| put: "pipe_run p s0 W R s \<Longrightarrow> outst (pipewrite_loop p n bs s) = Some t \<Longrightarrow>
    pipe_run p s0 (W @ take (unat (pi_nwrite (pipes t p) - pi_nwrite (pipes s p))) bs) R t"
| get: "pipe_run p s0 W R s \<Longrightarrow> outst (piperead_test p n s) = Some t \<Longrightarrow>
    pipe_run p s0 W (R @ delivered (piperead_test p n s)) t"

lemma accepted_count:
  assumes "pipe_ok (pipes s p)" "outst (pipewrite_loop p n bs s) = Some t"
  shows "pqueue (pipes t p) = pqueue (pipes s p) @ take (unat (pi_nwrite (pipes t p) - pi_nwrite (pipes s p))) bs
    \<and> pipe_ok (pipes t p)"
proof -
  obtain k where k: "k \<le> length bs" "pqueue (pipes t p) = pqueue (pipes s p) @ take k bs" "pipe_ok (pipes t p)"
    "pi_nwrite (pipes t p) = pi_nwrite (pipes s p) + of_nat k"
    using pipewrite_loop_appends [OF assms] by blast
  have "k \<le> length (pqueue (pipes t p))" using k(1,2) by simp
  then have "k \<le> 512" using k(3) by (simp add: pipe_ok_def PIPESIZE_def)
  then have "unat (of_nat k :: u32) = k" by (simp add: unat_of_nat)
  then have "unat (pi_nwrite (pipes t p) - pi_nwrite (pipes s p)) = k" unfolding k(4) by simp
  with k show ?thesis by simp
qed

lemma pipe_run_queue:
  assumes "pipe_run p s0 W R s" "pipe_ok (pipes s0 p)" "pqueue (pipes s0 p) = []"
  shows "W = R @ pqueue (pipes s p) \<and> pipe_ok (pipes s p)"
  using assms
proof (induction rule: pipe_run.induct)
  case (put W R s n bs t)
  with accepted_count [of s p n bs t] show ?case by simp
next
  case (get W R s n t)
  with piperead_test_takes [of s p n t 0] show ?case by simp
qed simp_all

text \<open>
  C18. A pipe is a bounded first-in first-out queue under every interleaving of its users, also when
  its 32-bit counters wrap: what the readers have received, followed by what is still in the
  pipe, is what the writers have put in, and the pipe never holds more than \<^verbatim>\<open>PIPESIZE\<close> bytes.
  A \<^verbatim>\<open>write\<close> that reports success has put in all its bytes; a \<^verbatim>\<open>read\<close> that reports success
  delivers what it was asked for or all there is, and reports end of file only when the write end is closed.
\<close>

theorem pipe_fifo:
  assumes "pipe_run p s0 W R s" "pipe_ok (pipes s0 p)" "pqueue (pipes s0 p) = []"
  shows "W = R @ pqueue (pipes s p) \<and> length (pqueue (pipes s p)) \<le> PIPESIZE
    \<and> (\<forall>n bs r t. pipewrite_loop p n bs s = Ret r t \<and> r \<noteq> -1 \<longrightarrow> pqueue (pipes t p) = pqueue (pipes s p) @ bs)
    \<and> (\<forall>n bs r t. piperead_test p n s = Ret (r, bs) t \<and> r \<noteq> -1 \<longrightarrow> r = int (length bs)
         \<and> bs = take (nat n) (pqueue (pipes s p)) \<and> (bs = [] \<and> 0 < n \<longrightarrow> \<not> pi_writeopen (pipes s p)))"
proof -
  have run: "W = R @ pqueue (pipes s p)" and ok: "pipe_ok (pipes s p)" using pipe_run_queue [OF assms] by auto
  have "pqueue (pipes t p) = pqueue (pipes s p) @ bs" if "pipewrite_loop p n bs s = Ret r t" "r \<noteq> -1" for n bs r t
  proof -
    have "outst (pipewrite_loop p n bs s) = Some t" using that by simp
    from pipewrite_loop_appends [OF ok this, of r] obtain k where
      "pqueue (pipes t p) = pqueue (pipes s p) @ take k bs"
      "pipewrite_loop p n bs s = Ret r t \<and> r \<noteq> -1 \<longrightarrow> k = length bs \<and> r = n"
      by (elim exE conjE) rule
    with that show ?thesis by simp
  qed
  moreover have "r = int (length bs) \<and> bs = take (nat n) (pqueue (pipes s p)) \<and> (bs = [] \<and> 0 < n \<longrightarrow> \<not> pi_writeopen (pipes s p))"
    if "piperead_test p n s = Ret (r, bs) t" "r \<noteq> -1" for n bs r t
  proof -
    have "outst (piperead_test p n s) = Some t" using that by simp
    from piperead_test_takes [OF ok this, of r, THEN conjunct2, THEN conjunct2, rule_format, OF conjI, OF that]
    show ?thesis .
  qed
  ultimately show ?thesis using run ok unfolding pipe_ok_def pqueue_length by blast
qed

definition demo_fd :: fdst where
  "demo_fd = \<lparr>held = [L_pipe 0x80201000], procs = [demo_proc 1 RUNNING, demo_proc 2 RUNNABLE], cur = Some 0,
     initproc = Some 0, nextpid = 3, ticks = 0, slk = (\<lambda>_. \<lparr>sl_locked = False, sl_pid = 0\<rparr>),
     phys = (\<lambda>_. 0), freelist = 0, use_lock = True, ld_end = 0x80200000, ld_data = 0x80108000,
     bufs = replicate NBUF zero_buf, lru = rev [0..<NBUF], disk = demo_disk, disksize = 3000, dwrites = [],
     log_start = 2, log_size = 30, log_outstanding = 0, log_committing = False, log_dev = 1, lh = [],
     sblk = decode_sb (demo_disk 1), icache = replicate NINODE zero_inode,
     ftable = replicate NFILE zero_file, pipes = (\<lambda>_. \<lparr>pi_data = replicate 512 0, pi_nread = 0xFFFFFFFF,
        pi_nwrite = 0xFFFFFFFF, pi_readopen = True, pi_writeopen = True\<rparr>)\<rparr>"

text \<open>Two bytes are written across the wrap of the counters, then one is read.\<close>

theorem pipe_fifo_witness:
  "\<exists>t u. pipewrite_loop 0x80201000 2 [10, 20] demo_fd = Ret 2 t \<and> pqueue (pipes t 0x80201000) = [10, 20]
     \<and> piperead_test 0x80201000 1 (t\<lparr>held := [L_pipe 0x80201000]\<rparr>) = Ret (1, [10]) u
     \<and> pipe_run 0x80201000 demo_fd [10, 20] [10] u \<and> pqueue (pipes u 0x80201000) = [20]"
proof -
  let ?p = "0x80201000 :: u32"
  have s: "pipe_ok (pipes demo_fd ?p)" "pqueue (pipes demo_fd ?p) = []"
    by (simp_all add: demo_fd_def pipe_ok_def pqueue_def PIPESIZE_def)
  obtain t where t: "pipewrite_loop ?p 2 [10, 20] demo_fd = Ret 2 t" "pi_nwrite (pipes t ?p) = 1"
    "pi_nread (pipes t ?p) = 0xFFFFFFFF" "pi_nwrite (pipes demo_fd ?p) = 0xFFFFFFFF" "L_ptable \<notin> set (held t)"
    by (simp add: demo_fd_def pipe_full_def pipe_put_def PIPESIZE_def wakeup_eq lock_simps)
  have run: "pipe_run ?p demo_fd [10, 20] [] t"
    using pipe_run.put [OF pipe_run.start, of ?p 2 "[10, 20]" demo_fd t] t by simp
  let ?t = "t\<lparr>held := [L_pipe ?p]\<rparr>"
  have run': "pipe_run ?p demo_fd [10, 20] [] ?t" by (rule pipe_run.other [OF run]) simp
  have q: "pqueue (pipes t ?p) = [10, 20]" using pipe_fifo [OF run s] by simp
  obtain u where u: "piperead_test ?p 1 ?t = Ret (1, [10]) u"
  proof -
    have "pipe_ok (pipes t ?p)" "pi_nread (pipes t ?p) \<noteq> pi_nwrite (pipes t ?p)"
      using pipe_run_queue [OF run s] t(2,3) by simp_all
    from pipe_get_queue(1) [OF this] have "fst (pipe_get (pipes t ?p)) = 10" unfolding q by simp
    then obtain w where "piperead_copy ?p (nat 1) ?t = Ret [10] w" "held w = [L_pipe ?p]"
      using t(2,3) by simp
    then show thesis using that t(2,3) by (simp add: piperead_test_def wakeup_eq lock_simps)
  qed
  have run'': "pipe_run ?p demo_fd [10, 20] [10] u"
    using pipe_run.get [OF run', of 1 u] u by (simp add: delivered_def)
  with pipe_fifo [OF run'' s] t(1) q u show ?thesis by auto
qed

end
