(* ===== verification/Args.thy ===== *)
theory Args
  imports Vm
begin

text \<open>
  The first half of syscall.c: fetching the arguments of a system call from user memory
  and checking the pointers among them. A call that returns -1 gives \<open>None\<close>; a string
  argument is the list of its bytes before the final NUL.
\<close>

section \<open>Fetching\<close>

definition cur_sz :: "('z kmst_scheme, u32) kop" where
  "cur_sz = bindK myproc (\<lambda>p. gets (\<lambda>s. p_sz (proc_at p s)))"

definition fetchint :: "u32 \<Rightarrow> ('z kmst_scheme, u32 option) kop" where
  "fetchint addr =
     bindK cur_sz (\<lambda>sz.
     if addr \<ge> sz \<or> addr + 4 > sz then ret None
     else bindK (vldw addr) (\<lambda>w. ret (Some w)))"

fun fetchstr_loop :: "u32 \<Rightarrow> nat \<Rightarrow> ('z kmst_scheme, byte list option) kop" where
  "fetchstr_loop a 0 = ret None"
| "fetchstr_loop a (Suc k) =
     bindK (vload a) (\<lambda>b.
     if b = 0 then ret (Some [])
     else bindK (fetchstr_loop (a + 1) k) (\<lambda>r. ret (map_option (\<lambda>bs. b # bs) r)))"

definition fetchstr :: "u32 \<Rightarrow> ('z kmst_scheme, byte list option) kop" where
  "fetchstr addr =
     bindK cur_sz (\<lambda>sz.
     if addr \<ge> sz then ret None
     else fetchstr_loop addr (unat sz - unat addr))"

definition argint :: "nat \<Rightarrow> ('z kmst_scheme, u32 option) kop" where
  "argint n = bindK myproc (\<lambda>p. bindK (gets (\<lambda>s. tf_esp (p_tf (proc_at p s)))) (\<lambda>esp.
     fetchint (esp + 4 + 4 * of_nat n)))"

definition argptr :: "nat \<Rightarrow> int \<Rightarrow> ('z kmst_scheme, u32 option) kop" where
  "argptr n sz =
     bindK (argint n) (\<lambda>r. case r of None \<Rightarrow> ret None | Some i \<Rightarrow>
     bindK cur_sz (\<lambda>psz.
     if sz < 0 \<or> i \<ge> psz \<or> i + word_of_int sz > psz then ret None
     else ret (Some i)))"

definition argstr :: "nat \<Rightarrow> ('z kmst_scheme, byte list option) kop" where
  "argstr n = bindK (argint n) (\<lambda>r. case r of None \<Rightarrow> ret None | Some a \<Rightarrow> fetchstr a)"

section \<open>What the checks guarantee\<close>

text \<open>User memory as the kernel sees it: every address below the process size can be read.\<close>

definition umem_mapped :: "'z kmst_scheme \<Rightarrow> bool" where
  "umem_mapped s \<longleftrightarrow> (\<exists>p. cur s = Some p \<and> p_sz (proc_at p s) \<le> KERNBASE
     \<and> (\<forall>a. a < p_sz (proc_at p s) \<longrightarrow> vaddr s False a \<noteq> None))"

text \<open>The byte of user memory at an address, 0 where nothing is mapped.\<close>

definition ubyte :: "'z kmst_scheme \<Rightarrow> u32 \<Rightarrow> byte" where
  "ubyte s a = (case vaddr s False a of Some k \<Rightarrow> phys s (unat k) | None \<Rightarrow> 0)"

lemma vload_ubyte: "vaddr s False a \<noteq> None \<Longrightarrow> vload a s = Ret (ubyte s a) s"
  by (auto simp: vload_def ubyte_def)

lemma vloads_ubytes:
  "\<forall>i < n. vaddr s False (a + of_nat i) \<noteq> None \<Longrightarrow> vloads a n s = Ret (map (\<lambda>i. ubyte s (a + of_nat i)) [0..<n]) s"
proof (induction n arbitrary: a)
  case (Suc n)
  have "vaddr s False (a + 1 + of_nat i) \<noteq> None" if "i < n" for i
    using Suc.prems [rule_format, of "Suc i"] that by (simp add: ac_simps)
  note IH = Suc.IH [rule_format, OF this]
  have "vload a s = Ret (ubyte s a) s" using Suc.prems [rule_format, of 0] by (intro vload_ubyte) simp
  with IH show ?case by (simp add: map_upt_Suc add.assoc del: upt_Suc)
qed simp

lemma add_no_wrap: "(a :: u32) < sz \<Longrightarrow> sz \<le> 0x80000000 \<Longrightarrow> k < 0x80000000 \<Longrightarrow> unat (a + of_nat k) = unat a + k"
proof -
  assume a: "a < sz" "sz \<le> 0x80000000" "k < 0x80000000"
  have "unat a < 0x80000000" using a(1,2) by (simp add: word_less_nat_alt word_le_nat_alt)
  moreover have "unat (of_nat k :: u32) = k" using a(3) by (simp add: unat_of_nat)
  ultimately show ?thesis using a(3) by (subst unat_add_lem [THEN iffD1]) simp_all
qed

text \<open>The string that starts at an address, if its NUL comes before the end.\<close>

lemma fetchstr_loop_ok:
  assumes "\<forall>i < k. vaddr s False (a + of_nat i) \<noteq> None"
  shows "fetchstr_loop a k s =
    Ret (if \<exists>i < k. ubyte s (a + of_nat i) = 0 then Some (cstr k (\<lambda>i. ubyte s (a + of_nat i))) else None) s"
  using assms
proof (induction k arbitrary: a)
  case (Suc k)
  have m: "vaddr s False (a + 1 + of_nat i) \<noteq> None" if "i < k" for i
    using Suc.prems [rule_format, of "Suc i"] that by (simp add: ac_simps)
  note IH = Suc.IH [rule_format, OF this]
  have ld: "vload a s = Ret (ubyte s a) s" using Suc.prems [rule_format, of 0] by (intro vload_ubyte) simp
  have ex: "(\<exists>i < Suc k. ubyte s (a + of_nat i) = 0) \<longleftrightarrow> ubyte s a = 0 \<or> (\<exists>i < k. ubyte s (a + 1 + of_nat i) = 0)"
    by (auto simp: less_Suc_eq_0_disj add.assoc)
  show ?case unfolding ex using ld IH by (auto simp: cstr_Suc add.assoc)
qed simp

lemma cur_sz_ok: "cur s = Some p \<Longrightarrow> cur_sz s = Ret (p_sz (proc_at p s)) s"
  by (simp add: cur_sz_def)

lemma fetchint_ok:
  assumes "umem_mapped s" "cur s = Some p"
  shows "fetchint a s = Ret (if unat a + 4 \<le> unat (p_sz (proc_at p s))
    then Some (of_nat (rd32 (\<lambda>i. ubyte s (a + of_nat i)))) else None) s"
proof -
  let ?sz = "p_sz (proc_at p s)"
  have sz: "?sz \<le> 0x80000000" and map: "\<And>b. b < ?sz \<Longrightarrow> vaddr s False b \<noteq> None"
    using assms by (auto simp: umem_mapped_def KERNBASE_def)
  have wrap: "a < ?sz \<Longrightarrow> k < 5 \<Longrightarrow> unat (a + of_nat k) = unat a + k" for k using add_no_wrap [of a ?sz k] sz by simp
  have iff: "a \<ge> ?sz \<or> a + 4 > ?sz \<longleftrightarrow> \<not> unat a + 4 \<le> unat ?sz"
    using wrap [of 4] by (cases "a < ?sz") (auto simp: word_le_nat_alt word_less_nat_alt not_le)
  show ?thesis
  proof (cases "unat a + 4 \<le> unat ?sz")
    case True
    then have "a < ?sz" by (simp add: word_less_nat_alt)
    then have "\<forall>i < 4. vaddr s False (a + of_nat i) \<noteq> None"
      using map wrap True by (simp add: word_less_nat_alt)
    from vloads_ubytes [OF this] have "vldw a s = Ret (of_nat (rd32 (\<lambda>i. ubyte s (a + of_nat i)))) s"
      by (simp add: vldw_def rd32_def cview_def)
    with True iff show ?thesis by (simp add: fetchint_def cur_sz_ok [OF assms(2)])
  next
    case False
    with iff show ?thesis by (auto simp: fetchint_def cur_sz_ok [OF assms(2)])
  qed
qed

lemma fetchstr_ok:
  fixes a :: u32
  assumes "umem_mapped s" "cur s = Some p"
  defines "n \<equiv> unat (p_sz (proc_at p s)) - unat a"
  shows "fetchstr a s = Ret (if \<exists>i < n. ubyte s (a + of_nat i) = 0
    then Some (cstr n (\<lambda>i. ubyte s (a + of_nat i))) else None) s"
proof (cases "a < p_sz (proc_at p s)")
  case True
  let ?sz = "p_sz (proc_at p s)"
  have sz: "?sz \<le> 0x80000000" and map: "\<And>b. b < ?sz \<Longrightarrow> vaddr s False b \<noteq> None"
    using assms by (auto simp: umem_mapped_def KERNBASE_def)
  have "vaddr s False (a + of_nat i) \<noteq> None" if "i < n" for i
  proof (rule map)
    have "unat ?sz \<le> 0x80000000" using sz by (simp add: word_le_nat_alt)
    then have "unat (a + of_nat i) = unat a + i"
      using add_no_wrap [OF True sz, of i] that True by (simp add: n_def word_less_nat_alt)
    with that show "a + of_nat i < ?sz" by (simp add: n_def word_less_nat_alt)
  qed
  then show ?thesis
    using True fetchstr_loop_ok [of n s a] by (auto simp: fetchstr_def cur_sz_ok [OF assms(2)] n_def not_le)
next
  case False
  then show ?thesis by (simp add: fetchstr_def cur_sz_ok [OF assms(2)] n_def word_less_nat_alt)
qed

lemma argptr_ok:
  assumes "umem_mapped s" "cur s = Some p"
  shows "\<exists>r. argptr n len s = Ret r s \<and> (\<forall>q. r = Some q \<longrightarrow> 0 \<le> len \<and> (len < 2147483648 \<longrightarrow> unat q + nat len \<le> unat (p_sz (proc_at p s))))"
proof -
  let ?sz = "p_sz (proc_at p s)"
  have sz: "?sz \<le> 0x80000000" using assms by (auto simp: umem_mapped_def KERNBASE_def)
  have fits: "unat q + nat len \<le> unat ?sz" if len: "0 \<le> len" "len < 2147483648" "q < ?sz" "q + word_of_int len \<le> ?sz" for q
  proof -
    obtain m where m: "len = int m" using zero_le_imp_eq_int [OF len(1)] by blast
    have "unat (q + of_nat m) = unat q + m" using len(2) by (intro add_no_wrap [OF len(3) sz]) (simp add: m)
    with len(4) show ?thesis by (simp add: m word_le_nat_alt)
  qed
  obtain r where r: "argint n s = Ret r s"
    using fetchint_ok [OF assms] by (simp add: argint_def assms(2))
  show ?thesis
  proof (cases r)
    case None
    with r show ?thesis by (simp add: argptr_def)
  next
    case (Some q)
    show ?thesis
    proof (cases "len < 0 \<or> q \<ge> ?sz \<or> q + word_of_int len > ?sz")
      case True
      with r Some show ?thesis by (simp add: argptr_def cur_sz_ok [OF assms(2)])
    next
      case False
      then have "len < 2147483648 \<longrightarrow> unat q + nat len \<le> unat ?sz" using fits [of q] by (simp add: not_le not_less)
      with r Some False show ?thesis by (simp add: argptr_def cur_sz_ok [OF assms(2)])
    qed
  qed
qed

text \<open>
  C19. Fetching from user memory is safe and exact. With the address space of the process mapped
  below its size, the fetch functions never fault, whatever the user passes; an integer is
  fetched only if its four bytes lie below the size; a string only if it ends in a NUL below the
  size, and then it is the bytes up to that NUL; and a block \<^verbatim>\<open>argptr\<close> accepts lies
  entirely below the size, with no wrap-around.
\<close>

theorem user_fetch_safe:
  assumes "umem_mapped s" "cur s = Some p"
  shows "(\<forall>a. fetchint a s = Ret (if unat a + 4 \<le> unat (p_sz (proc_at p s))
        then Some (of_nat (rd32 (\<lambda>i. ubyte s (a + of_nat i)))) else None) s)
    \<and> (\<forall>a. let n = unat (p_sz (proc_at p s)) - unat a in
        fetchstr a s = Ret (if \<exists>i < n. ubyte s (a + of_nat i) = 0
          then Some (cstr n (\<lambda>i. ubyte s (a + of_nat i))) else None) s)
    \<and> (\<forall>n len. \<exists>r. argptr n len s = Ret r s
        \<and> (\<forall>q. r = Some q \<longrightarrow> 0 \<le> len \<and> (len < 2147483648 \<longrightarrow> unat q + nat len \<le> unat (p_sz (proc_at p s)))))"
  using fetchint_ok [OF assms] fetchstr_ok [OF assms] argptr_ok [OF assms] by (simp add: Let_def)

text \<open>A process of five bytes, \<open>"hi"\<close> at address 1, in a page mapped at address 0.\<close>

definition demo_umem :: kmst where
  "demo_umem = demo_kmst\<lparr>procs := [(demo_proc 1 RUNNING)\<lparr>p_pgdir := 0x80201000, p_sz := 5\<rparr>],
     phys := write_bytes (write_bytes (write_bytes (\<lambda>_. 0) 0x80201000 (le32 0x202007)) 0x80202000 (le32 0x203007))
       0x80203001 [104, 105]\<rparr>"

lemma demo_umem_vaddr:
  assumes "a < 5"
  shows "vaddr demo_umem False a = Some (0x80203000 + a)"
proof -
  have a: "unat a < 5" using assms by (simp add: word_less_nat_alt)
  have "PDX a = 0" "PTX a = 0"
    using a by (simp_all add: word_unat_eq_iff unat_PDX unat_PTX vpn_def)
  moreover have "a AND 0xFFF = a" using a by (simp add: word_unat_eq_iff unat_and_low)
  moreover have "\<not> KERNBASE \<le> a" using a by (simp add: KERNBASE_def word_le_nat_alt)
  ultimately show ?thesis
    by (simp add: vaddr_def demo_umem_def demo_kmst_def proc_at_def ldw_def rd32_def write_bytes_def le32_def
        PTE_P_def PTE_ADDR_def P2V_def KERNBASE_def)
qed

theorem user_fetch_safe_witness:
  "umem_mapped demo_umem \<and> fetchstr 1 demo_umem = Ret (Some [104, 105]) demo_umem
   \<and> fetchint 2 demo_umem = Ret None demo_umem"
proof -
  have f: "cur demo_umem = Some 0" "p_sz (proc_at 0 demo_umem) = 5"
    by (simp_all add: demo_umem_def demo_kmst_def proc_at_def)
  have m: "umem_mapped demo_umem"
    using demo_umem_vaddr by (simp add: umem_mapped_def f KERNBASE_def)
  have u: "ubyte demo_umem 1 = 104" "ubyte demo_umem 2 = 105" "ubyte demo_umem 3 = 0"
    by (simp_all add: ubyte_def demo_umem_vaddr) (simp_all add: demo_umem_def write_bytes_def)
  have "\<exists>i < 4. ubyte demo_umem (1 + of_nat i) = 0" using u(3) by (intro exI [of _ 2]) simp
  moreover have "cstr 4 (\<lambda>i. ubyte demo_umem (1 + of_nat i)) = [104, 105]"
    using u by (simp add: cstr_def upt_rec)
  ultimately show ?thesis
    using user_fetch_safe [OF m f(1)] m by (simp add: f(2) Let_def)
qed

end
