(* ===== verification/Proc.thy ===== *)
theory Proc
  imports File Args
begin

text \<open>
  The process half of proc.c: allocation of a slot, the first process, growing, \<^verbatim>\<open>fork\<close>,
  \<^verbatim>\<open>fork2\<close>, \<^verbatim>\<open>exit\<close>, \<^verbatim>\<open>wait\<close> and \<^verbatim>\<open>forkret\<close>. A process pointer is its slot. What the C code
  stores at the top of the kernel stack (trap frame and first context) is kept in the
  process record. The scheduling policy, a compile-time choice, is an argument where it matters.
\<close>

section \<open>Operations\<close>

definition allocproc :: "policy \<Rightarrow> ('z kmst_scheme, nat option) kop" where
  "allocproc pol =
     seqK (acq L_ptable)
     (bindK (gets (\<lambda>s. find_slot (\<lambda>p. p_state p = UNUSED) (procs s))) (\<lambda>slot.
     case slot of
       None \<Rightarrow> seqK (rel L_ptable) (ret None)
     | Some p \<Rightarrow>
         bindK (gets nextpid) (\<lambda>pid.
         seqK (upd_proc p (\<lambda>q. q\<lparr>p_state := EMBRYO, p_pid := pid\<rparr>))
         (seqK (modify (\<lambda>s. s\<lparr>nextpid := pid + 1\<rparr>))
         (seqK (if is_mlfq pol then upd_proc p (\<lambda>q. q\<lparr>p_tq := 0, p_qlvl := 0, p_priority := 0\<rparr>) else ret ())
         (seqK (upd_proc p (\<lambda>q. q\<lparr>p_id := strncpy_arr (p_id q) (cview (lit ''root'')) 4\<rparr>))
         (seqK (rel L_ptable)
         (bindK kalloc (\<lambda>k.
         seqK (upd_proc p (\<lambda>q. q\<lparr>p_kstack := k\<rparr>))
         (if k = 0 then
            seqK (upd_proc p (\<lambda>q. q\<lparr>p_state := UNUSED\<rparr>)) (ret None)
          else
            seqK (upd_proc p (\<lambda>q. q\<lparr>p_tf_addr := k + KSTACKSIZE - 76,
              p_context_addr := k + KSTACKSIZE - 76 - 4 - 20, p_context := At_forkret\<rparr>))
            (ret (Some p)))))))))))
     )"

text \<open>\<^verbatim>\<open>initcode\<close> is the program the build links into the kernel image.\<close>

definition userinit :: "policy \<Rightarrow> ('z fdst_scheme) devsw \<Rightarrow> byte list \<Rightarrow> ('z fdst_scheme, unit) kop" where
  "userinit pol dv initcode =
     bindK (allocproc pol) (\<lambda>np.
     seqK (modify (\<lambda>s. s\<lparr>initproc := np\<rparr>))
     (bindK (nonnull ''trap'' np) (\<lambda>p.
     bindK setupkvm (\<lambda>pgdir.
     seqK (upd_proc p (\<lambda>q. q\<lparr>p_pgdir := pgdir\<rparr>))
     (seqK (panic_if (pgdir = 0) ''userinit: out of memory?'')
     (seqK (inituvm pgdir initcode)
     (seqK (upd_proc p (\<lambda>q. q\<lparr>p_sz := PGSIZE,
        p_tf := zero_tf\<lparr>tf_cs := 0x1B, tf_ds := 0x23, tf_es := 0x23, tf_ss := 0x23, tf_eflags := 0x200,
          tf_esp := PGSIZE, tf_eip := 0\<rparr>,
        p_name := safestrcpy_arr (p_name q) (cview (lit ''initcode'')) 16\<rparr>))
     (bindK (namei dv (lit ''/'')) (\<lambda>ip.
     seqK (upd_proc p (\<lambda>q. q\<lparr>p_cwd := ip\<rparr>))
     (seqK (acq L_ptable)
     (seqK (upd_proc p (\<lambda>q. q\<lparr>p_state := RUNNABLE\<rparr>))
     (rel L_ptable)))))))))))
     )"

definition growproc :: "int \<Rightarrow> ('z kmst_scheme, int) kop" where
  "growproc n =
     bindK myproc (\<lambda>me.
     seqK (acq L_ptable)
     (bindK (gets (proc_at me)) (\<lambda>q.
     bindK (if n > 0 then allocuvm (p_pgdir q) (p_sz q) (p_sz q + word_of_int n)
            else if n < 0 then deallocuvm (p_pgdir q) (p_sz q) (p_sz q + word_of_int n)
            else ret (p_sz q)) (\<lambda>sz.
     if n \<noteq> 0 \<and> sz = 0 then ret (-1)
     else
       seqK (modify (\<lambda>s. s\<lparr>procs := map (\<lambda>p. if p_pid p = p_pid q then p\<lparr>p_sz := sz\<rparr> else p) (procs s)\<rparr>))
       (seqK (upd_proc me (\<lambda>q. q\<lparr>p_sz := sz\<rparr>))
       (seqK (rel L_ptable)
       (seqK (switchuvm (Some me))
       (ret 0))))))))"

text \<open>The common body of \<^verbatim>\<open>fork\<close> and \<^verbatim>\<open>fork2\<close>; \<open>user\<close> computes the child's account name.\<close>

definition dup_ofile :: "nat \<Rightarrow> nat \<Rightarrow> nat \<Rightarrow> ('z fdst_scheme, unit) kop" where
  "dup_ofile me np i =
     bindK (gets (\<lambda>s. p_ofile (proc_at me s) ! i)) (\<lambda>o'. case o' of
       None \<Rightarrow> ret ()
     | Some f \<Rightarrow> bindK (filedup f) (\<lambda>f. upd_proc np (\<lambda>q. q\<lparr>p_ofile := (p_ofile q)[i := Some f]\<rparr>)))"

definition fork_as :: "policy \<Rightarrow> (proc \<Rightarrow> byte list) \<Rightarrow> ('z fdst_scheme, int) kop" where
  "fork_as pol user =
     bindK myproc (\<lambda>me.
     bindK (allocproc pol) (\<lambda>slot. case slot of None \<Rightarrow> ret (-1) | Some np \<Rightarrow>
     bindK (gets (proc_at me)) (\<lambda>q.
     bindK (copyuvm (p_pgdir q) (p_sz q)) (\<lambda>pgdir.
     seqK (upd_proc np (\<lambda>c. c\<lparr>p_pgdir := pgdir\<rparr>))
     (if pgdir = 0 then
        bindK (gets (\<lambda>s. p_kstack (proc_at np s))) (\<lambda>k.
        seqK (kfree k)
        (seqK (upd_proc np (\<lambda>c. c\<lparr>p_kstack := 0, p_state := UNUSED\<rparr>))
        (ret (-1))))
      else
        seqK (upd_proc np (\<lambda>c. c\<lparr>p_sz := p_sz q, p_parent := Some me, p_tf := (p_tf q)\<lparr>tf_eax := 0\<rparr>,
          p_id := strncpy_arr (p_id c) (cview (user q)) 16\<rparr>))
        (seqK (forK [0..<NOFILE] (dup_ofile me np))
        (bindK (nonnull ''trap'' (p_cwd q)) (\<lambda>cwd.
        bindK (idup cwd) (\<lambda>ip.
        seqK (upd_proc np (\<lambda>c. c\<lparr>p_cwd := Some ip, p_name := safestrcpy_arr (p_name c) (cview (p_name q)) 16\<rparr>))
        (bindK (gets (\<lambda>s. p_pid (proc_at np s))) (\<lambda>pid.
        seqK (acq L_ptable)
        (seqK (upd_proc np (\<lambda>c. c\<lparr>p_state := RUNNABLE\<rparr>))
        (seqK (rel L_ptable)
        (ret pid))))))))))))))"

definition fork :: "policy \<Rightarrow> ('z fdst_scheme, int) kop" where
  "fork pol = fork_as pol p_id"

definition fork2 :: "policy \<Rightarrow> byte list \<Rightarrow> ('z fdst_scheme, int) kop" where
  "fork2 pol username = fork_as pol (\<lambda>_. username)"

definition clear_slot :: "proc \<Rightarrow> proc" where
  "clear_slot p = p\<lparr>p_kstack := 0, p_pid := 0, p_parent := None, p_name := (p_name p)[0 := 0],
     p_killed := False, p_state := UNUSED\<rparr>"

definition exit_same_pid :: "nat \<Rightarrow> nat \<Rightarrow> ('z kmst_scheme, unit) kop" where
  "exit_same_pid me i =
     bindK (gets (\<lambda>s. (proc_at i s, p_pid (proc_at me s)))) (\<lambda>(p, pid).
     if p_pid p = pid \<and> i \<noteq> me then seqK (kfree (p_kstack p)) (upd_proc i clear_slot)
     else ret ())"

definition exit_close :: "nat \<Rightarrow> nat \<Rightarrow> ('z fdst_scheme, unit) kop" where
  "exit_close me fd =
     bindK (gets (\<lambda>s. p_ofile (proc_at me s) ! fd)) (\<lambda>o'. case o' of
       None \<Rightarrow> ret ()
     | Some f \<Rightarrow> seqK (fileclose f) (upd_proc me (\<lambda>q. q\<lparr>p_ofile := (p_ofile q)[fd := None]\<rparr>)))"

definition exit_orphan :: "nat \<Rightarrow> nat \<Rightarrow> ('z kst_scheme, unit) kop" where
  "exit_orphan me i =
     bindK (gets (\<lambda>s. (proc_at i s, initproc s))) (\<lambda>(p, ini).
     if p_parent p = Some me then
       seqK (upd_proc i (\<lambda>p. p\<lparr>p_parent := ini\<rparr>))
       (if p_state p = ZOMBIE then wakeup1 (map_option Ch_proc ini) else ret ())
     else ret ())"

text \<open>The last part of \<^verbatim>\<open>exit\<close>, under \<^verbatim>\<open>ptable.lock\<close>.\<close>

definition exit_final :: "nat \<Rightarrow> ('z kst_scheme, unit) kop" where
  "exit_final me =
     bindK (gets (\<lambda>s. p_parent (proc_at me s))) (\<lambda>parent.
     seqK (wakeup1 (map_option Ch_proc parent))
     (bindK (gets (\<lambda>s. [0..<length (procs s)])) (\<lambda>is.
     seqK (forK is (exit_orphan me))
     (seqK (upd_proc me (\<lambda>q. q\<lparr>p_state := ZOMBIE\<rparr>))
     (seqK sched
     (panic ''zombie exit''))))))"

definition exit_proc :: "('z fdst_scheme, unit) kop" where
  "exit_proc =
     bindK myproc (\<lambda>me.
     seqK (bindK (gets initproc) (\<lambda>ini. panic_if (ini = Some me) ''init exiting''))
     (seqK (acq L_ptable)
     (bindK (gets (\<lambda>s. [0..<length (procs s)])) (\<lambda>is.
     seqK (forK is (exit_same_pid me))
     (seqK (rel L_ptable)
     (seqK (forK [0..<NOFILE] (exit_close me))
     (seqK begin_op
     (bindK (gets (\<lambda>s. p_cwd (proc_at me s))) (\<lambda>cwd.
     bindK (nonnull ''trap'' cwd) (\<lambda>ip.
     seqK (iput ip)
     (seqK end_op
     (seqK (upd_proc me (\<lambda>q. q\<lparr>p_cwd := None\<rparr>))
     (seqK (acq L_ptable)
     (exit_final me))))))))))))))"

text \<open>One scan of the table by \<^verbatim>\<open>wait\<close>, with \<^verbatim>\<open>ptable.lock\<close> held.\<close>

definition wait_scan :: "nat \<Rightarrow> ('z kmst_scheme, int) kop" where
  "wait_scan me =
     bindK (gets (\<lambda>s. find_slot (\<lambda>p. p_parent p = Some me \<and> p_state p = ZOMBIE) (procs s))) (\<lambda>slot.
     case slot of
       Some i \<Rightarrow>
         bindK (gets (proc_at i)) (\<lambda>p.
         seqK (kfree (p_kstack p))
         (seqK (upd_proc i (\<lambda>p. p\<lparr>p_kstack := 0\<rparr>))
         (seqK (freevm (p_pgdir p))
         (seqK (upd_proc i clear_slot)
         (seqK (rel L_ptable)
         (ret (p_pid p)))))))
     | None \<Rightarrow>
         bindK (gets (\<lambda>s. ((\<exists>p \<in> set (procs s). p_parent p = Some me), p_killed (proc_at me s)))) (\<lambda>(kids, killed).
         if \<not> kids \<or> killed then seqK (rel L_ptable) (ret (-1))
         else sleep_on (Ch_proc me) L_ptable))"

definition wait :: "('z kmst_scheme, int) kop" where
  "wait = bindK myproc (\<lambda>me. seqK (acq L_ptable) (wait_scan me))"

definition wait_resume :: "nat \<Rightarrow> ('z kmst_scheme, int) kop" where
  "wait_resume me = seqK (sleep_resume me L_ptable) (wait_scan me)"

text \<open>\<^verbatim>\<open>forkret\<close>; the argument is its static variable \<^verbatim>\<open>first\<close>, the result its new value.\<close>

definition forkret :: "bool \<Rightarrow> ('z fsst_scheme, bool) kop" where
  "forkret first =
     seqK (rel L_ptable)
     (if first then seqK (iinit ROOTDEV) (seqK (initlog ROOTDEV) (ret False)) else ret False)"

end
