(* ===== verification/Exec.thy ===== *)
theory Exec
  imports Proc
begin

text \<open>
  exec.c, with \<^verbatim>\<open>loaduvm\<close> of vm.c and the headers of elf.h: replacing the image of the running
  process. The two headers are read as the 52 and 32 bytes they are on disk; \<^verbatim>\<open>argv\<close> is the list of
  the argument strings up to its null pointer. Messages on the console are left out.
\<close>

section \<open>ELF headers\<close>

definition ELF_MAGIC :: nat where "ELF_MAGIC = 0x464C457F"
definition ELF_PROG_LOAD :: nat where "ELF_PROG_LOAD = 1"

record elfhdr =
  eh_magic :: nat
  eh_entry :: u32
  eh_phoff :: u32
  eh_phnum :: nat

definition dec_elfhdr :: "byte list \<Rightarrow> elfhdr" where
  "dec_elfhdr d = \<lparr>eh_magic = word_at d 0, eh_entry = of_nat (word_at d 24), eh_phoff = of_nat (word_at d 28),
     eh_phnum = rd16 (\<lambda>i. cview d (44 + i))\<rparr>"

record proghdr =
  ph_type :: nat
  ph_off :: u32
  ph_vaddr :: u32
  ph_filesz :: u32
  ph_memsz :: u32

definition dec_proghdr :: "byte list \<Rightarrow> proghdr" where
  "dec_proghdr d = \<lparr>ph_type = word_at d 0, ph_off = of_nat (word_at d 4), ph_vaddr = of_nat (word_at d 8),
     ph_filesz = of_nat (word_at d 16), ph_memsz = of_nat (word_at d 20)\<rparr>"

section \<open>Loading\<close>

fun loaduvm_loop :: "('z fdst_scheme) devsw \<Rightarrow> u32 \<Rightarrow> u32 \<Rightarrow> nat \<Rightarrow> u32 \<Rightarrow> u32 \<Rightarrow> u32 list \<Rightarrow> ('z fdst_scheme, int) kop" where
  "loaduvm_loop dv pgdir addr ip off sz [] = ret 0"
| "loaduvm_loop dv pgdir addr ip off sz (i # is) =
     bindK (walkpgdir pgdir (addr + i) False) (\<lambda>pte.
     seqK (panic_if (pte = 0) ''loaduvm: address should exist'')
     (bindK (gets (\<lambda>s. PTE_ADDR (ldw (phys s) pte))) (\<lambda>pa.
     let n = if sz - i < PGSIZE then sz - i else PGSIZE in
     bindK (readi dv ip (off + i) n) (\<lambda>(r, bs).
     seqK (mstore (\<lambda>m. write_bytes m (unat (P2V pa)) bs))
     (if r \<noteq> int (unat n) then ret (-1)
      else loaduvm_loop dv pgdir addr ip off sz is)))))"

definition loaduvm :: "('z fdst_scheme) devsw \<Rightarrow> u32 \<Rightarrow> u32 \<Rightarrow> nat \<Rightarrow> u32 \<Rightarrow> u32 \<Rightarrow> ('z fdst_scheme, int) kop" where
  "loaduvm dv pgdir addr ip off sz =
     seqK (panic_if (addr mod PGSIZE \<noteq> 0) ''loaduvm: addr must be page aligned'')
     (loaduvm_loop dv pgdir addr ip off sz (uvm_pages 0 sz))"

text \<open>The loop over the program headers; \<open>None\<close> is \<^verbatim>\<open>goto bad\<close>.\<close>

fun exec_load :: "('z fdst_scheme) devsw \<Rightarrow> u32 \<Rightarrow> nat \<Rightarrow> u32 \<Rightarrow> u32 list \<Rightarrow> ('z fdst_scheme, u32 option) kop" where
  "exec_load dv pgdir ip sz [] = ret (Some sz)"
| "exec_load dv pgdir ip sz (off # offs) =
     bindK (readi dv ip off 32) (\<lambda>(r, d).
     let ph = dec_proghdr d in
     if r \<noteq> 32 then ret None
     else if ph_type ph \<noteq> ELF_PROG_LOAD then exec_load dv pgdir ip sz offs
     else if ph_memsz ph < ph_filesz ph then ret None
     else if ph_vaddr ph + ph_memsz ph < ph_vaddr ph then ret None
     else
       bindK (allocuvm pgdir sz (ph_vaddr ph + ph_memsz ph)) (\<lambda>sz'.
       if sz' = 0 then ret None
       else if ph_vaddr ph mod PGSIZE \<noteq> 0 then ret None
       else
         bindK (loaduvm dv pgdir (ph_vaddr ph) ip (ph_off ph) (ph_filesz ph)) (\<lambda>r.
         if r < 0 then ret None else exec_load dv pgdir ip sz' offs)))"

text \<open>Pushing the argument strings; the result has the stack pointer and the address of each string.\<close>

fun exec_args :: "u32 \<Rightarrow> u32 \<Rightarrow> nat \<Rightarrow> byte list list \<Rightarrow> ('z kmst_scheme, (u32 \<times> u32 list) option) kop" where
  "exec_args pgdir sp argc [] = ret (Some (sp, []))"
| "exec_args pgdir sp argc (a # as) =
     (if argc \<ge> MAXARG then ret None
      else
        (let sp' = (sp - (of_nat (length a) + 1)) AND NOT 3 in
         bindK (copyout pgdir sp' (a @ [0])) (\<lambda>r.
         if r < 0 then ret None
         else bindK (exec_args pgdir sp' (argc + 1) as) (\<lambda>r.
           ret (map_option (\<lambda>(end', ptrs). (end', sp' # ptrs)) r)))))"

definition exec_ustack :: "u32 \<Rightarrow> u32 list \<Rightarrow> u32 list" where
  "exec_ustack sp ptrs =
     [0xFFFFFFFF, of_nat (length ptrs), sp - (of_nat (length ptrs) + 1) * 4] @ ptrs @ [0]"

definition last_elem :: "byte list \<Rightarrow> byte list" where
  "last_elem path = rev (takeWhile (\<lambda>c. c \<noteq> slash) (rev path))"

definition exec_bad :: "u32 \<Rightarrow> nat option \<Rightarrow> ('z fdst_scheme, int) kop" where
  "exec_bad pgdir ip =
     seqK (if pgdir \<noteq> 0 then freevm pgdir else ret ())
     (seqK (case ip of Some ip \<Rightarrow> seqK (iunlockput ip) end_op | None \<Rightarrow> ret ())
     (ret (-1)))"

text \<open>The mode bits that let a user do something to a file: those of the owner or those of others.\<close>

definition mode_allows :: "byte list \<Rightarrow> inode \<Rightarrow> u32 \<Rightarrow> u32 \<Rightarrow> bool" where
  "mode_allows who x ubit obit \<longleftrightarrow>
     (if is_owner who x then i_mode x AND ubit \<noteq> 0 else i_mode x AND obit \<noteq> 0)"

definition my_id :: "('z kst_scheme, byte list) kop" where
  "my_id = bindK myproc (\<lambda>p. gets (\<lambda>s. p_id (proc_at p s)))"

text \<open>The second half of \<^verbatim>\<open>exec\<close>: the stack and the switch to the new image.\<close>

definition exec_commit :: "byte list \<Rightarrow> byte list list \<Rightarrow> u32 \<Rightarrow> u32 \<Rightarrow> u32 \<Rightarrow> ('z fdst_scheme, int) kop" where
  "exec_commit path argv pgdir entry sz0 =
     (let sz1 = PGROUNDUP sz0 in
     bindK (allocuvm pgdir sz1 (sz1 + 2 * PGSIZE)) (\<lambda>sz.
     if sz = 0 then exec_bad pgdir None
     else
       seqK (clearpteu pgdir (sz - 2 * PGSIZE))
       (bindK (exec_args pgdir sz 0 argv) (\<lambda>r. case r of None \<Rightarrow> exec_bad pgdir None | Some (sp, ptrs) \<Rightarrow>
       let sp' = sp - (3 + of_nat (length ptrs) + 1) * 4 in
       bindK (copyout pgdir sp' (concat (map (\<lambda>w. le32 (unat w)) (exec_ustack sp ptrs)))) (\<lambda>r.
       if r < 0 then exec_bad pgdir None
       else
         bindK myproc (\<lambda>me.
         bindK (gets (\<lambda>s. p_pgdir (proc_at me s))) (\<lambda>oldpgdir.
         seqK (upd_proc me (\<lambda>q. q\<lparr>p_name := safestrcpy_arr (p_name q) (cview (last_elem path)) 16,
           p_pgdir := pgdir, p_sz := sz, p_tf := (p_tf q)\<lparr>tf_eip := entry, tf_esp := sp'\<rparr>\<rparr>))
         (seqK (switchuvm (Some me))
         (seqK (freevm oldpgdir)
         (ret 0)))))))))
     )"

definition exec :: "('z fdst_scheme) devsw \<Rightarrow> byte list \<Rightarrow> byte list list \<Rightarrow> ('z fdst_scheme, int) kop" where
  "exec dv path argv =
     seqK begin_op
     (bindK (namei dv path) (\<lambda>r. case r of
       None \<Rightarrow> seqK end_op (ret (-1))
     | Some ip \<Rightarrow>
         seqK (ilock ip)
         (bindK my_id (\<lambda>who.
         bindK (gets (inode_at ip)) (\<lambda>x.
         if \<not> mode_allows who x MODE_XUSR MODE_XOTH then exec_bad 0 (Some ip)
         else
           bindK (readi dv ip 0 52) (\<lambda>(r, d).
           let elf = dec_elfhdr d in
           if r \<noteq> 52 then exec_bad 0 (Some ip)
           else if eh_magic elf \<noteq> ELF_MAGIC then exec_bad 0 (Some ip)
           else
             bindK setupkvm (\<lambda>pgdir.
             if pgdir = 0 then exec_bad 0 (Some ip)
             else
               bindK (exec_load dv pgdir ip 0 (map (\<lambda>i. eh_phoff elf + of_nat (32 * i)) [0..<eh_phnum elf])) (\<lambda>r.
               case r of
                 None \<Rightarrow> exec_bad pgdir (Some ip)
               | Some sz \<Rightarrow>
                   seqK (iunlockput ip)
                   (seqK end_op
                   (exec_commit path argv pgdir (eh_entry elf) sz)))))))))
     )"

end
