(* ===== verification/Users.thy ===== *)
theory Users
  imports Exec
begin

text \<open>
  The account part of sysfile.c: the table of users, its file \<^verbatim>\<open>./useraccount\<close>, and \<^verbatim>\<open>chmod\<close>.
  \<^verbatim>\<open>utable.user\<close> is the array of its 320 bytes, as it is written to the file: 32 bytes for each user,
  16 of name and 16 of password. Console messages are left out.
\<close>

section \<open>The account table\<close>

definition NUM_USER :: nat where "NUM_USER = 10"

record ust = fdst +
  ut_ip :: "nat option"
  ut_user :: "byte list"
  ut_online :: "bool list"

definition user_name :: "byte list \<Rightarrow> nat \<Rightarrow> byte list" where
  "user_name u i = take 16 (drop (32 * i) u)"

definition user_pw :: "byte list \<Rightarrow> nat \<Rightarrow> byte list" where
  "user_pw u i = take 16 (drop (32 * i + 16) u)"

definition put_user :: "nat \<Rightarrow> (nat \<Rightarrow> byte) \<Rightarrow> (nat \<Rightarrow> byte) \<Rightarrow> byte list \<Rightarrow> byte list" where
  "put_user i name pw u = splice (splice u (32 * i) (strncpy_bytes 16 name)) (32 * i + 16) (strncpy_bytes 16 pw)"

definition clear_user :: "nat \<Rightarrow> byte list \<Rightarrow> byte list" where
  "clear_user i u = splice u (32 * i) (replicate 32 0)"

definition set_online :: "nat \<Rightarrow> bool \<Rightarrow> ('z ust_scheme, unit) kop" where
  "set_online i b = modify (\<lambda>s. s\<lparr>ut_online := (ut_online s)[i := b]\<rparr>)"

text \<open>The first index of the table that satisfies a test.\<close>

definition first_user :: "(nat \<Rightarrow> bool) \<Rightarrow> nat option" where
  "first_user P = List.find P [0..<NUM_USER]"

definition same_user :: "byte list \<Rightarrow> byte list \<Rightarrow> nat \<Rightarrow> bool" where
  "same_user u name i \<longleftrightarrow> strncmp (cview (user_name u i)) (cview name) 16 = 0"

definition accountcheck :: "byte list \<Rightarrow> byte list \<Rightarrow> ('z ust_scheme, int) kop" where
  "accountcheck name pw =
     seqK (acq L_utable)
     (bindK (gets (\<lambda>s. first_user (\<lambda>i. same_user (ut_user s) name i
        \<and> strncmp (cview (user_pw (ut_user s) i)) (cview pw) 16 = 0))) (\<lambda>hit.
     case hit of
       Some i \<Rightarrow> seqK (set_online i True) (seqK (rel L_utable) (ret 0))
     | None \<Rightarrow> seqK (rel L_utable) (ret (-1))))"

section \<open>Initialisation\<close>

definition set_root :: "('z ust_scheme, unit) kop" where
  "set_root = modify (\<lambda>s. s\<lparr>ut_user := put_user 0 (cview (lit ''root'')) (cview (lit ''0000'')) (ut_user s)\<rparr>)"

definition usysinit_clear :: "('z ust_scheme, unit) kop" where
  "usysinit_clear =
     seqK (acq L_utable)
     (seqK (modify (\<lambda>s. s\<lparr>ut_user := replicate 320 0, ut_online := replicate NUM_USER False\<rparr>))
     (rel L_utable))"

text \<open>The branch that creates the account file; \<open>Inl\<close> is an early return.\<close>

definition usysinit_create :: "('z ust_scheme) devsw \<Rightarrow> nat \<Rightarrow> byte list \<Rightarrow> ('z ust_scheme, int + nat) kop" where
  "usysinit_create dv dp name =
     seqK (acq L_utable)
     (seqK set_root
     (seqK (set_online 0 True)
     (seqK (rel L_utable)
     (bindK (gets (\<lambda>s. i_dev (inode_at dp s))) (\<lambda>dev.
     bindK (ialloc dev T_FILE) (\<lambda>ip.
     seqK (ilock ip)
     (seqK (upd_inode ip (\<lambda>x. x\<lparr>i_major := 0, i_minor := 0, i_nlink := 1,
        i_user := strncpy_bytes 16 (cview (lit ''root''))\<rparr>))
     (seqK (iupdate ip)
     (bindK (gets (\<lambda>s. i_inum (inode_at ip s))) (\<lambda>inum.
     bindK (dirlink dv dp name inum) (\<lambda>r.
     seqK (panic_if (r < 0) ''create: dirlink'')
     (bindK (gets ut_user) (\<lambda>u.
     bindK (writei dv ip u 0 320) (\<lambda>r.
     if r < 0 then seqK (iunlock ip) (seqK end_op (ret (Inl (-1))))
     else
       seqK (iupdate dp)
       (seqK (iupdate ip)
       (seqK (iunlockput dp)
       (seqK (iunlock ip)
       (ret (Inr ip)))))))))))))))))))"

text \<open>The branch that reads an existing one.\<close>

definition usysinit_load :: "('z ust_scheme) devsw \<Rightarrow> byte list \<Rightarrow> nat \<Rightarrow> nat \<Rightarrow> ('z ust_scheme, int + nat) kop" where
  "usysinit_load dv path dp ip0 =
     seqK (iunlockput dp)
     (seqK (ilock ip0)
     (bindK (namei dv path) (\<lambda>r.
     bindK (nonnull ''iunlock'' r) (\<lambda>ip.
     bindK (readi dv ip 0 320) (\<lambda>(r, bs).
     seqK (modify (\<lambda>s. s\<lparr>ut_user := splice (ut_user s) 0 bs\<rparr>))
     (if r < 0 then seqK (iunlock ip) (seqK end_op (ret (Inl (-1))))
      else
        seqK (iunlockput ip)
        (seqK (acq L_utable)
        (seqK set_root
        (seqK (rel L_utable)
        (ret (Inr ip)))))))))))"

definition usysinit :: "('z ust_scheme) devsw \<Rightarrow> ('z ust_scheme, int) kop" where
  "usysinit dv =
     seqK usysinit_clear
     (seqK begin_op
     (bindK (nameiparent dv (lit ''./useraccount'')) (\<lambda>(r, name). case r of
       None \<Rightarrow> ret (-1)
     | Some dp \<Rightarrow>
         seqK (ilock dp)
         (bindK (dirlookup dv dp name) (\<lambda>hit.
         bindK (case hit of None \<Rightarrow> usysinit_create dv dp name
                | Some (ip, _) \<Rightarrow> usysinit_load dv (lit ''./useraccount'') dp ip) (\<lambda>e. case e of
           Inl v \<Rightarrow> ret v
         | Inr ip \<Rightarrow>
             seqK (acq L_utable)
             (seqK (modify (\<lambda>s. s\<lparr>ut_ip := Some ip\<rparr>))
             (seqK (rel L_utable)
             (seqK end_op
             (ret 0))))))))))"

section \<open>Adding and deleting users\<close>

text \<open>The home directory a new user gets, unless something of that name exists.\<close>

definition adduser_home :: "('z ust_scheme) devsw \<Rightarrow> nat \<Rightarrow> byte list \<Rightarrow> ('z ust_scheme, unit) kop" where
  "adduser_home dv dp name =
     bindK (gets (\<lambda>s. i_dev (inode_at dp s))) (\<lambda>dev.
     bindK (ialloc dev T_DIR) (\<lambda>ip.
     seqK (ilock dp)
     (seqK (ilock ip)
     (seqK (upd_inode ip (\<lambda>x. x\<lparr>i_major := 0, i_minor := 0, i_nlink := 1, i_user := strncpy_bytes 16 (cview name)\<rparr>))
     (seqK (iupdate ip)
     (seqK (upd_inode dp (\<lambda>x. x\<lparr>i_nlink := to_short (i_nlink x + 1)\<rparr>))
     (seqK (iupdate dp)
     (bindK (gets (\<lambda>s. (i_inum (inode_at ip s), i_inum (inode_at dp s)))) (\<lambda>(inum, dinum).
     bindK (dirlink dv ip (lit ''.'') inum) (\<lambda>r1.
     bindK (if r1 < 0 then ret r1 else dirlink dv ip (lit ''..'') dinum) (\<lambda>r2.
     seqK (panic_if (r1 < 0 \<or> r2 < 0) ''create dots'')
     (bindK (dirlink dv dp name inum) (\<lambda>r3.
     seqK (panic_if (r3 < 0) ''create: dirlink'')
     (seqK (iupdate ip)
     (seqK (iupdate dp)
     (seqK (iunlockput ip)
     (iunlockput dp)))))))))))))))))"

definition save_users :: "('z ust_scheme) devsw \<Rightarrow> ('z ust_scheme, int \<times> nat) kop" where
  "save_users dv =
     bindK (gets ut_ip) (\<lambda>o'.
     bindK (nonnull ''ilock'' o') (\<lambda>uip.
     seqK (ilock uip)
     (bindK (gets ut_user) (\<lambda>u.
     bindK (writei dv uip u 0 320) (\<lambda>r.
     ret (r, uip))))))"

definition addUser :: "('z ust_scheme) devsw \<Rightarrow> byte list \<Rightarrow> byte list \<Rightarrow> ('z ust_scheme, int) kop" where
  "addUser dv name pw =
     bindK my_id (\<lambda>who.
     if \<not> is_root who then ret (-1)
     else
       seqK (acq L_utable)
       (bindK (gets (\<lambda>s. (first_user (same_user (ut_user s) name), first_user (\<lambda>i. \<not> ut_online s ! i)))) (\<lambda>(dup, slot).
       case (dup, slot) of
         (Some _, _) \<Rightarrow> seqK (rel L_utable) (ret (-1))
       | (None, None) \<Rightarrow> seqK (rel L_utable) (ret (-1))
       | (None, Some i) \<Rightarrow>
           seqK (modify (\<lambda>s. s\<lparr>ut_user := put_user i (cview name) (cview pw) (ut_user s)\<rparr>))
           (seqK (set_online i True)
           (seqK (rel L_utable)
           (seqK begin_op
           (bindK (save_users dv) (\<lambda>(_, uip).
           seqK (iunlock uip)
           (bindK (namei dv (lit ''/'')) (\<lambda>r. case r of
             None \<Rightarrow> seqK end_op (ret (-1))
           | Some dp \<Rightarrow>
               bindK (dirlookup dv dp name) (\<lambda>hit.
               seqK (case hit of None \<Rightarrow> adduser_home dv dp name | Some _ \<Rightarrow> ret ())
               (seqK end_op
               (ret 0)))))))))))))"

definition deleteUser :: "('z ust_scheme) devsw \<Rightarrow> byte list \<Rightarrow> ('z ust_scheme, int) kop" where
  "deleteUser dv name =
     bindK my_id (\<lambda>who.
     if \<not> is_root who then ret (-1)
     else if is_root name then ret (-1)
     else
       seqK (acq L_utable)
       (bindK (gets (\<lambda>s. first_user (same_user (ut_user s) name))) (\<lambda>hit. case hit of
         None \<Rightarrow> seqK (rel L_utable) (ret (-1))
       | Some i \<Rightarrow>
           seqK (modify (\<lambda>s. s\<lparr>ut_user := clear_user i (ut_user s)\<rparr>))
           (seqK (set_online i False)
           (seqK (rel L_utable)
           (seqK begin_op
           (bindK (save_users dv) (\<lambda>(r, uip).
           if r < 0 then seqK end_op (ret (-1))
           else
             seqK (iunlock uip)
             (seqK end_op
             (ret 0)))))))))
     )"

section \<open>chmod\<close>

definition chmod :: "('z ust_scheme) devsw \<Rightarrow> byte list \<Rightarrow> u32 \<Rightarrow> ('z ust_scheme, int) kop" where
  "chmod dv path mode =
     seqK begin_op
     (bindK (namei dv path) (\<lambda>r. case r of
       None \<Rightarrow> seqK end_op (ret (-1))
     | Some ip \<Rightarrow>
         seqK (ilock ip)
         (bindK (gets (inode_at ip)) (\<lambda>x.
         bindK my_id (\<lambda>who.
         if i_type x \<noteq> T_DEV \<and> \<not> is_owner who x then seqK (iunlock ip) (seqK end_op (ret (-1)))
         else if i_type x = T_DEV then seqK (iunlock ip) (seqK end_op (ret (-1)))
         else
           seqK (upd_inode ip (\<lambda>x. x\<lparr>i_mode := mode\<rparr>))
           (seqK (iupdate ip)
           (seqK (iunlock ip)
           (seqK end_op
           (ret 0)))))))))"

end
