(* ===== verification/Sysfile.thy ===== *)
theory Sysfile
  imports Users
begin

text \<open>
  The file-system calls of sysfile.c, with the permission checks of this kernel. Each call
  returns the value the C function returns; system call arguments come from user memory.
\<close>

definition O_RDONLY :: u32 where "O_RDONLY = 0"
definition O_WRONLY :: u32 where "O_WRONLY = 1"
definition O_RDWR :: u32 where "O_RDWR = 2"
definition O_CREATE :: u32 where "O_CREATE = 0x200"

lemmas open_defs = O_RDONLY_def O_WRONLY_def O_RDWR_def O_CREATE_def

section \<open>Account calls\<close>

definition sys_usysinit :: "('z ust_scheme) devsw \<Rightarrow> ('z ust_scheme, int) kop" where
  "sys_usysinit dv = usysinit dv"

definition sys_addUser :: "('z ust_scheme) devsw \<Rightarrow> ('z ust_scheme, int) kop" where
  "sys_addUser dv =
     bindK (argstr 0) (\<lambda>a. case a of None \<Rightarrow> ret (-1) | Some name \<Rightarrow>
     bindK (argstr 1) (\<lambda>b. case b of None \<Rightarrow> ret (-1) | Some pw \<Rightarrow> addUser dv name pw))"

definition sys_deleteUser :: "('z ust_scheme) devsw \<Rightarrow> ('z ust_scheme, int) kop" where
  "sys_deleteUser dv = bindK (argstr 0) (\<lambda>a. case a of None \<Rightarrow> ret (-1) | Some name \<Rightarrow> deleteUser dv name)"

definition sys_accountcheck :: "('z ust_scheme, int) kop" where
  "sys_accountcheck =
     bindK (argstr 0) (\<lambda>a. case a of None \<Rightarrow> ret (-1) | Some name \<Rightarrow>
     bindK (argstr 1) (\<lambda>b. case b of None \<Rightarrow> ret (-1) | Some pw \<Rightarrow> accountcheck name pw))"

definition sys_chmod :: "('z ust_scheme) devsw \<Rightarrow> ('z ust_scheme, int) kop" where
  "sys_chmod dv =
     bindK (argstr 0) (\<lambda>a. case a of None \<Rightarrow> ret (-1) | Some path \<Rightarrow>
     bindK (argint 1) (\<lambda>b. case b of None \<Rightarrow> ret (-1) | Some mode \<Rightarrow> chmod dv path mode))"

section \<open>File descriptors\<close>

definition argfd :: "nat \<Rightarrow> ('z ust_scheme, (nat \<times> nat) option) kop" where
  "argfd n =
     bindK (argint n) (\<lambda>a. case a of None \<Rightarrow> ret None | Some w \<Rightarrow>
     if sint w < 0 \<or> sint w \<ge> int NOFILE then ret None
     else
       bindK myproc (\<lambda>p. bindK (gets (\<lambda>s. p_ofile (proc_at p s) ! nat (sint w))) (\<lambda>o'. case o' of
         None \<Rightarrow> ret None
       | Some f \<Rightarrow> ret (Some (nat (sint w), f)))))"

definition fdalloc :: "nat \<Rightarrow> ('z ust_scheme, int) kop" where
  "fdalloc f =
     bindK myproc (\<lambda>p.
     bindK (gets (\<lambda>s. find_slot (\<lambda>o'. o' = None) (take NOFILE (p_ofile (proc_at p s))))) (\<lambda>slot. case slot of
       Some fd \<Rightarrow> seqK (upd_proc p (\<lambda>q. q\<lparr>p_ofile := (p_ofile q)[fd := Some f]\<rparr>)) (ret (int fd))
     | None \<Rightarrow> ret (-1)))"

definition clear_fd :: "nat \<Rightarrow> ('z ust_scheme, unit) kop" where
  "clear_fd fd = bindK myproc (\<lambda>p. upd_proc p (\<lambda>q. q\<lparr>p_ofile := (p_ofile q)[fd := None]\<rparr>))"

definition sys_dup :: "('z ust_scheme, int) kop" where
  "sys_dup =
     bindK (argfd 0) (\<lambda>a. case a of None \<Rightarrow> ret (-1) | Some (_, f) \<Rightarrow>
     bindK (fdalloc f) (\<lambda>fd.
     if fd < 0 then ret (-1)
     else bindK (filedup f) (\<lambda>_. ret fd)))"

definition sys_read :: "('z ust_scheme) devsw \<Rightarrow> ('z ust_scheme, int) kop" where
  "sys_read dv =
     bindK (argfd 0) (\<lambda>a. case a of None \<Rightarrow> ret (-1) | Some (_, f) \<Rightarrow>
     bindK (argint 2) (\<lambda>b. case b of None \<Rightarrow> ret (-1) | Some n \<Rightarrow>
     bindK (argptr 1 (sint n)) (\<lambda>c. case c of None \<Rightarrow> ret (-1) | Some p \<Rightarrow>
     bindK (fileread dv f (sint n)) (\<lambda>(r, bs).
     seqK (vstores p bs)
     (ret r)))))"

definition sys_write :: "('z ust_scheme) devsw \<Rightarrow> ('z ust_scheme, int) kop" where
  "sys_write dv =
     bindK (argfd 0) (\<lambda>a. case a of None \<Rightarrow> ret (-1) | Some (_, f) \<Rightarrow>
     bindK (argint 2) (\<lambda>b. case b of None \<Rightarrow> ret (-1) | Some n \<Rightarrow>
     bindK (argptr 1 (sint n)) (\<lambda>c. case c of None \<Rightarrow> ret (-1) | Some p \<Rightarrow>
     bindK (vloads p (nat (sint n))) (\<lambda>bs.
     filewrite dv f bs (sint n)))))"

definition sys_close :: "('z ust_scheme, int) kop" where
  "sys_close =
     bindK (argfd 0) (\<lambda>a. case a of None \<Rightarrow> ret (-1) | Some (fd, f) \<Rightarrow>
     seqK (clear_fd fd)
     (seqK (fileclose f)
     (ret 0)))"

text \<open>\<^verbatim>\<open>struct stat\<close> as it lies in memory: two bytes of padding follow each \<^verbatim>\<open>short\<close>.\<close>

definition sys_fstat :: "('z ust_scheme, int) kop" where
  "sys_fstat =
     bindK (argfd 0) (\<lambda>a. case a of None \<Rightarrow> ret (-1) | Some (_, f) \<Rightarrow>
     bindK (argptr 1 40) (\<lambda>c. case c of None \<Rightarrow> ret (-1) | Some p \<Rightarrow>
     bindK (filestat f) (\<lambda>r. case r of None \<Rightarrow> ret (-1) | Some st \<Rightarrow>
     seqK (vstores p (le_short (st_type st)))
     (seqK (vstores (p + 4) (le32 (st_dev st) @ le32 (st_ino st) @ le_short (st_nlink st)))
     (seqK (vstores (p + 16) (le32 (unat (st_size st)) @ st_id st @ le32 (unat (st_mode st))))
     (ret 0))))))"

section \<open>Links and directories\<close>

definition link_bad :: "nat \<Rightarrow> ('z ust_scheme, int) kop" where
  "link_bad ip =
     seqK (ilock ip)
     (seqK (upd_inode ip (\<lambda>x. x\<lparr>i_nlink := to_short (i_nlink x - 1)\<rparr>))
     (seqK (iupdate ip)
     (seqK (iunlockput ip)
     (seqK end_op
     (ret (-1))))))"

definition sys_link :: "('z ust_scheme) devsw \<Rightarrow> ('z ust_scheme, int) kop" where
  "sys_link dv =
     bindK (argstr 0) (\<lambda>a. case a of None \<Rightarrow> ret (-1) | Some old \<Rightarrow>
     bindK (argstr 1) (\<lambda>b. case b of None \<Rightarrow> ret (-1) | Some new \<Rightarrow>
     seqK begin_op
     (bindK (namei dv old) (\<lambda>r. case r of
       None \<Rightarrow> seqK end_op (ret (-1))
     | Some ip \<Rightarrow>
         seqK (ilock ip)
         (bindK (gets (\<lambda>s. i_type (inode_at ip s))) (\<lambda>ty.
         if ty = T_DIR then seqK (iunlockput ip) (seqK end_op (ret (-1)))
         else
           seqK (upd_inode ip (\<lambda>x. x\<lparr>i_nlink := to_short (i_nlink x + 1)\<rparr>))
           (seqK (iupdate ip)
           (seqK (iunlock ip)
           (bindK (nameiparent dv new) (\<lambda>(r, name). case r of
             None \<Rightarrow> link_bad ip
           | Some dp \<Rightarrow>
               seqK (ilock dp)
               (bindK (gets (\<lambda>s. (i_dev (inode_at dp s), i_dev (inode_at ip s), i_inum (inode_at ip s)))) (\<lambda>(ddev, idev, inum).
               bindK (if ddev \<noteq> idev then ret (-1) else dirlink dv dp name inum) (\<lambda>r.
               if r < 0 then seqK (iunlockput dp) (link_bad ip)
               else
                 seqK (iunlockput dp)
                 (seqK (iput ip)
                 (seqK end_op
                 (ret 0))))))))))))))))"

fun isdirempty_from :: "('z ust_scheme) devsw \<Rightarrow> nat \<Rightarrow> nat list \<Rightarrow> ('z ust_scheme, bool) kop" where
  "isdirempty_from dv dp [] = ret True"
| "isdirempty_from dv dp (off # offs) =
     bindK (readi dv dp (of_nat off) 16) (\<lambda>(r, de).
     seqK (panic_if (r \<noteq> 16) ''isdirempty: readi'')
     (if de_inum de \<noteq> 0 then ret False else isdirempty_from dv dp offs))"

definition isdirempty :: "('z ust_scheme) devsw \<Rightarrow> nat \<Rightarrow> ('z ust_scheme, bool) kop" where
  "isdirempty dv dp = bindK (gets (\<lambda>s. i_size (inode_at dp s))) (\<lambda>sz.
     isdirempty_from dv dp (drop 2 (dir_offs sz)))"

text \<open>Whether the mode bits forbid writing; device inodes are not checked.\<close>

definition write_denied :: "byte list \<Rightarrow> inode \<Rightarrow> bool" where
  "write_denied who x \<longleftrightarrow> i_type x \<noteq> T_DEV \<and> \<not> mode_allows who x MODE_WUSR MODE_WOTH"

definition unlink_bad :: "nat \<Rightarrow> ('z ust_scheme, int) kop" where
  "unlink_bad dp = seqK (iunlockput dp) (seqK end_op (ret (-1)))"

definition sys_unlink :: "('z ust_scheme) devsw \<Rightarrow> ('z ust_scheme, int) kop" where
  "sys_unlink dv =
     bindK (argstr 0) (\<lambda>a. case a of None \<Rightarrow> ret (-1) | Some path \<Rightarrow>
     seqK begin_op
     (bindK (nameiparent dv path) (\<lambda>(r, name). case r of
       None \<Rightarrow> seqK end_op (ret (-1))
     | Some dp \<Rightarrow>
         seqK (ilock dp)
         (bindK (gets (inode_at dp)) (\<lambda>d.
         bindK my_id (\<lambda>who.
         if write_denied who d then unlink_bad dp
         else if namecmp (cview name) (cview (lit ''.'')) = 0 \<or> namecmp (cview name) (cview (lit ''..'')) = 0 then unlink_bad dp
         else
           bindK (dirlookup dv dp name) (\<lambda>hit. case hit of
             None \<Rightarrow> unlink_bad dp
           | Some (ip, off) \<Rightarrow>
               seqK (ilock ip)
               (bindK (gets (inode_at ip)) (\<lambda>x.
               seqK (panic_if (i_nlink x < 1) ''unlink: nlink < 1'')
               (bindK (if i_type x = T_DIR then isdirempty dv ip else ret True) (\<lambda>empty.
               if \<not> empty then seqK (iunlockput ip) (unlink_bad dp)
               else
                 bindK (writei dv dp (replicate 16 0) (of_nat off) 16) (\<lambda>r.
                 seqK (panic_if (r \<noteq> 16) ''unlink: writei'')
                 (seqK (if i_type x = T_DIR then
                     seqK (upd_inode dp (\<lambda>x. x\<lparr>i_nlink := to_short (i_nlink x - 1)\<rparr>)) (iupdate dp)
                   else ret ())
                 (seqK (iunlockput dp)
                 (seqK (upd_inode ip (\<lambda>x. x\<lparr>i_nlink := to_short (i_nlink x - 1)\<rparr>))
                 (seqK (iupdate ip)
                 (seqK (iunlockput ip)
                 (seqK end_op
                 (ret 0)))))))))))))))))))"

section \<open>Creating and opening\<close>

text \<open>The last part of \<^verbatim>\<open>create\<close>: a new inode in the locked directory \<open>dp\<close>.\<close>

definition create_new :: "('z ust_scheme) devsw \<Rightarrow> nat \<Rightarrow> byte list \<Rightarrow> int \<Rightarrow> int \<Rightarrow> int \<Rightarrow> ('z ust_scheme, nat option) kop" where
  "create_new dv dp name type major minor =
     bindK (gets (\<lambda>s. i_dev (inode_at dp s))) (\<lambda>dev.
     bindK (ialloc dev type) (\<lambda>ip.
     seqK (ilock ip)
     (bindK my_id (\<lambda>who.
     seqK (upd_inode ip (\<lambda>x. x\<lparr>i_major := major, i_minor := minor, i_nlink := 1,
        i_user := strncpy_bytes 16 (cview who)\<rparr>))
     (seqK (iupdate ip)
     (bindK (gets (\<lambda>s. (i_inum (inode_at ip s), i_inum (inode_at dp s)))) (\<lambda>(inum, dinum).
     seqK (if type = T_DIR then
         seqK (upd_inode dp (\<lambda>x. x\<lparr>i_nlink := to_short (i_nlink x + 1)\<rparr>))
         (seqK (iupdate dp)
         (bindK (dirlink dv ip (lit ''.'') inum) (\<lambda>r1.
         bindK (if r1 < 0 then ret r1 else dirlink dv ip (lit ''..'') dinum) (\<lambda>r2.
         panic_if (r1 < 0 \<or> r2 < 0) ''create dots''))))
       else ret ())
     (bindK (dirlink dv dp name inum) (\<lambda>r.
     seqK (panic_if (r < 0) ''create: dirlink'')
     (seqK (iunlockput dp)
     (ret (Some ip))))))))))))"

definition create :: "('z ust_scheme) devsw \<Rightarrow> byte list \<Rightarrow> int \<Rightarrow> int \<Rightarrow> int \<Rightarrow> ('z ust_scheme, nat option) kop" where
  "create dv path type major minor =
     bindK (nameiparent dv path) (\<lambda>(r, name). case r of
       None \<Rightarrow> ret None
     | Some dp \<Rightarrow>
         seqK (ilock dp)
         (bindK (dirlookup dv dp name) (\<lambda>hit. case hit of
           Some (ip, _) \<Rightarrow>
             seqK (iunlockput dp)
             (seqK (ilock ip)
             (bindK (gets (inode_at ip)) (\<lambda>x.
             bindK my_id (\<lambda>who.
             if write_denied who x then seqK (iunlockput ip) (ret None)
             else if type = T_FILE \<and> i_type x = T_FILE then ret (Some ip)
             else seqK (iunlockput ip) (ret None)))))
         | None \<Rightarrow>
             bindK (gets (inode_at dp)) (\<lambda>d.
             bindK my_id (\<lambda>who.
             if write_denied who d then seqK (iunlockput dp) (ret None)
             else create_new dv dp name type major minor)))))"

text \<open>The permission test of \<^verbatim>\<open>open\<close>: it looks at the three plain modes only.\<close>

definition open_denied :: "byte list \<Rightarrow> inode \<Rightarrow> u32 \<Rightarrow> bool" where
  "open_denied who x omode \<longleftrightarrow> i_type x \<noteq> T_DEV \<and>
     (if omode = O_RDONLY then \<not> mode_allows who x MODE_RUSR MODE_ROTH
      else if omode = O_WRONLY then \<not> mode_allows who x MODE_WUSR MODE_WOTH
      else if omode = O_RDWR then
        \<not> (mode_allows who x MODE_WUSR MODE_WOTH \<and> mode_allows who x MODE_RUSR MODE_ROTH)
      else False)"

text \<open>The second half of \<^verbatim>\<open>open\<close>: a file and a descriptor for the locked inode \<open>ip\<close>.\<close>

definition open_fd :: "nat \<Rightarrow> u32 \<Rightarrow> ('z ust_scheme, int) kop" where
  "open_fd ip omode =
     bindK filealloc (\<lambda>r. case r of
       None \<Rightarrow> seqK (iunlockput ip) (seqK end_op (ret (-1)))
     | Some f \<Rightarrow>
         bindK (fdalloc f) (\<lambda>fd.
         if fd < 0 then seqK (fileclose f) (seqK (iunlockput ip) (seqK end_op (ret (-1))))
         else
           seqK (iunlock ip)
           (seqK end_op
           (seqK (upd_file f (\<lambda>x. x\<lparr>f_type := FD_INODE, f_ip := Some ip, f_off := 0,
              f_readable := (omode AND O_WRONLY = 0),
              f_writable := (omode AND O_WRONLY \<noteq> 0 \<or> omode AND O_RDWR \<noteq> 0)\<rparr>))
           (ret fd)))))"

definition sys_open :: "('z ust_scheme) devsw \<Rightarrow> ('z ust_scheme, int) kop" where
  "sys_open dv =
     bindK (argstr 0) (\<lambda>a. case a of None \<Rightarrow> ret (-1) | Some path \<Rightarrow>
     bindK (argint 1) (\<lambda>b. case b of None \<Rightarrow> ret (-1) | Some omode \<Rightarrow>
     seqK begin_op
     (if omode AND O_CREATE \<noteq> 0 then
        bindK (create dv path T_FILE 0 0) (\<lambda>r. case r of
          None \<Rightarrow> seqK end_op (ret (-1))
        | Some ip \<Rightarrow> open_fd ip omode)
      else
        bindK (namei dv path) (\<lambda>r. case r of
          None \<Rightarrow> seqK end_op (ret (-1))
        | Some ip \<Rightarrow>
            seqK (ilock ip)
            (bindK (gets (inode_at ip)) (\<lambda>x.
            bindK my_id (\<lambda>who.
            if open_denied who x omode then seqK (iunlockput ip) (seqK end_op (ret (-1)))
            else if i_type x = T_DIR \<and> omode \<noteq> O_RDONLY then seqK (iunlockput ip) (seqK end_op (ret (-1)))
            else open_fd ip omode)))))))"

definition sys_mkdir :: "('z ust_scheme) devsw \<Rightarrow> ('z ust_scheme, int) kop" where
  "sys_mkdir dv =
     seqK begin_op
     (bindK (argstr 0) (\<lambda>a.
     bindK (case a of None \<Rightarrow> ret None | Some path \<Rightarrow> create dv path T_DIR 0 0) (\<lambda>r. case r of
       None \<Rightarrow> seqK end_op (ret (-1))
     | Some ip \<Rightarrow> seqK (iunlockput ip) (seqK end_op (ret 0)))))"

definition sys_mknod :: "('z ust_scheme) devsw \<Rightarrow> ('z ust_scheme, int) kop" where
  "sys_mknod dv =
     seqK begin_op
     (bindK (bindK (argstr 0) (\<lambda>a. case a of None \<Rightarrow> ret None | Some path \<Rightarrow>
             bindK (argint 1) (\<lambda>b. case b of None \<Rightarrow> ret None | Some major \<Rightarrow>
             bindK (argint 2) (\<lambda>c. case c of None \<Rightarrow> ret None | Some minor \<Rightarrow>
             create dv path T_DEV (to_short (uint major)) (to_short (uint minor)))))) (\<lambda>r. case r of
       None \<Rightarrow> seqK end_op (ret (-1))
     | Some ip \<Rightarrow> seqK (iunlockput ip) (seqK end_op (ret 0))))"

definition sys_chdir :: "('z ust_scheme) devsw \<Rightarrow> ('z ust_scheme, int) kop" where
  "sys_chdir dv =
     bindK myproc (\<lambda>me.
     seqK begin_op
     (bindK (argstr 0) (\<lambda>a.
     bindK (case a of None \<Rightarrow> ret None | Some path \<Rightarrow> namei dv path) (\<lambda>r. case r of
       None \<Rightarrow> seqK end_op (ret (-1))
     | Some ip \<Rightarrow>
         seqK (ilock ip)
         (bindK (gets (inode_at ip)) (\<lambda>x.
         bindK my_id (\<lambda>who.
         if i_type x \<noteq> T_DEV \<and> \<not> mode_allows who x MODE_XUSR MODE_XOTH then
           seqK (iunlockput ip) (seqK end_op (ret (-1)))
         else if i_type x \<noteq> T_DIR then seqK (iunlockput ip) (seqK end_op (ret (-1)))
         else
           seqK (iunlock ip)
           (bindK (gets (\<lambda>s. p_cwd (proc_at me s))) (\<lambda>cwd.
           bindK (nonnull ''trap'' cwd) (\<lambda>old.
           seqK (iput old)
           (seqK end_op
           (seqK (upd_proc me (\<lambda>q. q\<lparr>p_cwd := Some ip\<rparr>))
           (ret 0)))))))))))))"

section \<open>exec and pipe\<close>

text \<open>The loop that fetches \<^verbatim>\<open>argv\<close>; \<open>k\<close> is the number of entries it may still fetch.\<close>

fun fetch_argv :: "u32 \<Rightarrow> nat \<Rightarrow> ('z ust_scheme, byte list list option) kop" where
  "fetch_argv uargv 0 = ret None"
| "fetch_argv uargv (Suc k) =
     bindK (fetchint uargv) (\<lambda>a. case a of None \<Rightarrow> ret None | Some uarg \<Rightarrow>
     if uarg = 0 then ret (Some [])
     else
       bindK (fetchstr uarg) (\<lambda>b. case b of None \<Rightarrow> ret None | Some str \<Rightarrow>
       bindK (fetch_argv (uargv + 4) k) (\<lambda>r. ret (map_option (\<lambda>rest. str # rest) r))))"

definition sys_exec :: "('z ust_scheme) devsw \<Rightarrow> ('z ust_scheme, int) kop" where
  "sys_exec dv =
     bindK (argstr 0) (\<lambda>a. case a of None \<Rightarrow> ret (-1) | Some path \<Rightarrow>
     bindK (argint 1) (\<lambda>b. case b of None \<Rightarrow> ret (-1) | Some uargv \<Rightarrow>
     bindK (fetch_argv uargv MAXARG) (\<lambda>c. case c of None \<Rightarrow> ret (-1) | Some argv \<Rightarrow>
     exec dv path argv)))"

definition sys_pipe :: "('z ust_scheme, int) kop" where
  "sys_pipe =
     bindK (argptr 0 8) (\<lambda>a. case a of None \<Rightarrow> ret (-1) | Some fd \<Rightarrow>
     bindK pipealloc (\<lambda>r. case r of None \<Rightarrow> ret (-1) | Some (rfile, wfile) \<Rightarrow>
     bindK (fdalloc rfile) (\<lambda>fd0.
     bindK (if fd0 < 0 then ret (-1) else fdalloc wfile) (\<lambda>fd1.
     if fd0 < 0 \<or> fd1 < 0 then
       seqK (if fd0 \<ge> 0 then clear_fd (nat fd0) else ret ())
       (seqK (fileclose rfile)
       (seqK (fileclose wfile)
       (ret (-1))))
     else
       seqK (vstw fd (word_of_int fd0))
       (seqK (vstw (fd + 4) (word_of_int fd1))
       (ret 0))))))"

end
