(* ===== verification/Printf.thy ===== *)
theory Printf
  imports StringLib
begin

text \<open>
  Formatted output: \<^verbatim>\<open>printint\<close> and \<^verbatim>\<open>cprintf\<close> of console.c, \<^verbatim>\<open>printint\<close> and \<^verbatim>\<open>printf\<close> of the user
  library. A function returns the bytes it passes to \<^verbatim>\<open>consputc\<close> or \<^verbatim>\<open>putc\<close>, in order. The words on
  the stack after \<^verbatim>\<open>fmt\<close> are the sequence \<open>args\<close>; \<open>str a\<close> is the C string at address \<open>a\<close>. Character
  codes are written as numbers: 37 is \<^verbatim>\<open>%\<close>, 45 is \<^verbatim>\<open>-\<close>, 99 \<^verbatim>\<open>c\<close>, 100 \<^verbatim>\<open>d\<close>, 112 \<^verbatim>\<open>p\<close>, 115 \<^verbatim>\<open>s\<close>, 120 \<^verbatim>\<open>x\<close>.
\<close>

section \<open>Integers\<close>

lemma quotient_less: "x div b \<noteq> 0 \<Longrightarrow> 2 \<le> b \<Longrightarrow> x div b < (x :: nat)"
  by (intro div_less_dividend) (auto intro: Nat.gr0I)

text \<open>The \<^verbatim>\<open>do ... while\<close> loop: least significant digit first. The base is 10 or 16.\<close>

function digits_rev :: "nat \<Rightarrow> nat \<Rightarrow> nat list" where
  "digits_rev b x = (x mod b) # (if x div b \<noteq> 0 \<and> 2 \<le> b then digits_rev b (x div b) else [])"
  by auto
termination
  by (relation "measure snd") (auto intro!: quotient_less)

declare digits_rev.simps [simp del]

text \<open>The body of both functions; \<open>digs\<close> is the table of digits.\<close>

definition printint :: "byte list \<Rightarrow> u32 \<Rightarrow> nat \<Rightarrow> bool \<Rightarrow> byte list" where
  "printint digs xx base sgnd =
     (let neg = sgnd \<and> sint xx < 0;
          x = if neg then - xx else xx
      in rev (map (\<lambda>d. digs ! d) (digits_rev base (unat x)) @ (if neg then [45] else [])))"

definition cdigits :: "byte list" where "cdigits = lit ''0123456789abcdef''"
definition udigits :: "byte list" where "udigits = lit ''0123456789ABCDEF''"

definition null_str :: "byte list" where "null_str = lit ''(null)''"

section \<open>cprintf\<close>

fun cprintf_loop :: "(u32 \<Rightarrow> byte list) \<Rightarrow> (nat \<Rightarrow> u32) \<Rightarrow> nat \<Rightarrow> byte list \<Rightarrow> byte list" where
  "cprintf_loop str args k [] = []"
| "cprintf_loop str args k [c] = (if c \<noteq> 37 then [c] else [])"
| "cprintf_loop str args k (c # d # r) =
     (if c \<noteq> 37 then c # cprintf_loop str args k (d # r)
      else if d = 100 then printint cdigits (args k) 10 True @ cprintf_loop str args (k + 1) r
      else if d = 120 \<or> d = 112 then printint cdigits (args k) 16 False @ cprintf_loop str args (k + 1) r
      else if d = 115 then
        (if args k = 0 then null_str else str (args k)) @ cprintf_loop str args (k + 1) r
      else if d = 37 then 37 # cprintf_loop str args k r
      else 37 # d # cprintf_loop str args k r)"

definition cprintf :: "(u32 \<Rightarrow> byte list) \<Rightarrow> byte list \<Rightarrow> (nat \<Rightarrow> u32) \<Rightarrow> byte list" where
  "cprintf str fmt args = cprintf_loop str args 0 fmt"

section \<open>printf\<close>

text \<open>The variable \<^verbatim>\<open>state\<close> is 0 or \<^verbatim>\<open>'%'\<close>: \<open>pct\<close> tells which.\<close>

fun printf_loop :: "(u32 \<Rightarrow> byte list) \<Rightarrow> (nat \<Rightarrow> u32) \<Rightarrow> nat \<Rightarrow> bool \<Rightarrow> byte list \<Rightarrow> byte list" where
  "printf_loop str args k pct [] = []"
| "printf_loop str args k pct (c # r) =
     (if \<not> pct then
        if c = 37 then printf_loop str args k True r
        else c # printf_loop str args k False r
      else if c = 100 then printint udigits (args k) 10 True @ printf_loop str args (k + 1) False r
      else if c = 120 \<or> c = 112 then printint udigits (args k) 16 False @ printf_loop str args (k + 1) False r
      else if c = 115 then
        (if args k = 0 then null_str else str (args k)) @ printf_loop str args (k + 1) False r
      else if c = 99 then ucast (args k) # printf_loop str args (k + 1) False r
      else if c = 37 then c # printf_loop str args k False r
      else 37 # c # printf_loop str args k False r)"

definition printf :: "(u32 \<Rightarrow> byte list) \<Rightarrow> byte list \<Rightarrow> (nat \<Rightarrow> u32) \<Rightarrow> byte list" where
  "printf str fmt args = printf_loop str args 0 False fmt"

section \<open>Reading a printed number back\<close>

definition digit_value :: "nat \<Rightarrow> nat list \<Rightarrow> nat" where
  "digit_value b ds = foldr (\<lambda>d a. a * b + d) ds 0"

lemma digits_rev_value: "2 \<le> b \<Longrightarrow> digit_value b (digits_rev b x) = x"
proof (induction b x rule: digits_rev.induct)
  case (1 b x)
  then show ?case by (subst digits_rev.simps) (auto simp: digit_value_def div_eq_0_iff)
qed

lemma digits_rev_less: "2 \<le> b \<Longrightarrow> d \<in> set (digits_rev b x) \<Longrightarrow> d < b"
proof (induction b x rule: digits_rev.induct)
  case (1 b x)
  from 1(3) show ?case by (subst (asm) digits_rev.simps) (use 1(1,2) in \<open>auto split: if_splits\<close>)
qed

lemma digits_rev_ne [simp]: "digits_rev b x \<noteq> []"
  by (subst digits_rev.simps) simp

text \<open>No leading zero, except for the number 0 itself.\<close>

lemma digits_rev_last: "2 \<le> b \<Longrightarrow> last (digits_rev b x) = 0 \<Longrightarrow> x = 0"
proof (induction b x rule: digits_rev.induct)
  case (1 b x)
  from 1(3) show ?case by (subst (asm) digits_rev.simps) (use 1(1,2) in \<open>auto split: if_splits\<close>)
qed

lemma digits_rev_length: "2 \<le> b \<Longrightarrow> x < b ^ n \<Longrightarrow> 0 < n \<Longrightarrow> length (digits_rev b x) \<le> n"
proof (induction n arbitrary: x)
  case (Suc n)
  show ?case
  proof (cases "x div b \<noteq> 0")
    case True
    then have "0 < n" using Suc.prems by (cases n) auto
    moreover have "x div b < b ^ n" using Suc.prems by (simp add: less_mult_imp_div_less mult.commute)
    ultimately show ?thesis using Suc.IH [of "x div b"] Suc.prems by (subst digits_rev.simps) simp
  qed (subst digits_rev.simps, simp)
qed simp

lemma udigit: "d < 10 \<Longrightarrow> udigits ! d = 48 + of_nat d" and cdigit: "d < 10 \<Longrightarrow> cdigits ! d = 48 + of_nat d"
proof -
  have "d < 10 \<Longrightarrow> d \<in> {0, 1, 2, 3, 4, 5, 6, 7, 8, 9}" by auto
  then show "d < 10 \<Longrightarrow> udigits ! d = 48 + of_nat d" "d < 10 \<Longrightarrow> cdigits ! d = 48 + of_nat d"
    by (auto simp: udigits_def cdigits_def lit_def)
qed

lemma atoi_digit:
  assumes "d < 10"
  shows "atoi_loop n ((48 + of_nat d) # cs) =
    (if n * 10 + int d + 48 \<le> 2147483647 then atoi_loop (n * 10 + int d) cs else None)"
proof -
  have b: "unat (48 + of_nat d :: byte) = 48 + d"
    using assms by (subst unat_add_lem [THEN iffD1]) (simp_all add: unat_of_nat)
  then have "uint (48 + of_nat d :: byte) = 48 + int d" by (simp add: uint_nat)
  moreover have "48 \<le> (48 + of_nat d :: byte)" "(48 + of_nat d :: byte) \<le> 57"
    using assms b by (simp_all add: word_le_nat_alt)
  ultimately show ?thesis by (simp add: add.commute add.left_commute)
qed

definition dec_value :: "int \<Rightarrow> nat list \<Rightarrow> int" where
  "dec_value n ds = foldl (\<lambda>a d. a * 10 + int d) n ds"

lemma dec_value_ge: "0 \<le> n \<Longrightarrow> n \<le> dec_value n ds"
proof (induction ds arbitrary: n)
  case (Cons d ds)
  then have "n * 10 + int d \<le> dec_value (n * 10 + int d) ds" by simp
  with Cons.prems show ?case by (simp add: dec_value_def)
qed (simp add: dec_value_def)

text \<open>\<^verbatim>\<open>atoi\<close> reads a string of digits exactly when the last sum it forms stays within \<^verbatim>\<open>int\<close>.\<close>

lemma atoi_digits:
  "ds \<noteq> [] \<Longrightarrow> 0 \<le> n \<Longrightarrow> \<forall>d \<in> set ds. d < 10 \<Longrightarrow>
   atoi_loop n (map (\<lambda>d. 48 + of_nat d) ds) =
     (if dec_value n ds + 48 \<le> 2147483647 then Some (dec_value n ds) else None)"
proof (induction ds arbitrary: n)
  case (Cons d ds)
  have v: "dec_value n (d # ds) = dec_value (n * 10 + int d) ds" by (simp add: dec_value_def)
  show ?case
  proof (cases "ds = []")
    case True
    then show ?thesis using Cons.prems by (simp add: v dec_value_def atoi_digit del: atoi_loop.simps(2))
  next
    case False
    then show ?thesis
      using Cons.IH [of "n * 10 + int d"] Cons.prems dec_value_ge [of "n * 10 + int d" ds]
      by (simp add: v atoi_digit del: atoi_loop.simps(2))
  qed
qed simp

lemma dec_value_rev: "dec_value 0 (rev ds) = int (digit_value 10 ds)"
  by (induction ds) (simp_all add: dec_value_def digit_value_def foldl_append)

lemma atoi_printed:
  "atoi (rev (map (\<lambda>d. udigits ! d) (digits_rev 10 x))) = (if x \<le> 2147483599 then Some (int x) else None)"
proof -
  have small: "\<forall>d \<in> set (digits_rev 10 x). d < 10" using digits_rev_less [of 10] by auto
  have m: "map (\<lambda>d. udigits ! d) (digits_rev 10 x) = map (\<lambda>d. 48 + of_nat d) (digits_rev 10 x)"
    by (rule map_cong) (use small udigit in auto)
  show ?thesis
    unfolding m atoi_def using atoi_digits [of "rev (digits_rev 10 x)" 0] small
    by (auto simp: rev_map dec_value_rev digits_rev_value)
qed

lemma printed_length: "length (digits_rev 10 (unat (w :: u32))) \<le> 10"
  using unat_u32_less [of w] by (intro digits_rev_length) simp_all

lemma printed_hd:
  assumes "hd (rev (map (\<lambda>d. udigits ! d) (digits_rev 10 (unat xx)))) = 48"
  shows "xx = (0 :: u32)"
proof -
  let ?ds = "digits_rev 10 (unat xx)"
  have l: "last ?ds < 10" by (rule digits_rev_less [of _ _ "unat xx"]) simp_all
  have "hd (rev (map (\<lambda>d. udigits ! d) ?ds)) = 48 + of_nat (last ?ds)"
    using l by (simp add: hd_rev last_map udigit)
  moreover have "(of_nat (last ?ds) :: byte) = 0 \<Longrightarrow> last ?ds = 0"
    using l by (simp add: word_unat_eq_iff unat_of_nat)
  ultimately show ?thesis
    using assms digits_rev_last [of 10 "unat xx"] by (auto simp: unat_eq_0)
qed

lemma sint_neg_u32:
  assumes "sint (xx :: u32) \<noteq> - 2147483648"
  shows "sint (- xx) = - sint xx"
proof -
  have "- 2147483648 \<le> sint xx" "sint xx < 2147483648"
    using sint_ge [of xx] sint_lt [of xx] by simp_all
  then have "signed_take_bit 31 (- sint xx) = - sint xx"
    using assms by (intro signed_take_bit_int_eq_self) simp_all
  then show ?thesis by (simp add: sint_word_ariths)
qed

lemma unat_nonneg_u32: "0 \<le> sint (xx :: u32) \<Longrightarrow> int (unat xx) = sint xx"
  using sint_lt [of xx] by (simp add: uint_sint take_bit_int_eq_self)

text \<open>
  C20. A printed integer reads back. For every \<^verbatim>\<open>int\<close> but the smallest (whose negation in
  \<^verbatim>\<open>printint\<close> is undefined in C), the output of \<^verbatim>\<open>printf("%d")\<close> is at most 11 bytes, so it
  fits the 16-byte buffer. A negative number prints as a minus sign and its magnitude. A
  number that is not negative prints without a leading zero, and the library's own \<^verbatim>\<open>atoi\<close>
  reads it back, up to 2147483599: for the 48 largest values \<^verbatim>\<open>n*10 + *s\<close> overflows before
  \<^verbatim>\<open>'0'\<close> is subtracted.
\<close>

theorem printint_roundtrip:
  assumes "sint xx \<noteq> - 2147483648"
  shows "length (printint udigits xx 10 True) \<le> 11
    \<and> (sint xx < 0 \<longrightarrow> sint (- xx) = - sint xx
         \<and> printint udigits xx 10 True = 45 # printint udigits (- xx) 10 True)
    \<and> (0 \<le> sint xx \<longrightarrow> (hd (printint udigits xx 10 True) = 48 \<longrightarrow> xx = 0)
         \<and> atoi (printint udigits xx 10 True) = (if sint xx \<le> 2147483599 then Some (sint xx) else None))"
proof (cases "sint xx < 0")
  case True
  then show ?thesis
    using printed_length [of "- xx"] sint_neg_u32 [OF assms] by (simp add: printint_def)
next
  case False
  then have "unat xx \<le> 2147483599 \<longleftrightarrow> sint xx \<le> 2147483599" using unat_nonneg_u32 [of xx] by linarith
  with False show ?thesis
    using printed_length [of xx] printed_hd [of xx] atoi_printed [of "unat xx"] unat_nonneg_u32 [of xx]
    by (simp add: printint_def)
qed

theorem printint_roundtrip_witness:
  "atoi (printint udigits 42 10 True) = Some 42 \<and> hd (printint udigits (- 42) 10 True) = 45
   \<and> atoi (printint udigits 2147483647 10 True) = None"
  using printint_roundtrip [of 42] printint_roundtrip [of "- 42"] printint_roundtrip [of 2147483647] by simp

section \<open>The two format functions\<close>

text \<open>The bytes of a format that follow a percent sign.\<close>

fun conversions :: "byte list \<Rightarrow> byte set" where
  "conversions [] = {}"
| "conversions [c] = {}"
| "conversions (c # d # r) = (if c = 37 then insert d (conversions r) else conversions (d # r))"

lemma printint_decimal: "printint udigits xx 10 sgnd = printint cdigits xx 10 sgnd"
proof -
  have "map (\<lambda>d. udigits ! d) (digits_rev 10 x) = map (\<lambda>d. cdigits ! d) (digits_rev 10 x)" for x
    by (rule map_cong) (use digits_rev_less [of 10] udigit cdigit in auto)
  then show ?thesis unfolding printint_def Let_def by simp
qed

lemma printf_cprintf_loop:
  "99 \<notin> conversions fmt \<Longrightarrow> 120 \<notin> conversions fmt \<Longrightarrow> 112 \<notin> conversions fmt \<Longrightarrow>
   printf_loop str args k False fmt = cprintf_loop str args k fmt"
  by (induction str args k fmt rule: cprintf_loop.induct) (auto simp: printint_decimal split: if_splits)

text \<open>
  C21. The state machine of the user-level \<^verbatim>\<open>printf\<close> and the kernel's \<^verbatim>\<open>cprintf\<close> print the same
  bytes for every format that has no hexadecimal conversion (their digits differ in case) and
  no \<^verbatim>\<open>%c\<close> (which the kernel does not know).
\<close>

theorem printf_agrees_with_cprintf:
  assumes "conversions fmt \<inter> {99, 112, 120} = {}"
  shows "printf str fmt args = cprintf str fmt args"
  using assms printf_cprintf_loop [of fmt] by (auto simp: printf_def cprintf_def)

theorem printf_agrees_with_cprintf_witness:
  "conversions (lit ''%d is %s%%'') \<inter> {99, 112, 120} = {}
   \<and> printf (\<lambda>_. lit ''odd'') (lit ''%d is %s%%'') (\<lambda>_. 7) = lit ''7 is odd%''"
proof -
  have c: "conversions (lit ''%d is %s%%'') \<inter> {99, 112, 120} = {}" by (simp add: lit_def)
  have "digits_rev 10 7 = [7]" by (subst digits_rev.simps) simp
  then have "cprintf (\<lambda>_. lit ''odd'') (lit ''%d is %s%%'') (\<lambda>_. 7) = lit ''7 is odd%''"
    by (simp add: cprintf_def printint_def lit_def cdigits_def)
  with printf_agrees_with_cprintf [OF c] c show ?thesis by simp
qed

end
