(* ===== verification/Txn.thy ===== *)
theory Txn
  imports Fs
begin

text \<open>
  The file system's view of the cache and the log inside a transaction. \<open>tx s H n\<close> says that the
  running process is between \<^verbatim>\<open>begin_op\<close> and \<^verbatim>\<open>end_op\<close>, has the blocks \<open>H\<close> locked, and may still
  log \<open>n\<close> more blocks. The locale has the laws fs.c relies on; it is interpreted on bio.c
  and log.c.
\<close>

definition tx :: "'z lst_scheme \<Rightarrow> nat set \<Rightarrow> nat \<Rightarrow> bool" where
  "tx s H n \<longleftrightarrow> in_txn s H \<and> log_wf s \<and> \<not> log_committing s \<and> finite H \<and> card H \<le> 2
     \<and> (\<forall>b \<in> H. b \<in> set (lh s) \<or> bview s b = disk s b)
     \<and> (\<forall>b < disksize s. length (bview s b) = BSIZE)
     \<and> length (lh s) + n < LOGSIZE \<and> length (lh s) + n < log_size s \<and> length (lh s) + n + 1 < length (bufs s)"

text \<open>What these operations leave alone.\<close>

definition tx_frame :: "'z lst_scheme \<Rightarrow> 'z lst_scheme \<Rightarrow> bool" where
  "tx_frame s t \<longleftrightarrow> t = s\<lparr>procs := procs t, slk := slk t, bufs := bufs t, lru := lru t, lh := lh t\<rparr>
     \<and> procs_woken (procs s) (procs t) \<and> (\<forall>k. slk t (SL_inode k) = slk s (SL_inode k))
     \<and> length (bufs t) = length (bufs s)"

lemma tx_frame_refl [simp]: "tx_frame s s"
  by (simp add: tx_frame_def)

lemma tx_frame_trans:
  assumes "tx_frame s t" "tx_frame t u"
  shows "tx_frame s u"
proof -
  have t: "t = s\<lparr>procs := procs t, slk := slk t, bufs := bufs t, lru := lru t, lh := lh t\<rparr>"
    and u: "u = t\<lparr>procs := procs u, slk := slk u, bufs := bufs u, lru := lru u, lh := lh u\<rparr>"
    using assms by (simp_all add: tx_frame_def)
  have "u = s\<lparr>procs := procs u, slk := slk u, bufs := bufs u, lru := lru u, lh := lh u\<rparr>"
    by (subst u, subst t) simp
  with assms show ?thesis
    unfolding tx_frame_def using procs_woken_trans by metis
qed

lemma tx_frame_rest:
  assumes "tx_frame s t"
  shows "disksize t = disksize s" "disk t = disk s" "held t = held s" "cur t = cur s" "phys t = phys s"
    "log_start t = log_start s" "log_size t = log_size s" "log_outstanding t = log_outstanding s"
    "log_committing t = log_committing s" "log_dev t = log_dev s" "log_area t = log_area s"
proof -
  have t: "t = s\<lparr>procs := procs t, slk := slk t, bufs := bufs t, lru := lru t, lh := lh t\<rparr>"
    using assms by (simp add: tx_frame_def)
  show "disksize t = disksize s" "disk t = disk s" "held t = held s" "cur t = cur s" "phys t = phys s"
    "log_start t = log_start s" "log_size t = log_size s" "log_outstanding t = log_outstanding s"
    "log_committing t = log_committing s" "log_dev t = log_dev s" "log_area t = log_area s"
    by (subst t, simp add: log_area_def)+
qed

lemma tx_frame_fs:
  assumes "tx_frame s t"
  shows "sblk t = sblk s" "icache t = icache s"
proof -
  have t: "t = s\<lparr>procs := procs t, slk := slk t, bufs := bufs t, lru := lru t, lh := lh t\<rparr>"
    using assms by (simp add: tx_frame_def)
  show "sblk t = sblk s" "icache t = icache s" by (subst t, simp)+
qed

lemma bio_to_tx_frame:
  assumes "bio_frame s t" "disk t = disk s" "dwrites t = dwrites s"
  shows "tx_frame s t"
proof -
  have t: "t = s\<lparr>procs := procs t, slk := slk t, bufs := bufs t, lru := lru t, disk := disk t, dwrites := dwrites t\<rparr>"
    using assms(1) by (simp add: bio_frame_def)
  have "t = s\<lparr>procs := procs t, slk := slk t, bufs := bufs t, lru := lru t, lh := lh t\<rparr>"
    unfolding bio_frame_log(4) [OF assms(1)]
    by (subst t) (simp add: assms(2,3))
  with assms(1) show ?thesis by (simp add: tx_frame_def bio_frame_def)
qed

locale txn_cache =
  fixes txn :: "'s \<Rightarrow> nat set \<Rightarrow> nat \<Rightarrow> bool" and view :: "'s \<Rightarrow> nat \<Rightarrow> byte list"
    and nblocks :: "'s \<Rightarrow> nat" and reserved :: "'s \<Rightarrow> nat set"
    and isbuf :: "'s \<Rightarrow> nat \<Rightarrow> nat \<Rightarrow> bool" and content :: "'s \<Rightarrow> nat \<Rightarrow> byte list"
    and frame :: "'s \<Rightarrow> 's \<Rightarrow> bool"
    and rd :: "nat \<Rightarrow> ('s, nat) kop" and store :: "nat \<Rightarrow> byte list \<Rightarrow> ('s, unit) kop"
    and lg :: "nat \<Rightarrow> ('s, unit) kop" and put :: "nat \<Rightarrow> ('s, unit) kop"
  assumes rd_law: "txn s H n \<Longrightarrow> card H < 2 \<Longrightarrow> b \<notin> H \<Longrightarrow> b < nblocks s \<Longrightarrow>
      \<exists>i t. rd b s = Ret i t \<and> txn t (insert b H) n \<and> view t = view s \<and> isbuf t b i \<and> content t i = view s b
        \<and> (\<forall>c j. c \<in> H \<and> isbuf s c j \<longrightarrow> isbuf t c j) \<and> frame s t"
    and wr_law: "txn s H (Suc n) \<Longrightarrow> b \<in> H \<Longrightarrow> isbuf s b i \<Longrightarrow> length d = BSIZE \<Longrightarrow> b \<notin> reserved s \<Longrightarrow>
      \<exists>s' t. store i d s = Ret () s' \<and> lg i s' = Ret () t \<and> txn t H n \<and> view t = (view s)(b := d)
        \<and> (\<forall>c j. isbuf t c j \<longleftrightarrow> isbuf s c j) \<and> frame s t"
    and put_law: "txn s H n \<Longrightarrow> b \<in> H \<Longrightarrow> isbuf s b i \<Longrightarrow>
      \<exists>t. put i s = Ret () t \<and> txn t (H - {b}) n \<and> view t = view s
        \<and> (\<forall>c j. isbuf t c j \<longleftrightarrow> isbuf s c j) \<and> frame s t"
    and content_law: "txn s H n \<Longrightarrow> b \<in> H \<Longrightarrow> isbuf s b i \<Longrightarrow> content s i = view s b"
    and mono_law: "txn s H m \<Longrightarrow> n \<le> m \<Longrightarrow> txn s H n"
    and frame_sizes: "frame s t \<Longrightarrow> nblocks t = nblocks s \<and> reserved t = reserved s"
    and frame_trans: "frame s t \<Longrightarrow> frame t u \<Longrightarrow> frame s u"
    and card_law: "txn s H n \<Longrightarrow> finite H"
begin

text \<open>Reading a block and giving the buffer back.\<close>

lemma read_block:
  assumes st: "txn s H n" and b: "card H < 2" "b \<notin> H" "b < nblocks s"
  obtains i s1 t where "rd b s = Ret i s1" "content s1 i = view s b" "put i s1 = Ret () t" "txn t H n"
    "view t = view s" "frame s t" "\<And>c j. c \<in> H \<Longrightarrow> isbuf s c j \<Longrightarrow> isbuf t c j"
proof -
  obtain i s1 where s1: "rd b s = Ret i s1" "txn s1 (insert b H) n" "view s1 = view s" "isbuf s1 b i"
    "content s1 i = view s b" "\<forall>c j. c \<in> H \<and> isbuf s c j \<longrightarrow> isbuf s1 c j" "frame s s1"
    using rd_law [OF st b] by blast
  obtain t where t: "put i s1 = Ret () t" "txn t (insert b H - {b}) n" "view t = view s1"
    "\<forall>c j. isbuf t c j \<longleftrightarrow> isbuf s1 c j" "frame s1 t"
    using put_law [OF s1(2) _ s1(4)] by blast
  have "insert b H - {b} = H" using b(2) by simp
  with s1 t frame_trans [OF s1(7) t(5)] that show thesis by auto
qed

text \<open>Reading a block, replacing its content and logging it.\<close>

lemma update_block:
  assumes st: "txn s H (Suc n)" and b: "card H < 2" "b \<notin> H" "b < nblocks s" "b \<notin> reserved s"
    and d: "length (f (view s b)) = BSIZE"
  obtains i s1 s2 s3 t where "rd b s = Ret i s1" "content s1 i = view s b" "store i (f (view s b)) s1 = Ret () s2"
    "lg i s2 = Ret () s3" "put i s3 = Ret () t" "txn t H n" "view t = (view s)(b := f (view s b))" "frame s t"
    "\<And>c j. c \<in> H \<Longrightarrow> isbuf s c j \<Longrightarrow> isbuf t c j"
proof -
  obtain i s1 where s1: "rd b s = Ret i s1" "txn s1 (insert b H) (Suc n)" "view s1 = view s" "isbuf s1 b i"
    "content s1 i = view s b" "\<forall>c j. c \<in> H \<and> isbuf s c j \<longrightarrow> isbuf s1 c j" "frame s s1"
    using rd_law [OF st b(1-3)] by blast
  have "b \<notin> reserved s1" using frame_sizes [OF s1(7)] b(4) by simp
  from wr_law [OF s1(2) _ s1(4) d this]
  obtain s2 s3 where s3: "store i (f (view s b)) s1 = Ret () s2" "lg i s2 = Ret () s3" "txn s3 (insert b H) n"
    "view s3 = (view s1)(b := f (view s b))" "\<forall>c j. isbuf s3 c j \<longleftrightarrow> isbuf s1 c j" "frame s1 s3"
    by auto
  obtain t where t: "put i s3 = Ret () t" "txn t (insert b H - {b}) n" "view t = view s3"
    "\<forall>c j. isbuf t c j \<longleftrightarrow> isbuf s3 c j" "frame s3 t"
    using put_law [OF s3(3), of b i] s3(5) s1(4) by blast
  have "insert b H - {b} = H" using b(2) by simp
  moreover have "frame s t" using frame_trans s1(7) s3(6) t(5) by blast
  ultimately show thesis using that s1(1,3,5,6) s3(1,2,4,5) t(1-4) by auto
qed

end

lemma tx_rd:
  assumes tx: "tx s H n" and b: "card H < 2" "b \<notin> H" "b < disksize s"
  shows "\<exists>i t. bread 1 b s = Ret i t \<and> tx t (insert b H) n \<and> bview t = bview s \<and> cached t b i
    \<and> b_data (bufs t ! i) = bview s b \<and> (\<forall>c j. c \<in> H \<and> cached s c j \<longrightarrow> cached t c j) \<and> tx_frame s t"
proof -
  have st: "bc_st s (set (lh s)) H" and fin: "finite H" using tx by (auto simp: tx_def in_txn_def)
  have "card (set (lh s) \<union> H) \<le> length (lh s) + card H"
    using card_Un_le [of "set (lh s)" H] card_length [of "lh s"] by linarith
  then have room: "card (set (lh s) \<union> H) < length (bufs s)" using tx b(1) by (simp add: tx_def)
  obtain i t where t: "bread 1 b s = Ret i t" "bc_st t (set (lh s)) (insert b H)" "bview t = bview s" "disk t = disk s"
    "dwrites t = dwrites s" "cached t b i" "b_data (bufs t ! i) = bview s b" "\<forall>c j. c \<in> H \<and> cached s c j \<longrightarrow> cached t c j" "bio_frame s t"
    using bio.rd_law [OF st _ fin b(2,3)] room by auto
  note fr = bio_frame_log [OF t(9)] bio_frame_rest [OF t(9)] bio_frame_nbufs [OF t(9)]
  have "b \<in> set (lh s) \<or> bview s b = disk s b" using bio.clean_law [OF st, of b] b(2) by auto
  moreover have "card (insert b H) \<le> 2" using fin b by simp
  moreover have "log_wf t" using log_wf_frame [OF t(9)] tx by (simp add: tx_def)
  ultimately have "tx t (insert b H) n"
    using tx t(2-4) fr fin by (auto simp: tx_def in_txn_def)
  with t bio_to_tx_frame [OF t(9,4,5)] show ?thesis by blast
qed

lemma tx_wr:
  assumes tx: "tx s H (Suc n)" and b: "b \<in> H" "cached s b i" and d: "length d = BSIZE" "b \<notin> log_area s"
  shows "\<exists>s' t. bset i d s = Ret () s' \<and> log_write i s' = Ret () t \<and> tx t H n \<and> bview t = (bview s)(b := d)
    \<and> (\<forall>c j. cached t c j \<longleftrightarrow> cached s c j) \<and> tx_frame s t"
proof -
  have st: "bc_st s (set (lh s)) H" using tx by (auto simp: tx_def in_txn_def)
  define s' where "s' = s\<lparr>bufs := upd_at i (\<lambda>x. x\<lparr>b_data := d\<rparr>) (bufs s)\<rparr>"
  note s1 = bset_ok [OF st b, of d, folded s'_def]
  have txn: "in_txn s' H" using tx s1(1) by (simp add: tx_def in_txn_def s'_def)
  have c: "cached s' b i" using s1(3) b(2) by simp
  have room: "length (lh s') < LOGSIZE" "length (lh s') + 1 < log_size s'" using tx by (simp_all add: tx_def s'_def)
  define t where "t = s'\<lparr>bufs := upd_at i (\<lambda>x. x\<lparr>b_dirty := True\<rparr>) (bufs s'), lh := if b \<in> set (lh s') then lh s' else lh s' @ [b]\<rparr>"
  note s2 = log_write_stays_in_txn [OF txn b(1) c room, folded t_def]
  have lh: "set (lh t) = insert b (set (lh s))" "length (lh t) \<le> length (lh s) + 1" by (auto simp: t_def s'_def)
  have bd: "b < disksize s" using bc_stD(5) [OF st] b(1) by blast
  have "log_wf t" using tx d(2) bd by (auto simp: tx_def log_wf_def t_def s'_def log_area_def)
  moreover have "tx_frame s t" by (simp add: tx_frame_def t_def s'_def)
  ultimately have "tx t H n"
    using tx s2(2,3) s1(2) lh d(1) tx_frame_rest [of s t] by (auto simp: tx_def tx_frame_def)
  with s1(2,3) s2(1,3,4) \<open>tx_frame s t\<close> show ?thesis
    by (intro exI [of _ s'] exI [of _ t]) (simp add: bset_def s'_def)
qed

lemma tx_put:
  assumes tx: "tx s H n" and b: "b \<in> H" "cached s b i"
  shows "\<exists>t. brelse i s = Ret () t \<and> tx t (H - {b}) n \<and> bview t = bview s \<and> (\<forall>c j. cached t c j \<longleftrightarrow> cached s c j)
    \<and> tx_frame s t"
proof -
  have st: "bc_st s (set (lh s)) H" using tx by (auto simp: tx_def in_txn_def)
  have "b \<in> set (lh s) \<or> bview s b = disk s b" using tx b by (auto simp: tx_def)
  from brelse_ok [OF st b this] obtain t where t: "brelse i s = Ret () t" "bc_st t (set (lh s)) (H - {b})" "bview t = bview s"
    "disk t = disk s" "dwrites t = dwrites s" "\<forall>c j. cached t c j \<longleftrightarrow> cached s c j" "bio_frame s t" by blast
  note fr = bio_frame_log [OF t(7)] bio_frame_rest [OF t(7)] bio_frame_nbufs [OF t(7)]
  have "card (H - {b}) \<le> 2" using card_Diff1_le [of H b] tx by (simp add: tx_def)
  moreover have "log_wf t" using log_wf_frame [OF t(7)] tx by (simp add: tx_def)
  ultimately have "tx t (H - {b}) n" using tx t(2-4) fr by (auto simp: tx_def in_txn_def)
  with t bio_to_tx_frame [OF t(7,4,5)] show ?thesis by blast
qed

interpretation tc: txn_cache tx bview disksize log_area cached "\<lambda>s i. b_data (bufs s ! i)" tx_frame "bread 1" bset log_write brelse
proof
  fix s t u :: "'a lst_scheme" and H :: "nat set" and b i n m :: nat and d :: "byte list"
  show "b_data (bufs s ! i) = bview s b" if "tx s H n" "b \<in> H" "cached s b i"
    using held_buf(6) [of s "set (lh s)" H b i] that by (simp add: tx_def in_txn_def)
  show "tx s H n" if "tx s H m" "n \<le> m" using that by (auto simp: tx_def)
  show "disksize t = disksize s \<and> log_area t = log_area s" if "tx_frame s t"
    using tx_frame_rest [OF that] by simp
  show "finite H" if "tx s H n" using that by (simp add: tx_def)
qed (fact tx_rd tx_wr tx_put tx_frame_trans)+

text \<open>At the end of the transaction the state is ready for \<^verbatim>\<open>end_op\<close>.\<close>

lemma tx_op_ready: "tx s {} n \<Longrightarrow> op_ready s \<and> 1 \<le> log_outstanding s"
  by (auto simp: tx_def op_ready_def in_txn_def)

lemma tx_length: "tx s H n \<Longrightarrow> b < disksize s \<Longrightarrow> length (bview s b) = BSIZE"
  by (simp add: tx_def)

end
