(* ===== verification/FsAlloc.thy ===== *)
theory FsAlloc
  imports Txn
begin

text \<open>
  The block allocator of fs.c: layout of the disk, the free bitmap, \<^verbatim>\<open>balloc\<close>, \<^verbatim>\<open>bzero\<close> and \<^verbatim>\<open>bfree\<close>
  on one device inside a transaction.
\<close>

section \<open>Bitmap blocks\<close>

lemma bit_used_iff: "bit_used d bi \<longleftrightarrow> bit (d ! (bi div 8)) (bi mod 8)"
  by (simp add: bit_used_def push_bit_of_1 and_exp_eq_0_iff_not_bit)

lemma same_byte: "(bi :: nat) div 8 = bj div 8 \<Longrightarrow> bi mod 8 = bj mod 8 \<longleftrightarrow> bi = bj"
  by (metis div_mult_mod_eq)

lemma bit_mark_used: "bi < 8 * length d \<Longrightarrow> bit_used (mark_used d bi) bj \<longleftrightarrow> bi = bj \<or> bit_used d bj"
  by (auto simp: bit_used_iff mark_used_def nth_list_update bit_or_iff push_bit_of_1 bit_exp_iff less_mult_imp_div_less mult.commute dest: same_byte)

lemma bit_mark_free: "bi < 8 * length d \<Longrightarrow> bit_used (mark_free d bi) bj \<longleftrightarrow> bi \<noteq> bj \<and> bit_used d bj"
  by (auto simp: bit_used_iff mark_free_def nth_list_update bit_and_iff bit_not_iff push_bit_of_1 bit_exp_iff less_mult_imp_div_less mult.commute dest: same_byte)

lemma length_mark [simp]: "length (mark_used d bi) = length d" "length (mark_free d bi) = length d"
  by (simp_all add: mark_used_def mark_free_def)

section \<open>Layout\<close>

text \<open>The first data block, as mkfs.c lays out the disk: boot block, super block, log, inodes, bitmap, data.\<close>

definition data_start :: "superblock \<Rightarrow> nat" where
  "data_start sb = sb_bmapstart sb + sb_size sb div BPB + 1"

definition layout_ok :: "'z fsst_scheme \<Rightarrow> bool" where
  "layout_ok s \<longleftrightarrow> log_start s + log_size s \<le> sb_inodestart (sblk s)
     \<and> sb_inodestart (sblk s) + sb_ninodes (sblk s) div IPB < sb_bmapstart (sblk s)
     \<and> data_start (sblk s) \<le> sb_size (sblk s) \<and> sb_size (sblk s) \<le> disksize s \<and> sb_size (sblk s) < 4294967296"

definition used :: "'z fsst_scheme \<Rightarrow> nat \<Rightarrow> bool" where
  "used s b = bit_used (bview s (BBLOCK b (sblk s))) (b mod BPB)"

text \<open>Everything before the data blocks is marked used.\<close>

definition bitmap_ok :: "'z fsst_scheme \<Rightarrow> bool" where
  "bitmap_ok s \<longleftrightarrow> layout_ok s \<and> (\<forall>b < data_start (sblk s). used s b)"

lemma layout_frame: "tx_frame s t \<Longrightarrow> layout_ok t = layout_ok s"
  using tx_frame_rest [of s t] tx_frame_fs [of s t] by (simp add: layout_ok_def)

lemma bitmap_block:
  assumes "layout_ok s" "b < sb_size (sblk s)"
  shows "BBLOCK b (sblk s) < data_start (sblk s)" "sb_bmapstart (sblk s) \<le> BBLOCK b (sblk s)"
    "BBLOCK b (sblk s) < disksize s" "BBLOCK b (sblk s) \<notin> log_area s"
proof -
  have "b div BPB \<le> sb_size (sblk s) div BPB" using assms(2) by (intro div_le_mono) simp
  with assms show "BBLOCK b (sblk s) < data_start (sblk s)" "sb_bmapstart (sblk s) \<le> BBLOCK b (sblk s)"
    "BBLOCK b (sblk s) < disksize s" "BBLOCK b (sblk s) \<notin> log_area s"
    by (auto simp: layout_ok_def BBLOCK_def data_start_def log_area_def)
qed

lemma data_block:
  assumes "layout_ok s" "data_start (sblk s) \<le> b" "b < sb_size (sblk s)"
  shows "b < disksize s" "b \<notin> log_area s" "c < sb_size (sblk s) \<Longrightarrow> b \<noteq> BBLOCK c (sblk s)"
  using assms bitmap_block(1) [OF assms(1), of c] by (auto simp: layout_ok_def log_area_def data_start_def)

text \<open>A change of the view that keeps a block's bitmap block keeps its state.\<close>

lemma used_upd_data:
  assumes "bitmap_ok s" "data_start (sblk s) \<le> b" "c < sb_size (sblk s)" "bview t = (bview s)(b := d)" "sblk t = sblk s"
  shows "used t c = used s c"
proof -
  have "b \<noteq> BBLOCK c (sblk s)"
    using bitmap_block(1) [of s c] assms by (auto simp: bitmap_ok_def)
  with assms show ?thesis by (auto simp: used_def)
qed

lemma used_upd_bitmap:
  assumes "length (bview s (BBLOCK b (sblk s))) = BSIZE" "sblk t = sblk s" "bview t (BBLOCK c (sblk s)) =
      (if BBLOCK c (sblk s) = BBLOCK b (sblk s) then f (bview s (BBLOCK b (sblk s))) (b mod BPB) else bview s (BBLOCK c (sblk s)))"
  shows "f = mark_used \<Longrightarrow> used t c \<longleftrightarrow> c = b \<or> used s c" "f = mark_free \<Longrightarrow> used t c \<longleftrightarrow> c \<noteq> b \<and> used s c"
proof -
  have r: "b mod BPB < 8 * length (bview s (BBLOCK b (sblk s)))" using assms(1) by (simp add: BPB_def BSIZE_def)
  have "BBLOCK c (sblk s) = BBLOCK b (sblk s) \<Longrightarrow> (b mod BPB = c mod BPB \<longleftrightarrow> c = b)"
    by (auto simp: BBLOCK_def) (metis div_mult_mod_eq)
  then show "f = mark_used \<Longrightarrow> used t c \<longleftrightarrow> c = b \<or> used s c" "f = mark_free \<Longrightarrow> used t c \<longleftrightarrow> c \<noteq> b \<and> used s c"
    using assms(2,3) bit_mark_used [OF r] bit_mark_free [OF r] by (auto simp: used_def split: if_splits)
qed

section \<open>Zeroing and allocating\<close>

lemma bzero_ok:
  fixes s :: "'z fsst_scheme"
  assumes "tx s H (Suc n)" "card H < 2" "b \<notin> H" "b < disksize s" "b \<notin> log_area s"
  shows "\<exists>t. bzero 1 b s = Ret () t \<and> tx t H n \<and> bview t = (bview s)(b := replicate BSIZE 0) \<and> tx_frame s t
    \<and> (\<forall>c j. c \<in> H \<and> cached s c j \<longrightarrow> cached t c j)"
proof -
  obtain i s1 s2 s3 t where r: "bread 1 b s = Ret i s1" "bset i (replicate BSIZE 0) s1 = Ret () s2"
    "log_write i s2 = Ret () s3" "brelse i s3 = Ret () t" and t: "tx t H n"
    "bview t = (bview s)(b := replicate BSIZE 0)" "tx_frame s t" "\<And>c j. c \<in> H \<Longrightarrow> cached s c j \<Longrightarrow> cached t c j"
    by (rule tc.update_block [OF assms, of "\<lambda>_. replicate BSIZE 0"]) simp_all
  then show ?thesis by (simp add: bzero_def)
qed

text \<open>The state after block \<open>b\<close> has been allocated.\<close>

definition allocated :: "'z fsst_scheme \<Rightarrow> 'z fsst_scheme \<Rightarrow> nat \<Rightarrow> bool" where
  "allocated s t b \<longleftrightarrow> bview t = (bview s)(BBLOCK b (sblk s) := mark_used (bview s (BBLOCK b (sblk s))) (b mod BPB),
     b := replicate BSIZE 0)"

lemma balloc_round:
  fixes s :: "'z fsst_scheme"
  assumes tx: "tx s H (Suc (Suc n))" "card H < 2" and ok: "bitmap_ok s"
    and b: "\<not> used s b" "b < sb_size (sblk s)" "b \<notin> H" "BBLOCK b (sblk s) \<notin> H"
    and find: "List.find (\<lambda>bi. j * BPB + bi < sb_size (sblk s) \<and> \<not> bit_used (bview s (BBLOCK (j * BPB) (sblk s))) bi) [0..<BPB] = Some bi"
    and bi: "b = j * BPB + bi" "bi < BPB"
  shows "\<exists>t. balloc_from 1 (sblk s) ((j * BPB) # bs) s = Ret b t \<and> tx t H n \<and> allocated s t b \<and> tx_frame s t
    \<and> (\<forall>c k. c \<in> H \<and> cached s c k \<longrightarrow> cached t c k)"
proof -
  have e: "BBLOCK (j * BPB) (sblk s) = BBLOCK b (sblk s)" "b mod BPB = bi" using bi by (simp_all add: BBLOCK_def)
  have lay: "layout_ok s" using ok by (simp add: bitmap_ok_def)
  note bb = bitmap_block [OF lay b(2)]
  have data: "data_start (sblk s) \<le> b" using b(1) ok by (auto simp: bitmap_ok_def not_less [symmetric])
  obtain i s1 s2 s3 u where r: "bread 1 (BBLOCK b (sblk s)) s = Ret i s1" "b_data (bufs s1 ! i) = bview s (BBLOCK b (sblk s))"
    "bset i (mark_used (bview s (BBLOCK b (sblk s))) bi) s1 = Ret () s2" "log_write i s2 = Ret () s3" "brelse i s3 = Ret () u"
    and u: "tx u H (Suc n)" "bview u = (bview s)(BBLOCK b (sblk s) := mark_used (bview s (BBLOCK b (sblk s))) bi)" "tx_frame s u"
    "\<And>c j. c \<in> H \<Longrightarrow> cached s c j \<Longrightarrow> cached u c j"
    by (rule tc.update_block [OF tx b(4) bb(3,4), of "\<lambda>d. mark_used d bi"]) (use tx_length [OF tx(1) bb(3)] in simp_all)
  note fr = tx_frame_rest [OF u(3)]
  obtain t where t: "bzero 1 b u = Ret () t" "tx t H n" "bview t = (bview u)(b := replicate BSIZE 0)" "tx_frame u t"
    "\<forall>c j. c \<in> H \<and> cached u c j \<longrightarrow> cached t c j"
    using bzero_ok [OF u(1) tx(2) b(3)] data_block [OF lay data b(2)] fr by auto
  have "balloc_from 1 (sblk s) ((j * BPB) # bs) s = Ret b t"
    using r t(1) find by (simp add: e buf_data_def bi(1) [symmetric])
  then show ?thesis
    using t tx_frame_trans [OF u(3) t(4)] u e(2) by (auto simp: allocated_def)
qed

lemma div_less_ceil: "b < sz \<Longrightarrow> 0 < p \<Longrightarrow> b div p < (sz + p - 1) div (p :: nat)"
proof -
  assume a: "b < sz" "0 < p"
  then have "(b + p) div p \<le> (sz + p - 1) div p" by (intro div_le_mono) simp
  moreover have "(b + p) div p = b div p + 1" using a(2) by (simp add: div_add_self2)
  ultimately show ?thesis by linarith
qed

lemma balloc_loop:
  fixes s :: "'z fsst_scheme"
  assumes "tx s H (Suc (Suc n))" "card H < 2" "bitmap_ok s" "\<not> used s b" "b < sb_size (sblk s)" "\<forall>c < b. used s c" "j \<le> b div BPB"
    "\<forall>c \<in> H. data_start (sblk s) \<le> c \<and> used s c"
  shows "\<exists>t. balloc_from 1 (sblk s) (map (\<lambda>k. k * BPB) [j..<(sb_size (sblk s) + BPB - 1) div BPB]) s = Ret b t
    \<and> tx t H n \<and> allocated s t b \<and> tx_frame s t \<and> (\<forall>c k. c \<in> H \<and> cached s c k \<longrightarrow> cached t c k)"
  using assms
proof (induction "b div BPB - j" arbitrary: j s)
  case less: 0
  note a = less.prems
  have j: "j = b div BPB" using less.hyps a(7) by simp
  have pos: "0 < BPB" by (simp add: BPB_def BSIZE_def)
  have "b div BPB < (sb_size (sblk s) + BPB - 1) div BPB"
    using a(5) pos by (rule div_less_ceil)
  then have l: "[j..<(sb_size (sblk s) + BPB - 1) div BPB] = j # [Suc j..<(sb_size (sblk s) + BPB - 1) div BPB]"
    by (simp add: j upt_conv_Cons)
  have nH: "b \<notin> H" "BBLOCK b (sblk s) \<notin> H"
    using a(4,8) bitmap_block(1) [of s b] a(3,5) by (auto simp: bitmap_ok_def)
  have "List.find (\<lambda>bi. j * BPB + bi < sb_size (sblk s) \<and> \<not> bit_used (bview s (BBLOCK (j * BPB) (sblk s))) bi) [0..<BPB] = Some (b mod BPB)"
  proof -
    have u: "bit_used (bview s (BBLOCK (j * BPB) (sblk s))) k = used s (j * BPB + k)" if "k < BPB" for k
      using that by (simp add: used_def BBLOCK_def)
    have lt: "k < b mod BPB \<Longrightarrow> k < BPB" for k using pos mod_less_divisor [of BPB b] by linarith
    have e: "j * BPB + b mod BPB = b" by (simp add: j)
    have "used s (j * BPB + k)" if "k < b mod BPB" for k using a(6) e that by (metis nat_add_left_cancel_less)
    with e show ?thesis
      using pos a(4-6) by (intro find_Some_iff [THEN iffD2] exI [of _ "b mod BPB"]) (auto simp: u lt)
  qed
  then show ?case unfolding l list.map
    by (rule balloc_round [OF a(1-5) nH]) (simp_all add: j pos)
next
  case (Suc m)
  note a = Suc.prems
  have pos: "0 < BPB" by (simp add: BPB_def BSIZE_def)
  have j: "j < b div BPB" using Suc.hyps(2) by simp
  have full: "Suc j * BPB \<le> b" using j pos by (metis Suc_leI less_eq_div_iff_mult_less_eq)
  then have "j * BPB < sb_size (sblk s)" using a(5) pos by simp
  note bb = bitmap_block [OF _ this]
  have lay: "layout_ok s" using a(3) by (simp add: bitmap_ok_def)
  have "j < (sb_size (sblk s) + BPB - 1) div BPB"
    using j div_less_ceil [OF a(5) pos] by simp
  then have l: "[j..<(sb_size (sblk s) + BPB - 1) div BPB] = j # [Suc j..<(sb_size (sblk s) + BPB - 1) div BPB]"
    by (simp add: upt_conv_Cons)
  have none: "List.find (\<lambda>bi. j * BPB + bi < sb_size (sblk s) \<and> \<not> bit_used (bview s (BBLOCK (j * BPB) (sblk s))) bi) [0..<BPB] = None"
  proof -
    have "used s (j * BPB + k)" if "k < BPB" for k using a(6) full that by simp
    then show ?thesis by (auto simp: find_None_iff used_def BBLOCK_def)
  qed
  have nH: "BBLOCK (j * BPB) (sblk s) \<notin> H" using a(8) bb(1) [OF lay] by fastforce
  obtain i s1 t where r: "bread 1 (BBLOCK (j * BPB) (sblk s)) s = Ret i s1" "b_data (bufs s1 ! i) = bview s (BBLOCK (j * BPB) (sblk s))"
    "brelse i s1 = Ret () t" and t: "tx t H (Suc (Suc n))" "bview t = bview s" "tx_frame s t" "\<And>c j. c \<in> H \<Longrightarrow> cached s c j \<Longrightarrow> cached t c j"
    by (rule tc.read_block [OF a(1,2) nH bb(3) [OF lay]]) simp
  have eq: "sblk t = sblk s" "used t = used s" using tx_frame_fs(1) [OF t(3)] t(2) by (simp_all add: used_def fun_eq_iff)
  have "bitmap_ok t" using a(3) layout_frame [OF t(3)] eq by (simp add: bitmap_ok_def)
  then have "\<exists>u. balloc_from 1 (sblk t) (map (\<lambda>k. k * BPB) [Suc j..<(sb_size (sblk t) + BPB - 1) div BPB]) t = Ret b u
     \<and> tx u H n \<and> allocated t u b \<and> tx_frame t u \<and> (\<forall>c k. c \<in> H \<and> cached t c k \<longrightarrow> cached u c k)"
    using Suc.hyps(2) j a t(1) eq by (intro Suc.hyps(1)) simp_all
  then obtain u where u: "balloc_from 1 (sblk s) (map (\<lambda>k. k * BPB) [Suc j..<(sb_size (sblk s) + BPB - 1) div BPB]) t = Ret b u"
    "tx u H n" "allocated s u b" "tx_frame t u" "\<forall>c k. c \<in> H \<and> cached t c k \<longrightarrow> cached u c k"
    by (auto simp: eq allocated_def t(2))
  then show ?case
    using r none t(4) tx_frame_trans [OF t(3) u(4)] by (auto simp: l buf_data_def)
qed

lemma balloc_ok:
  fixes s :: "'z fsst_scheme"
  assumes "tx s H (Suc (Suc n))" "card H < 2" "bitmap_ok s" "\<not> used s b" "b < sb_size (sblk s)" "\<forall>c < b. used s c"
    "\<forall>c \<in> H. data_start (sblk s) \<le> c \<and> used s c"
  shows "\<exists>t. balloc 1 s = Ret b t \<and> tx t H n \<and> allocated s t b \<and> tx_frame s t \<and> (\<forall>c k. c \<in> H \<and> cached s c k \<longrightarrow> cached t c k)"
  using balloc_loop [OF assms(1-6) _ assms(7), of 0] by (simp add: balloc_def)

lemma used_at: "k < BPB \<Longrightarrow> bit_used (bview s (BBLOCK (j * BPB) (sblk s))) k = used s (j * BPB + k)"
  by (simp add: used_def BBLOCK_def)

lemma balloc_full:
  fixes s :: "'z fsst_scheme"
  assumes "tx s {} n" "layout_ok s" "\<forall>c < sb_size (sblk s). used s c" "\<forall>k \<in> set ks. k * BPB < sb_size (sblk s)"
  shows "balloc_from 1 (sblk s) (map (\<lambda>k. k * BPB) ks) s = Panic ''balloc: out of blocks''"
  using assms
proof (induction ks arbitrary: s)
  case (Cons j ks)
  note a = Cons.prems
  have j: "j * BPB < sb_size (sblk s)" using a(4) by simp
  obtain i s1 t where r: "bread 1 (BBLOCK (j * BPB) (sblk s)) s = Ret i s1" "b_data (bufs s1 ! i) = bview s (BBLOCK (j * BPB) (sblk s))"
    "brelse i s1 = Ret () t" and t: "tx t {} n" "bview t = bview s" "tx_frame s t"
    by (rule tc.read_block [OF a(1) _ _ bitmap_block(3) [OF a(2) j]]) simp_all
  have eq: "sblk t = sblk s" "used t = used s" using tx_frame_fs(1) [OF t(3)] t(2) by (simp_all add: used_def fun_eq_iff)
  have none: "List.find (\<lambda>bi. j * BPB + bi < sb_size (sblk s) \<and> \<not> bit_used (bview s (BBLOCK (j * BPB) (sblk s))) bi) [0..<BPB] = None"
    using a(3) by (auto simp: find_None_iff used_at)
  have "balloc_from 1 (sblk t) (map (\<lambda>k. k * BPB) ks) t = Panic ''balloc: out of blocks''"
    using a t eq layout_frame [OF t(3)] by (intro Cons.IH) simp_all
  then show ?case using r none by (simp add: buf_data_def eq)
qed simp

text \<open>What an allocation and its reverse change of the view of the file system.\<close>

definition other_block :: "superblock \<Rightarrow> nat \<Rightarrow> bool" where
  "other_block sb c \<longleftrightarrow> (\<forall>b < sb_size sb. c \<noteq> BBLOCK b sb)"

lemma data_other: "layout_ok s \<Longrightarrow> data_start (sblk s) \<le> c \<Longrightarrow> other_block (sblk s) c"
  using bitmap_block(1) by (fastforce simp: other_block_def)

lemma allocated_effect:
  fixes s :: "'z fsst_scheme"
  assumes al: "allocated s t b" and ok: "bitmap_ok s" "\<not> used s b" "b < sb_size (sblk s)" and fr: "tx_frame s t"
    and len: "length (bview s (BBLOCK b (sblk s))) = BSIZE"
  shows "bview t b = replicate BSIZE 0" "bitmap_ok t" "c < sb_size (sblk s) \<Longrightarrow> used t c \<longleftrightarrow> c = b \<or> used s c"
    "c \<noteq> b \<Longrightarrow> other_block (sblk s) c \<Longrightarrow> bview t c = bview s c" "data_start (sblk s) \<le> b"
proof -
  have lay: "layout_ok s" using ok by (simp add: bitmap_ok_def)
  show data: "data_start (sblk s) \<le> b" using ok by (auto simp: bitmap_ok_def not_less [symmetric])
  note sb = tx_frame_fs(1) [OF fr]
  note v = al [unfolded allocated_def]
  show "bview t b = replicate BSIZE 0" using v by simp
  show u: "used t c \<longleftrightarrow> c = b \<or> used s c" if "c < sb_size (sblk s)" for c
    by (rule used_upd_bitmap(1) [OF len sb, of c mark_used])
      (use v data_block(3) [OF lay data ok(3), of c] that in auto)
  have "data_start (sblk s) \<le> sb_size (sblk s)" using lay by (simp add: layout_ok_def)
  with u show "bitmap_ok t" using ok(1) layout_frame [OF fr] by (auto simp: bitmap_ok_def sb)
  show "bview t c = bview s c" if "c \<noteq> b" "other_block (sblk s) c"
    using v that ok(3) by (auto simp: other_block_def)
qed

lemma bfree_ok:
  fixes s :: "'z fsst_scheme"
  assumes tx: "tx s H (Suc n)" "card H < 2" and ok: "bitmap_ok s" and b: "used s b" "data_start (sblk s) \<le> b" "b < sb_size (sblk s)"
    and H: "\<forall>c \<in> H. data_start (sblk s) \<le> c"
  shows "\<exists>t. bfree 1 b s = Ret () t \<and> tx t H n \<and> bitmap_ok t \<and> tx_frame s t
    \<and> (\<forall>c < sb_size (sblk s). used t c \<longleftrightarrow> c \<noteq> b \<and> used s c) \<and> (\<forall>c. other_block (sblk s) c \<longrightarrow> bview t c = bview s c)
    \<and> (\<forall>c j. c \<in> H \<and> cached s c j \<longrightarrow> cached t c j)"
proof -
  let ?m = "BBLOCK b (sblk s)"
  have lay: "layout_ok s" using ok by (simp add: bitmap_ok_def)
  note bb = bitmap_block [OF lay b(3)]
  have nH: "?m \<notin> H" using H bb(1) by fastforce
  have len: "length (bview s ?m) = BSIZE" by (rule tx_length [OF tx(1) bb(3)])
  obtain i s1 s2 s3 t where r: "bread 1 ?m s = Ret i s1" "b_data (bufs s1 ! i) = bview s ?m"
    "bset i (mark_free (bview s ?m) (b mod BPB)) s1 = Ret () s2" "log_write i s2 = Ret () s3" "brelse i s3 = Ret () t"
    and t: "tx t H n" "bview t = (bview s)(?m := mark_free (bview s ?m) (b mod BPB))" "tx_frame s t"
    "\<And>c j. c \<in> H \<Longrightarrow> cached s c j \<Longrightarrow> cached t c j"
    by (rule tc.update_block [OF tx nH bb(3,4), of "\<lambda>d. mark_free d (b mod BPB)"]) (use len in simp_all)
  note sb = tx_frame_fs(1) [OF t(3)]
  have u: "used t c \<longleftrightarrow> c \<noteq> b \<and> used s c" for c
    by (rule used_upd_bitmap(2) [OF len sb, of c mark_free]) (use t(2) in auto)
  have "bitmap_ok t" using ok u b(2) layout_frame [OF t(3)] by (auto simp: bitmap_ok_def sb)
  moreover have "bfree 1 b s = Ret () t" using r b(1) by (simp add: bfree_def buf_data_def used_def)
  ultimately show ?thesis using t u b(3) by (auto simp: other_block_def)
qed

text \<open>
  C22. The block allocator. Inside a transaction on a well laid out disk, \<^verbatim>\<open>balloc\<close> returns the first
  free block, zero-filled and marked used, and changes no other block than the bitmap; with no
  free block it panics. \<^verbatim>\<open>bfree\<close> makes exactly its block free again, and panics on a free one. The blocks before
  the data area are never given out.
\<close>

theorem block_allocator_correct:
  fixes s :: "'z fsst_scheme"
  assumes "tx s {} (Suc (Suc n))" "bitmap_ok s"
  shows "(\<forall>b < sb_size (sblk s). \<not> used s b \<and> (\<forall>c < b. used s c) \<longrightarrow>
      (\<exists>t. balloc 1 s = Ret b t \<and> tx t {} n \<and> bitmap_ok t \<and> bview t b = replicate BSIZE 0 \<and> data_start (sblk s) \<le> b
        \<and> (\<forall>c < sb_size (sblk s). used t c \<longleftrightarrow> c = b \<or> used s c) \<and> (\<forall>c. c \<noteq> b \<and> other_block (sblk s) c \<longrightarrow> bview t c = bview s c)))
    \<and> ((\<forall>b < sb_size (sblk s). used s b) \<longrightarrow> balloc 1 s = Panic ''balloc: out of blocks'')
    \<and> (\<forall>b < sb_size (sblk s). used s b \<and> data_start (sblk s) \<le> b \<longrightarrow>
      (\<exists>t. bfree 1 b s = Ret () t \<and> tx t {} (Suc n) \<and> bitmap_ok t \<and> (\<forall>c < sb_size (sblk s). used t c \<longleftrightarrow> c \<noteq> b \<and> used s c)
        \<and> (\<forall>c. other_block (sblk s) c \<longrightarrow> bview t c = bview s c)))
    \<and> (\<forall>b < sb_size (sblk s). \<not> used s b \<longrightarrow> bfree 1 b s = Panic ''freeing free block'')"
proof (intro conjI allI impI; (elim conjE)?)
  have lay: "layout_ok s" using assms(2) by (simp add: bitmap_ok_def)
  fix b assume b: "b < sb_size (sblk s)" "\<not> used s b"
  note bb = bitmap_block [OF lay b(1)]
  note len = tx_length [OF assms(1) bb(3)]
  {
    assume "\<forall>c < b. used s c"
    from balloc_ok [OF assms(1) _ assms(2) b(2,1) this] obtain t where "balloc 1 s = Ret b t" "tx t {} n" "allocated s t b" "tx_frame s t"
      by auto
    with allocated_effect [OF _ assms(2) b(2,1) _ len]
    show "\<exists>t. balloc 1 s = Ret b t \<and> tx t {} n \<and> bitmap_ok t \<and> bview t b = replicate BSIZE 0 \<and> data_start (sblk s) \<le> b
        \<and> (\<forall>c < sb_size (sblk s). used t c \<longleftrightarrow> c = b \<or> used s c) \<and> (\<forall>c. c \<noteq> b \<and> other_block (sblk s) c \<longrightarrow> bview t c = bview s c)"
      by blast
  }
  obtain i s1 t where "bread 1 (BBLOCK b (sblk s)) s = Ret i s1" "b_data (bufs s1 ! i) = bview s (BBLOCK b (sblk s))"
    by (rule tc.read_block [OF assms(1) _ _ bb(3)]) simp_all
  then show "bfree 1 b s = Panic ''freeing free block''"
    using b(2) by (simp add: bfree_def buf_data_def used_def)
next
  have pos: "0 < BPB" by (simp add: BPB_def BSIZE_def)
  assume "\<forall>b < sb_size (sblk s). used s b"
  moreover have "k * BPB < sb_size (sblk s)" if "k < (sb_size (sblk s) + BPB - 1) div BPB" for k
  proof -
    have "Suc k * BPB \<le> sb_size (sblk s) + BPB - 1" using that pos by (metis Suc_leI less_eq_div_iff_mult_less_eq)
    then show ?thesis using pos by simp
  qed
  ultimately show "balloc 1 s = Panic ''balloc: out of blocks''"
    using balloc_full [OF assms(1), of "[0..<(sb_size (sblk s) + BPB - 1) div BPB]"] assms(2) by (simp add: balloc_def bitmap_ok_def)
next
  fix b assume "b < sb_size (sblk s)" "used s b" "data_start (sblk s) \<le> b"
  then show "\<exists>t. bfree 1 b s = Ret () t \<and> tx t {} (Suc n) \<and> bitmap_ok t \<and> (\<forall>c < sb_size (sblk s). used t c \<longleftrightarrow> c \<noteq> b \<and> used s c)
        \<and> (\<forall>c. other_block (sblk s) c \<longrightarrow> bview t c = bview s c)"
    using bfree_ok [OF assms(1) _ assms(2)] by fastforce
qed

section \<open>A concrete file system\<close>

text \<open>An empty cache inside a transaction, over a disk of 3000 blocks with the layout of \<open>demo_disk\<close>.\<close>

definition demo_fs :: "(nat \<Rightarrow> byte list) \<Rightarrow> inode list \<Rightarrow> fsst" where
  "demo_fs d ic = lst.extend ((rebooted d 3000)\<lparr>log_start := 2, log_size := 30, log_dev := 1, log_outstanding := 1\<rparr>)
     (fsst.fields (decode_sb (demo_disk 1)) ic)"

lemma demo_fs_simps [simp]:
  "sblk (demo_fs d ic) = decode_sb (demo_disk 1)" "icache (demo_fs d ic) = ic" "disksize (demo_fs d ic) = 3000"
  "disk (demo_fs d ic) = d" "bufs (demo_fs d ic) = replicate NBUF zero_buf" "held (demo_fs d ic) = []"
  "log_start (demo_fs d ic) = 2" "log_size (demo_fs d ic) = 30" "lh (demo_fs d ic) = []" "cur (demo_fs d ic) = Some 0"
  "procs (demo_fs d ic) = [demo_proc 1 RUNNING, demo_proc 2 RUNNABLE]"
  by (simp_all add: demo_fs_def lst.defs fsst.defs rebooted_def bst.defs booted_def)

lemma demo_fs_cached [simp]: "\<not> cached (demo_fs d ic) b i"
  by (auto simp: cached_def zero_buf_def)

lemma demo_fs_view [simp]: "bview (demo_fs d ic) = d"
  by (rule ext) (simp add: bview_uncached)

lemma demo_fs_tx:
  assumes "\<forall>b < 3000. length (d b) = 512"
  shows "tx (demo_fs d ic) {} 28"
proof -
  have "bc_st (demo_fs d ic) {} {}"
    unfolding bc_st_def
    by (auto simp: quiet_def zero_buf_def NBUF_def MAXOPBLOCKS_def)
      (simp_all add: demo_fs_def lst.defs fsst.defs rebooted_def bst.defs booted_def NBUF_def MAXOPBLOCKS_def)
  with assms show ?thesis
    by (simp add: tx_def in_txn_def log_wf_def NBUF_def MAXOPBLOCKS_def LOGSIZE_def BSIZE_def)
      (simp add: demo_fs_def lst.defs fsst.defs rebooted_def bst.defs booted_def)
qed

definition demo_bitmap :: "byte list" where
  "demo_bitmap = replicate 7 255 @ [7] @ replicate 504 0"

lemma demo_bitmap_used: "bi < 4096 \<Longrightarrow> bit_used demo_bitmap bi \<longleftrightarrow> bi < 59"
proof -
  let ?k = "bi div 8" and ?j = "bi mod 8"
  have e: "bi = 8 * ?k + ?j" by simp
  have "?j \<in> {0, 1, 2, 3, 4, 5, 6, 7}" using mod_less_divisor [of 8 bi] by auto
  then have b: "bit (255 :: byte) ?j" "bit (7 :: byte) ?j \<longleftrightarrow> ?j < 3"
    by (auto simp: bit_iff_odd One_nat_def)
  assume "bi < 4096"
  then have "demo_bitmap ! ?k = (if ?k < 7 then 255 else if ?k = 7 then 7 else 0)"
    by (simp add: demo_bitmap_def nth_append nth_Cons')
  then have "bit_used demo_bitmap bi \<longleftrightarrow> ?k < 7 \<or> ?k = 7 \<and> ?j < 3" using b by (simp add: bit_used_iff)
  also have "\<dots> \<longleftrightarrow> bi < 59" using mod_less_divisor [of 8 bi] e by linarith
  finally show ?thesis .
qed

lemma demo_fs_used: "d 58 = demo_bitmap \<Longrightarrow> b < 4096 \<Longrightarrow> used (demo_fs d ic) b \<longleftrightarrow> b < 59"
  by (simp add: used_def demo_sb BBLOCK_def BPB_def BSIZE_def demo_bitmap_used)

lemma demo_fs_bitmap_ok: "d 58 = demo_bitmap \<Longrightarrow> bitmap_ok (demo_fs d ic)"
  by (simp add: bitmap_ok_def layout_ok_def data_start_def demo_sb IPB_def BPB_def BSIZE_def demo_fs_used)

theorem block_allocator_correct_witness:
  "\<exists>t. balloc 1 (demo_fs (demo_disk(58 := demo_bitmap)) []) = Ret 59 t \<and> tx t {} 26 \<and> used t 59 \<and> \<not> used t 60"
proof -
  let ?d = "demo_disk(58 := demo_bitmap)" and ?n = "26 :: nat"
  have "tx (demo_fs ?d []) {} (Suc (Suc ?n))"
    using demo_fs_tx [of ?d] by (simp add: demo_disk_def demo_bitmap_def)
  note a = block_allocator_correct [OF this, THEN conjunct1, rule_format, of 59]
  have "\<exists>t. balloc 1 (demo_fs ?d []) = Ret 59 t \<and> tx t {} 26
    \<and> (\<forall>c < sb_size (sblk (demo_fs ?d [])). used t c \<longleftrightarrow> c = 59 \<or> used (demo_fs ?d []) c)"
    using a by (auto simp: demo_fs_bitmap_ok demo_fs_used demo_sb)
  then show ?thesis by (auto simp: demo_sb demo_fs_used)
qed

end
