(* ===== verification/FsInode.thy ===== *)
theory FsInode
  imports FsAlloc
begin

text \<open>
  Inodes on disk and in the cache: the 64-byte format, \<^verbatim>\<open>iupdate\<close>, \<^verbatim>\<open>ialloc\<close>, and the reference counts and
  sleep locks of \<^verbatim>\<open>iget\<close>, \<^verbatim>\<open>idup\<close>, \<^verbatim>\<open>ilock\<close>, \<^verbatim>\<open>iunlock\<close>.
\<close>

section \<open>The disk format\<close>

declare add_2_eq_Suc [simp del] add_2_eq_Suc' [simp del]

lemma cview_splice: "off + length src \<le> length d \<Longrightarrow>
    cview (splice d off src) i = (if off \<le> i \<and> i < off + length src then src ! (i - off) else cview d i)"
  by (auto simp: cview_def nth_splice)

lemma word_at_splice:
  assumes "off + length src \<le> length d"
  shows "a + 4 \<le> length src \<Longrightarrow> word_at (splice d off src) (off + a) = word_at src a"
    and "a + 4 \<le> off \<or> off + length src \<le> a \<Longrightarrow> word_at (splice d off src) a = word_at d a"
proof -
  show "word_at (splice d off src) (off + a) = word_at src a" if "a + 4 \<le> length src"
    unfolding word_at_def by (rule rd32_cong) (use assms that in \<open>simp add: nth_splice\<close>)
  show "word_at (splice d off src) a = word_at d a" if "a + 4 \<le> off \<or> off + length src \<le> a"
    unfolding word_at_def by (rule rd32_cong) (use assms that in \<open>auto simp: cview_splice\<close>)
qed

lemma rd16_cong: "(\<And>i. i < 2 \<Longrightarrow> x i = y i) \<Longrightarrow> rd16 x = rd16 y"
  by (simp add: rd16_def)

lemma short_at_splice:
  assumes "off + length src \<le> length d"
  shows "a + 2 \<le> length src \<Longrightarrow> short_at (splice d off src) (off + a) = short_at src a"
    and "a + 2 \<le> off \<or> off + length src \<le> a \<Longrightarrow> short_at (splice d off src) a = short_at d a"
proof -
  show "short_at (splice d off src) (off + a) = short_at src a" if "a + 2 \<le> length src"
    unfolding short_at_def
    by (intro arg_cong [where f = "\<lambda>v. to_short (int v)"] rd16_cong) (use assms that in \<open>simp add: nth_splice\<close>)
  show "short_at (splice d off src) a = short_at d a" if "a + 2 \<le> off \<or> off + length src \<le> a"
    unfolding short_at_def
    by (intro arg_cong [where f = "\<lambda>v. to_short (int v)"] rd16_cong) (use assms that in \<open>auto simp: cview_splice\<close>)
qed

lemma slice_splice:
  assumes "off + length src \<le> length d"
  shows "a + n \<le> length src \<Longrightarrow> take n (drop (off + a) (splice d off src)) = take n (drop a src)"
    and "a + n \<le> off \<or> off + length src \<le> a \<Longrightarrow> take n (drop a (splice d off src)) = take n (drop a d)"
  using assms by (auto simp: list_eq_iff_nth_eq nth_splice)

lemma dec_dinode_splice:
  assumes "length e = 64" "off + 64 \<le> length d"
  shows "dec_dinode (splice d off e) off = dec_dinode e 0"
    and "a + 64 \<le> off \<or> off + 64 \<le> a \<Longrightarrow> dec_dinode (splice d off e) a = dec_dinode d a"
proof -
  have l: "off + length e \<le> length d" using assms by simp
  note s0 = short_at_splice(1) [OF l, of 0]
  show "dec_dinode (splice d off e) off = dec_dinode e 0"
    using assms(1) s0 short_at_splice(1) [OF l] word_at_splice(1) [OF l] slice_splice(1) [OF l]
    by (simp add: dec_dinode_def NDIRECT_def add.assoc del: add_2_eq_Suc')
  show "dec_dinode (splice d off e) a = dec_dinode d a" if "a + 64 \<le> off \<or> off + 64 \<le> a"
    using assms(1) that short_at_splice(2) [OF l] word_at_splice(2) [OF l] slice_splice(2) [OF l]
    by (simp add: dec_dinode_def NDIRECT_def del: add_2_eq_Suc') auto
qed

definition short_ok :: "int \<Rightarrow> bool" where
  "short_ok i \<longleftrightarrow> - 32768 \<le> i \<and> i < 32768"

definition dinode_ok :: "dinode \<Rightarrow> bool" where
  "dinode_ok di \<longleftrightarrow> short_ok (d_type di) \<and> short_ok (d_major di) \<and> short_ok (d_minor di) \<and> short_ok (d_nlink di)
     \<and> length (d_addrs di) = NDIRECT + 1 \<and> (\<forall>a \<in> set (d_addrs di). a < 4294967296) \<and> length (d_id di) = 16"

lemma short_at_append: "short_at (xs @ ys) (length xs + off) = short_at ys off"
  unfolding short_at_def by (intro arg_cong [where f = "\<lambda>v. to_short (int v)"] rd16_cong) (simp add: cview_def nth_append)

lemma short_at_le_short:
  assumes "short_ok i"
  shows "short_at (le_short i @ r) 0 = i"
proof -
  have "nat (i mod 65536) < 65536" by simp
  then have "rd16 (\<lambda>k. (le_short i @ r) ! k) = nat (i mod 65536)" unfolding le_short_def by (rule rd16_le16)
  moreover have "rd16 (\<lambda>k. cview (le_short i @ r) (0 + k)) = rd16 (\<lambda>k. (le_short i @ r) ! k)"
    by (rule rd16_cong) (simp add: le_short_def)
  moreover have "to_short (i mod 65536) = i"
    using assms by (simp add: to_short_def short_ok_def mod_add_left_eq)
  ultimately show ?thesis by (simp add: short_at_def)
qed

lemma length_le_short [simp]: "length (le_short i) = 2"
  by (simp add: le_short_def)

lemma length_enc_dinode: "dinode_ok di \<Longrightarrow> length (enc_dinode di) = 64"
  by (simp add: enc_dinode_def dinode_ok_def NDIRECT_def)

lemma dec_enc_dinode:
  assumes "dinode_ok di"
  shows "dec_dinode (enc_dinode di) 0 = di"
proof -
  define tl3 where "tl3 = d_id di @ le32 (unat (d_mode di))"
  define tl2 where "tl2 = concat (map le32 (d_addrs di)) @ tl3"
  define tl1 where "tl1 = le32 (unat (d_size di)) @ tl2"
  have e: "enc_dinode di = le_short (d_type di) @ le_short (d_major di) @ le_short (d_minor di) @ le_short (d_nlink di) @ tl1"
    by (simp add: enc_dinode_def tl1_def tl2_def tl3_def)
  have n: "length (d_addrs di) = 8" "length (d_id di) = 16" using assms by (simp_all add: dinode_ok_def NDIRECT_def)
  have s: "short_at (enc_dinode di) 0 = d_type di" "short_at (enc_dinode di) 2 = d_major di"
    "short_at (enc_dinode di) 4 = d_minor di" "short_at (enc_dinode di) 6 = d_nlink di"
    using assms short_at_append [of "le_short (d_type di)" _ 0] short_at_append [of "le_short (d_type di) @ le_short (d_major di)" _ 0]
      short_at_append [of "le_short (d_type di) @ le_short (d_major di) @ le_short (d_minor di)" _ 0]
    by (simp_all add: e dinode_ok_def short_at_le_short)
  let ?h = "le_short (d_type di) @ le_short (d_major di) @ le_short (d_minor di) @ le_short (d_nlink di)"
  have w: "word_at (enc_dinode di) (8 + k) = word_at tl1 k" for k
    using word_at_append [of ?h tl1 k] by (simp add: e)
  have sz: "word_at (enc_dinode di) 8 = unat (d_size di)"
    using w [of 0] by (simp add: tl1_def word_at_le32 unat_u32_less)
  have ad: "word_at (enc_dinode di) (12 + 4 * i) = d_addrs di ! i" if "i < 8" for i
  proof -
    have "word_at (enc_dinode di) (12 + 4 * i) = word_at tl2 (4 * i)"
      using w [of "4 + 4 * i"] word_at_append [of "le32 (unat (d_size di))" tl2 "4 * i"] by (simp add: tl1_def)
    also have "\<dots> = word_at (concat (map le32 (d_addrs di))) (4 * i)"
      unfolding tl2_def using that n(1) by (intro word_at_prefix) simp
    also have "\<dots> = d_addrs di ! i" using assms that n(1) by (intro word_at_words) (simp_all add: dinode_ok_def)
    finally show ?thesis .
  qed
  have md: "word_at (enc_dinode di) 60 = unat (d_mode di)"
    using word_at_append [of "?h @ le32 (unat (d_size di)) @ concat (map le32 (d_addrs di)) @ d_id di" "le32 (unat (d_mode di))" 0]
      word_at_le32 [of "unat (d_mode di)" "[]"] unat_u32_less [of "d_mode di"] n
    by (simp add: e tl1_def tl2_def tl3_def)
  have "take 16 (drop 44 (enc_dinode di)) = d_id di"
    using n by (simp add: e tl1_def tl2_def tl3_def)
  moreover have "map (\<lambda>i. word_at (enc_dinode di) (12 + 4 * i)) [0..<NDIRECT + 1] = d_addrs di"
    using n(1) ad by (intro nth_equalityI) (simp_all add: NDIRECT_def)
  ultimately show ?thesis using s sz md by (simp add: dec_dinode_def)
qed

section \<open>Inodes on disk\<close>

definition dinode_of :: "'z fsst_scheme \<Rightarrow> nat \<Rightarrow> dinode" where
  "dinode_of s inum = dec_dinode (bview s (IBLOCK inum (sblk s))) (64 * (inum mod IPB))"

lemma inode_block:
  assumes "layout_ok s" "inum < sb_ninodes (sblk s)"
  shows "IBLOCK inum (sblk s) < disksize s" "IBLOCK inum (sblk s) \<notin> log_area s"
    "IBLOCK inum (sblk s) < data_start (sblk s)" "other_block (sblk s) (IBLOCK inum (sblk s))"
proof -
  have "inum div IPB \<le> sb_ninodes (sblk s) div IPB" using assms(2) by (intro div_le_mono) simp
  then have b: "IBLOCK inum (sblk s) < sb_bmapstart (sblk s)" using assms(1) by (simp add: IBLOCK_def layout_ok_def)
  then show "IBLOCK inum (sblk s) < disksize s" "IBLOCK inum (sblk s) \<notin> log_area s"
    "IBLOCK inum (sblk s) < data_start (sblk s)"
    using assms(1) by (auto simp: layout_ok_def log_area_def IBLOCK_def data_start_def)
  show "other_block (sblk s) (IBLOCK inum (sblk s))"
    using b bitmap_block(2) [OF assms(1)] by (fastforce simp: other_block_def)
qed

lemma inode_slot: "64 * (inum mod IPB) + 64 \<le> BSIZE"
proof -
  have "inum mod IPB < 8" by (simp add: IPB_def BSIZE_def)
  then show ?thesis by (simp add: BSIZE_def)
qed

text \<open>Writing one inode changes no other.\<close>

lemma dinode_of_upd:
  assumes "bview t = (bview s)(IBLOCK inum (sblk s) := splice (bview s (IBLOCK inum (sblk s))) (64 * (inum mod IPB)) (enc_dinode di))"
    "sblk t = sblk s" "dinode_ok di" "length (bview s (IBLOCK inum (sblk s))) = BSIZE"
  shows "dinode_of t inum = di" "j \<noteq> inum \<Longrightarrow> dinode_of t j = dinode_of s j"
proof -
  have slot: "64 * (inum mod IPB) + 64 \<le> length (bview s (IBLOCK inum (sblk s)))" using inode_slot [of inum] assms(4) by simp
  note d = dec_dinode_splice [OF length_enc_dinode [OF assms(3)] slot]
  show "dinode_of t inum = di"
    using d(1) dec_enc_dinode [OF assms(3)] by (simp add: dinode_of_def assms(1,2))
  show "dinode_of t j = dinode_of s j" if j: "j \<noteq> inum"
  proof (cases "IBLOCK j (sblk s) = IBLOCK inum (sblk s)")
    case True
    then have "j mod IPB \<noteq> inum mod IPB" using j by (auto simp: IBLOCK_def) (metis div_mult_mod_eq)
    then have "64 * (j mod IPB) + 64 \<le> 64 * (inum mod IPB) \<or> 64 * (inum mod IPB) + 64 \<le> 64 * (j mod IPB)" by linarith
    with d(2) True show ?thesis by (simp add: dinode_of_def assms(1,2))
  qed (simp add: dinode_of_def assms(1,2))
qed

lemma iupdate_ok:
  fixes s :: "'z fsst_scheme"
  assumes tx: "tx s H (Suc n)" "card H < 2" and lay: "layout_ok s" and x: "i_dev (inode_at ip s) = 1"
    "i_inum (inode_at ip s) < sb_ninodes (sblk s)" "dinode_ok (disk_form (inode_at ip s))" "\<forall>c \<in> H. data_start (sblk s) \<le> c"
  shows "\<exists>t. iupdate ip s = Ret () t \<and> tx t H n \<and> tx_frame s t
    \<and> dinode_of t (i_inum (inode_at ip s)) = disk_form (inode_at ip s)
    \<and> (\<forall>j. j \<noteq> i_inum (inode_at ip s) \<longrightarrow> dinode_of t j = dinode_of s j)
    \<and> (\<forall>c. c \<noteq> IBLOCK (i_inum (inode_at ip s)) (sblk s) \<longrightarrow> bview t c = bview s c)
    \<and> (\<forall>c j. c \<in> H \<and> cached s c j \<longrightarrow> cached t c j)"
proof -
  let ?x = "inode_at ip s"
  let ?b = "IBLOCK (i_inum ?x) (sblk s)"
  let ?e = "splice (bview s ?b) (64 * (i_inum ?x mod IPB)) (enc_dinode (disk_form ?x))"
  note ib = inode_block [OF lay x(2)]
  have len: "length (bview s ?b) = BSIZE" by (rule tx_length [OF tx(1) ib(1)])
  then have el: "length ?e = BSIZE" using inode_slot [of "i_inum ?x"] length_enc_dinode [OF x(3)] by simp
  have nH: "?b \<notin> H" using ib(3) x(4) by fastforce
  obtain i s1 s2 s3 t where r: "bread 1 ?b s = Ret i s1" "b_data (bufs s1 ! i) = bview s ?b" "bset i ?e s1 = Ret () s2"
    "log_write i s2 = Ret () s3" "brelse i s3 = Ret () t" and t: "tx t H n" "bview t = (bview s)(?b := ?e)" "tx_frame s t"
    "\<And>c j. c \<in> H \<Longrightarrow> cached s c j \<Longrightarrow> cached t c j"
    by (rule tc.update_block [OF tx nH ib(1,2), of "\<lambda>d. splice d (64 * (i_inum ?x mod IPB)) (enc_dinode (disk_form ?x))"]) (use el in simp_all)
  have "iupdate ip s = Ret () t" using r x(1) by (simp add: iupdate_def buf_data_def)
  with t dinode_of_upd [OF t(2) tx_frame_fs(1) [OF t(3)] x(3) len] show ?thesis by auto
qed

section \<open>Inode locks and references\<close>

definition fs_frame :: "'z fsst_scheme \<Rightarrow> 'z fsst_scheme \<Rightarrow> bool" where
  "fs_frame s t \<longleftrightarrow> t = s\<lparr>procs := procs t, slk := slk t, bufs := bufs t, lru := lru t, lh := lh t, icache := icache t\<rparr>
     \<and> procs_woken (procs s) (procs t) \<and> length (bufs t) = length (bufs s) \<and> length (icache t) = length (icache s)"

lemma fs_frame_refl [simp]: "fs_frame s s"
  by (simp add: fs_frame_def)

lemma fs_frame_trans:
  assumes "fs_frame s t" "fs_frame t u"
  shows "fs_frame s u"
proof -
  have t: "t = s\<lparr>procs := procs t, slk := slk t, bufs := bufs t, lru := lru t, lh := lh t, icache := icache t\<rparr>"
    and u: "u = t\<lparr>procs := procs u, slk := slk u, bufs := bufs u, lru := lru u, lh := lh u, icache := icache u\<rparr>"
    using assms by (simp_all add: fs_frame_def)
  have "u = s\<lparr>procs := procs u, slk := slk u, bufs := bufs u, lru := lru u, lh := lh u, icache := icache u\<rparr>"
    by (subst u, subst t) simp
  with assms show ?thesis
    unfolding fs_frame_def using procs_woken_trans by metis
qed

lemma tx_to_fs_frame:
  assumes "tx_frame s t"
  shows "fs_frame s t"
proof -
  have t: "t = s\<lparr>procs := procs t, slk := slk t, bufs := bufs t, lru := lru t, lh := lh t\<rparr>"
    using assms by (simp add: tx_frame_def)
  have "t = s\<lparr>procs := procs t, slk := slk t, bufs := bufs t, lru := lru t, lh := lh t, icache := icache t\<rparr>"
    unfolding tx_frame_fs(2) [OF assms] by (subst t) simp
  with assms tx_frame_fs(2) [OF assms] show ?thesis by (simp add: fs_frame_def tx_frame_def)
qed

lemma tx_frame_slk: "tx_frame s t \<Longrightarrow> slk t (SL_inode k) = slk s (SL_inode k)"
  unfolding tx_frame_def by blast

lemma fs_frame_rest:
  assumes "fs_frame s t"
  shows "disksize t = disksize s" "disk t = disk s" "held t = held s" "cur t = cur s" "phys t = phys s" "sblk t = sblk s"
    "log_start t = log_start s" "log_size t = log_size s" "log_outstanding t = log_outstanding s" "log_area t = log_area s"
    "layout_ok t = layout_ok s" "length (procs t) = length (procs s)"
proof -
  have t: "t = s\<lparr>procs := procs t, slk := slk t, bufs := bufs t, lru := lru t, lh := lh t, icache := icache t\<rparr>"
    using assms by (simp add: fs_frame_def)
  show "disksize t = disksize s" "disk t = disk s" "held t = held s" "cur t = cur s" "phys t = phys s" "sblk t = sblk s"
    "log_start t = log_start s" "log_size t = log_size s" "log_outstanding t = log_outstanding s" "log_area t = log_area s"
    "layout_ok t = layout_ok s"
    by (subst t, simp add: log_area_def layout_ok_def)+
  show "length (procs t) = length (procs s)" using assms by (auto simp: fs_frame_def procs_woken_def list_all2_lengthD)
qed

lemma procs_woken_nth: "procs_woken ps qs \<Longrightarrow> i < length ps \<Longrightarrow> p_pid (qs ! i) = p_pid (ps ! i) \<and> p_id (qs ! i) = p_id (ps ! i)
    \<and> p_cwd (qs ! i) = p_cwd (ps ! i) \<and> p_ofile (qs ! i) = p_ofile (ps ! i)"
proof -
  assume "procs_woken ps qs" "i < length ps"
  then have "qs ! i = ps ! i \<or> p_state (ps ! i) = SLEEPING \<and> qs ! i = (ps ! i)\<lparr>p_state := RUNNABLE\<rparr>"
    unfolding procs_woken_def list_all2_conv_all_nth by blast
  then show ?thesis by auto
qed

lemma fs_frame_cur:
  assumes "fs_frame s t" "quiet s"
  shows "curpid t = curpid s" "p_id (proc_at (the (cur s)) t) = p_id (proc_at (the (cur s)) s)"
    "p_cwd (proc_at (the (cur s)) t) = p_cwd (proc_at (the (cur s)) s)"
  using procs_woken_nth [of "procs s" "procs t" "the (cur s)"] fs_frame_rest(4) [OF assms(1)] assms
  by (simp_all add: fs_frame_def quiet_def curpid_def proc_at_def)

text \<open>What the cache and the transaction do not depend on.\<close>

lemma bc_st_inode [simp]:
  "bc_st (s\<lparr>icache := ic\<rparr>) = bc_st s" "bview (s\<lparr>icache := ic\<rparr>) = bview s" "cached (s\<lparr>icache := ic\<rparr>) = cached s"
  "bc_st (s\<lparr>slk := (slk s)(SL_inode k := l)\<rparr>) = bc_st s" "bview (s\<lparr>slk := m\<rparr>) = bview s" "cached (s\<lparr>slk := m\<rparr>) = cached s"
  by (simp_all add: bc_st_def bview_def cached_def quiet_def curpid_def proc_at_def fun_eq_iff split: option.split)

lemma tx_inode [simp]:
  "tx (s\<lparr>icache := ic\<rparr>) = tx s" "tx (s\<lparr>slk := (slk s)(SL_inode k := l)\<rparr>) = tx s"
  by (simp_all add: tx_def in_txn_def log_wf_def log_area_def fun_eq_iff)

lemma tx_wake: "tx s H n \<Longrightarrow> tx (s\<lparr>procs := map (wake_if c) (procs s)\<rparr>) H n"
  by (simp add: tx_def in_txn_def log_wf_def log_area_def)

lemma tx_quiet: "tx s H n \<Longrightarrow> quiet s"
  by (auto simp: tx_def in_txn_def bc_st_def)

lemma view_same [simp]:
  "used (s\<lparr>icache := ic\<rparr>) = used s" "layout_ok (s\<lparr>icache := ic\<rparr>) = layout_ok s" "bitmap_ok (s\<lparr>icache := ic\<rparr>) = bitmap_ok s"
  "dinode_of (s\<lparr>icache := ic\<rparr>) = dinode_of s"
  by (simp_all add: used_def layout_ok_def bitmap_ok_def dinode_of_def fun_eq_iff)

lemma view_cong:
  assumes "bview t = bview s" "fs_frame s t"
  shows "used t = used s" "bitmap_ok t = bitmap_ok s" "dinode_of t = dinode_of s"
  using assms fs_frame_rest [OF assms(2)] by (simp_all add: used_def bitmap_ok_def dinode_of_def fun_eq_iff)

definition ilocked :: "'z fsst_scheme \<Rightarrow> nat \<Rightarrow> bool" where
  "ilocked s ip \<longleftrightarrow> slk s (SL_inode ip) = \<lparr>sl_locked = True, sl_pid = curpid s\<rparr>"

definition iloaded :: "'z fsst_scheme \<Rightarrow> nat \<Rightarrow> inode" where
  "iloaded s ip = (let x = inode_at ip s in
     if i_valid x then x else (from_disk (dinode_of s (i_inum x)) x)\<lparr>i_valid := True\<rparr>)"

lemma inode_at_upd: "ip < length (icache s) \<Longrightarrow> inode_at q (s\<lparr>icache := upd_at ip f (icache s)\<rparr>) = (if q = ip then f (inode_at ip s) else inode_at q s)"
  by (auto simp: inode_at_def upd_at_def)

lemma ilock_ok:
  fixes s :: "'z fsst_scheme"
  assumes tx: "tx s {} n" and lay: "layout_ok s" and ip: "ip < length (icache s)" "1 \<le> i_ref (inode_at ip s)"
    and free: "\<not> sl_locked (slk s (SL_inode ip))" and x: "i_dev (inode_at ip s) = 1" "i_inum (inode_at ip s) < sb_ninodes (sblk s)"
    and ty: "i_valid (inode_at ip s) \<or> d_type (dinode_of s (i_inum (inode_at ip s))) \<noteq> 0"
  shows "\<exists>t. ilock ip s = Ret () t \<and> tx t {} n \<and> bview t = bview s \<and> fs_frame s t \<and> ilocked t ip
    \<and> (\<forall>k. k \<noteq> ip \<longrightarrow> slk t (SL_inode k) = slk s (SL_inode k)) \<and> icache t = (icache s)[ip := iloaded s ip]"
proof -
  let ?x = "inode_at ip s"
  have q: "quiet s" by (rule tx_quiet [OF tx])
  define u where "u = s\<lparr>slk := (slk s)(SL_inode ip := \<lparr>sl_locked = True, sl_pid = curpid s\<rparr>)\<rparr>"
  have acqs: "acquiresleep (SL_inode ip) s = Ret () u" using acquiresleep_quiet [OF q free] by (simp add: u_def)
  have fu: "fs_frame s u" by (simp add: fs_frame_def u_def)
  have un: "tx u {} n" "layout_ok u" "inode_at ip u = ?x" "bview u = bview s" "icache u = icache s" "sblk u = sblk s" "disksize u = disksize s"
    using tx lay by (simp_all add: u_def inode_at_def layout_ok_def)
  have lk: "ilocked t ip" if "slk t (SL_inode ip) = slk u (SL_inode ip)" "fs_frame s t" for t :: "'z fsst_scheme"
    using that fs_frame_cur(1) [OF that(2) q] by (simp add: ilocked_def u_def)
  show ?thesis
  proof (cases "i_valid ?x")
    case True
    then have "iload ip u = Ret () u" by (simp add: iload_def un(3))
    then have "ilock ip s = Ret () u" using ip(2) acqs by (simp add: ilock_def)
    moreover have "icache u = (icache s)[ip := iloaded s ip]" using True ip by (simp add: iloaded_def Let_def un(5) inode_at_def)
    ultimately show ?thesis using un fu lk [of u] by (intro exI [of _ u]) (simp add: u_def)
  next
    case False
    let ?b = "IBLOCK (i_inum ?x) (sblk u)" and ?di = "dinode_of s (i_inum ?x)"
    have "?b < disksize u" using inode_block(1) [OF un(2), of "i_inum ?x"] x(2) un(6) by simp
    from tc.rd_law [OF un(1) _ _ this] obtain i v where r: "bread 1 ?b u = Ret i v" "tx v {?b} n" "bview v = bview u" "cached v ?b i"
      "b_data (bufs v ! i) = bview u ?b" "tx_frame u v" by auto
    define v' where "v' = v\<lparr>icache := upd_at ip (from_disk ?di) (icache v)\<rparr>"
    have "tx v' {?b} n" "cached v' ?b i" using r(2,4) by (simp_all add: v'_def)
    from tc.put_law [OF this(1) _ this(2)] obtain w where w: "brelse i v' = Ret () w" "tx w {} n" "bview w = bview v'" "tx_frame v' w" by auto
    define t where "t = w\<lparr>icache := upd_at ip (\<lambda>x. x\<lparr>i_valid := True\<rparr>) (icache w)\<rparr>"
    have iv: "icache v = icache s" using tx_frame_fs(2) [OF r(6)] un(5) by simp
    have iw: "icache w = (icache s)[ip := from_disk ?di ?x]"
      using tx_frame_fs(2) [OF w(4)] ip(1) by (simp add: v'_def iv upd_at_def inode_at_def)
    have it: "icache t = (icache s)[ip := iloaded s ip]"
      using ip(1) False by (simp add: t_def iw upd_at_def iloaded_def Let_def)
    have "fs_frame v v'" "fs_frame w t" by (simp_all add: fs_frame_def v'_def t_def)
    then have fr: "fs_frame s t"
      using fu tx_to_fs_frame [OF r(6)] tx_to_fs_frame [OF w(4)] by (blast intro: fs_frame_trans)
    have sl: "slk t (SL_inode k) = slk u (SL_inode k)" for k
      using tx_frame_slk [OF r(6)] tx_frame_slk [OF w(4)] by (simp add: t_def v'_def)
    have "iload ip u = Ret () t"
    proof -
      have "i_type (inode_at ip t) \<noteq> 0" using ty False ip(1) by (simp add: inode_at_def it iloaded_def Let_def from_disk_def)
      moreover have "dec_dinode (bview u ?b) (64 * (i_inum ?x mod IPB)) = ?di" by (simp add: dinode_of_def un)
      ultimately show ?thesis
        using False r(1,5) w(1) x(1) un(3) by (simp add: iload_def buf_data_def upd_inode_def v'_def t_def)
    qed
    then have "ilock ip s = Ret () t" using ip(2) acqs by (simp add: ilock_def)
    moreover have "tx t {} n" "bview t = bview s" using w(2,3) r(3) un(4) by (simp_all add: t_def v'_def)
    moreover have "\<forall>k. k \<noteq> ip \<longrightarrow> slk t (SL_inode k) = slk s (SL_inode k)" using sl by (simp add: u_def)
    ultimately show ?thesis using fr it lk [of t] sl by blast
  qed
qed

lemma fsst_order:
  "s\<lparr>icache := ic, held := h\<rparr> = s\<lparr>held := h, icache := ic\<rparr>" "s\<lparr>icache := ic, procs := ps\<rparr> = s\<lparr>procs := ps, icache := ic\<rparr>"
  "s\<lparr>icache := ic, slk := m\<rparr> = s\<lparr>slk := m, icache := ic\<rparr>"
  by (cases s; simp)+

lemma icache_critical:
  "L_icache \<notin> set (held s) \<Longrightarrow>
   seqK (upd_inode ip f) (seqK (rel L_icache) k) (s\<lparr>held := L_icache # held s\<rparr>) = k (s\<lparr>icache := upd_at ip f (icache s)\<rparr>)"
  by (simp add: upd_inode_def lock_simps fsst_order)


lemma holding_inode:
  "quiet s \<Longrightarrow> holdingsleep i s = Ret (sl_locked (slk s i) \<and> sl_pid (slk s i) = curpid s) s"
  by (auto simp: quiet_def curpid_def holdingsleep_eq)

lemma release_inode:
  fixes s :: "'z fsst_scheme" and ip :: nat
  assumes "tx s {} n"
  defines "t \<equiv> s\<lparr>slk := (slk s)(SL_inode ip := \<lparr>sl_locked = False, sl_pid = 0\<rparr>), procs := map (wake_if (Some (Ch_sleep (SL_inode ip)))) (procs s)\<rparr>"
  shows "releasesleep (SL_inode ip) s = Ret () t" "tx t {} n" "bview t = bview s" "fs_frame s t" "icache t = icache s"
    "\<not> sl_locked (slk t (SL_inode ip))" "k \<noteq> ip \<Longrightarrow> slk t (SL_inode k) = slk s (SL_inode k)"
proof -
  show "releasesleep (SL_inode ip) s = Ret () t" using releasesleep_quiet [OF tx_quiet [OF assms(1)]] by (simp add: t_def)
  let ?u = "s\<lparr>slk := (slk s)(SL_inode ip := \<lparr>sl_locked = False, sl_pid = 0\<rparr>)\<rparr>"
  have t: "t = ?u\<lparr>procs := map (wake_if (Some (Ch_sleep (SL_inode ip)))) (procs ?u)\<rparr>" by (simp add: t_def)
  have "tx ?u {} n" using assms(1) by simp
  from tx_wake [OF this] show "tx t {} n" unfolding t .
  show "bview t = bview s" unfolding t by simp
  show "fs_frame s t" by (simp add: fs_frame_def t_def bst_order)
  show "icache t = icache s" "\<not> sl_locked (slk t (SL_inode ip))" "k \<noteq> ip \<Longrightarrow> slk t (SL_inode k) = slk s (SL_inode k)"
    by (simp_all add: t_def)
qed

lemma iunlock_ok:
  fixes s :: "'z fsst_scheme"
  assumes tx: "tx s {} n" and ip: "ilocked s ip" "1 \<le> i_ref (inode_at ip s)"
  shows "\<exists>t. iunlock ip s = Ret () t \<and> tx t {} n \<and> bview t = bview s \<and> fs_frame s t \<and> icache t = icache s
    \<and> \<not> sl_locked (slk t (SL_inode ip)) \<and> (\<forall>k. k \<noteq> ip \<longrightarrow> slk t (SL_inode k) = slk s (SL_inode k))"
proof -
  have "holdingsleep (SL_inode ip) s = Ret True s" using holding_inode [OF tx_quiet [OF tx]] ip(1) by (simp add: ilocked_def)
  then have "iunlock ip s = releasesleep (SL_inode ip) s" using ip(2) by (simp add: iunlock_def)
  with release_inode [OF tx, where ip = ip] show ?thesis by auto
qed






lemma iget_ok:
  fixes s :: "'z fsst_scheme"
  assumes lk: "L_icache \<notin> set (held s)"
    and hit: "(\<exists>x \<in> set (icache s). 0 < i_ref x \<and> i_dev x = dev \<and> i_inum x = inum) \<or> (\<exists>x \<in> set (icache s). i_ref x = 0)"
  obtains ip y where "iget dev inum s = Ret ip (s\<lparr>icache := (icache s)[ip := y]\<rparr>)" "ip < length (icache s)"
    "i_dev y = dev" "i_inum y = inum" "i_ref y = i_ref (inode_at ip s) + 1"
    "0 < i_ref (inode_at ip s) \<and> i_dev (inode_at ip s) = dev \<and> i_inum (inode_at ip s) = inum \<and> y = (inode_at ip s)\<lparr>i_ref := i_ref (inode_at ip s) + 1\<rparr>
     \<or> i_ref (inode_at ip s) = 0 \<and> \<not> i_valid y \<and> (\<forall>x \<in> set (icache s). \<not> (0 < i_ref x \<and> i_dev x = dev \<and> i_inum x = inum))"
proof (cases "find_slot (\<lambda>x. i_ref x > 0 \<and> i_dev x = dev \<and> i_inum x = inum) (icache s)")
  case (Some ip)
  note k = find_slot_Some [OF Some]
  show thesis
    by (rule that [of ip "(inode_at ip s)\<lparr>i_ref := i_ref (inode_at ip s) + 1\<rparr>"])
      (use k(1,2) Some lk in \<open>auto simp: iget_def lock_simps icache_critical upd_at_def inode_at_def\<close>)
next
  case None
  then have no: "\<forall>x \<in> set (icache s). \<not> (0 < i_ref x \<and> i_dev x = dev \<and> i_inum x = inum)" by (simp only: find_slot_None)
  then obtain k where k: "find_slot (\<lambda>x. i_ref x = 0) (icache s) = Some k"
    using hit by (cases "find_slot (\<lambda>x. i_ref x = 0) (icache s)") auto
  note f = find_slot_Some(1,2) [OF k]
  show thesis
    by (rule that [of k "(inode_at k s)\<lparr>i_dev := dev, i_inum := inum, i_ref := 1, i_valid := False\<rparr>"])
      (use f None k lk no in \<open>auto simp: iget_def lock_simps icache_critical upd_at_def inode_at_def simp del: find_slot_None\<close>)
qed

section \<open>Allocating an inode\<close>

lemma root_cstr: "cstr 15 (cview (lit ''root'')) = lit ''root''"
  by (rule cstr_cview_self) (simp_all add: lit_def)

lemma new_dinode_ok: "short_ok type \<Longrightarrow> dinode_ok (new_dinode type)"
  by (simp add: root_cstr dinode_ok_def new_dinode_def zero_dinode_def short_ok_def safestrcpy_arr_def safestrcpy_bytes_def NDIRECT_def)

lemma ialloc_loop:
  fixes s :: "'z fsst_scheme"
  assumes "tx s {} (Suc n)" "layout_ok s" "L_icache \<notin> set (held s)" "\<exists>x \<in> set (icache s). i_ref x = 0"
    "\<forall>j \<in> set js. j < sb_ninodes (sblk s) \<and> d_type (dinode_of s j) \<noteq> 0" "inum < sb_ninodes (sblk s)" "d_type (dinode_of s inum) = 0" "short_ok type"
  shows "\<exists>ip t y. ialloc_from 1 type (sblk s) (js @ inum # rest) s = Ret ip t \<and> tx t {} n \<and> fs_frame s t
    \<and> (\<forall>k. slk t (SL_inode k) = slk s (SL_inode k)) \<and> icache t = (icache s)[ip := y] \<and> ip < length (icache s)
    \<and> i_dev y = 1 \<and> i_inum y = inum \<and> i_ref y = i_ref (inode_at ip s) + 1
    \<and> dinode_of t inum = new_dinode type \<and> (\<forall>j. j \<noteq> inum \<longrightarrow> dinode_of t j = dinode_of s j)
    \<and> (\<forall>c. c \<noteq> IBLOCK inum (sblk s) \<longrightarrow> bview t c = bview s c)"
  using assms
proof (induction js arbitrary: s)
  case Nil
  note a = Nil.prems
  let ?b = "IBLOCK inum (sblk s)"
  let ?e = "splice (bview s ?b) (64 * (inum mod IPB)) (enc_dinode (new_dinode type))"
  note ib = inode_block [OF a(2,6)]
  have len: "length (bview s ?b) = BSIZE" by (rule tx_length [OF a(1) ib(1)])
  then have el: "length ?e = BSIZE" using inode_slot [of inum] length_enc_dinode [OF new_dinode_ok [OF a(8)]] by simp
  obtain i s1 s2 s3 t where r: "bread 1 ?b s = Ret i s1" "b_data (bufs s1 ! i) = bview s ?b" "bset i ?e s1 = Ret () s2"
    "log_write i s2 = Ret () s3" "brelse i s3 = Ret () t" and t: "tx t {} n" "bview t = (bview s)(?b := ?e)" "tx_frame s t"
    by (rule tc.update_block [OF a(1) _ _ ib(1,2), of "\<lambda>d. splice d (64 * (inum mod IPB)) (enc_dinode (new_dinode type))"]) (use el in simp_all)
  note du = dinode_of_upd [OF t(2) tx_frame_fs(1) [OF t(3)] new_dinode_ok [OF a(8)] len]
  have ic: "icache t = icache s" "held t = held s" "slk t (SL_inode k) = slk s (SL_inode k)" for k
    by (rule tx_frame_fs(2) [OF t(3)] tx_frame_rest(3) [OF t(3)] tx_frame_slk [OF t(3)])+
  obtain ip y where g: "iget 1 inum t = Ret ip (t\<lparr>icache := (icache t)[ip := y]\<rparr>)" "ip < length (icache t)" "i_dev y = 1"
    "i_inum y = inum" "i_ref y = i_ref (inode_at ip t) + 1"
  proof -
    have "L_icache \<notin> set (held t)" "\<exists>x \<in> set (icache t). i_ref x = 0" using a(3,4) ic(1,2) by simp_all
    then show thesis by (rule iget_ok [OF _ disjI2, where dev = 1 and inum = inum]) (erule (4) that)
  qed
  have "short_at (bview s ?b) (64 * (inum mod IPB)) = 0" using a(7) by (simp add: dinode_of_def dec_dinode_def)
  then have run: "ialloc_from 1 type (sblk s) (inum # rest) s = Ret ip (t\<lparr>icache := (icache t)[ip := y]\<rparr>)"
    using r g(1) by (simp add: buf_data_def)
  have "fs_frame t (t\<lparr>icache := (icache t)[ip := y]\<rparr>)" by (simp add: fs_frame_def)
  then have "fs_frame s (t\<lparr>icache := (icache t)[ip := y]\<rparr>)" using tx_to_fs_frame [OF t(3)] fs_frame_trans by blast
  then show ?case
    using run t(1,2) du g(2-5) ic
    by (intro exI [of _ ip] exI [of _ "t\<lparr>icache := (icache t)[ip := y]\<rparr>"] exI [of _ y]) (simp add: inode_at_def)
next
  case (Cons j js)
  note a = Cons.prems
  have j: "j < sb_ninodes (sblk s)" "d_type (dinode_of s j) \<noteq> 0" using a(5) by auto
  obtain i s1 t where r: "bread 1 (IBLOCK j (sblk s)) s = Ret i s1" "b_data (bufs s1 ! i) = bview s (IBLOCK j (sblk s))"
    "brelse i s1 = Ret () t" and t: "tx t {} (Suc n)" "bview t = bview s" "tx_frame s t"
    by (rule tc.read_block [OF a(1) _ _ inode_block(1) [OF a(2) j(1)]]) simp_all
  note fr = tx_to_fs_frame [OF t(3)]
  note eq = fs_frame_rest(6,3,11) [OF fr] view_cong(3) [OF t(2) fr] tx_frame_fs(2) [OF t(3)]
  have sl: "slk t (SL_inode k) = slk s (SL_inode k)" for k by (rule tx_frame_slk [OF t(3)])
  obtain ip u y where u: "ialloc_from 1 type (sblk t) (js @ inum # rest) t = Ret ip u" "tx u {} n" "fs_frame t u"
    "\<forall>k. slk u (SL_inode k) = slk t (SL_inode k)" "icache u = (icache t)[ip := y]" "ip < length (icache t)"
    "i_dev y = 1" "i_inum y = inum" "i_ref y = i_ref (inode_at ip t) + 1" "dinode_of u inum = new_dinode type"
    "\<forall>j. j \<noteq> inum \<longrightarrow> dinode_of u j = dinode_of t j" "\<forall>c. c \<noteq> IBLOCK inum (sblk t) \<longrightarrow> bview u c = bview t c"
    using Cons.IH [OF t(1)] a eq by auto
  have "short_at (bview s (IBLOCK j (sblk s))) (64 * (j mod IPB)) \<noteq> 0" using j(2) by (simp add: dinode_of_def dec_dinode_def)
  then have "ialloc_from 1 type (sblk s) ((j # js) @ inum # rest) s = Ret ip u"
    using r u(1) eq(1) by (simp add: buf_data_def)
  then show ?case
    using u fr fs_frame_trans [OF fr u(3)] eq sl t(2)
    by (intro exI [of _ ip] exI [of _ u] exI [of _ y]) (simp add: inode_at_def)
qed

lemma ialloc_ok:
  fixes s :: "'z fsst_scheme"
  assumes "tx s {} (Suc n)" "layout_ok s" "L_icache \<notin> set (held s)" "\<exists>x \<in> set (icache s). i_ref x = 0"
    "1 \<le> inum" "inum < sb_ninodes (sblk s)" "d_type (dinode_of s inum) = 0" "\<forall>j < inum. 1 \<le> j \<longrightarrow> d_type (dinode_of s j) \<noteq> 0" "short_ok type"
  shows "\<exists>ip t y. ialloc 1 type s = Ret ip t \<and> tx t {} n \<and> fs_frame s t
    \<and> (\<forall>k. slk t (SL_inode k) = slk s (SL_inode k)) \<and> icache t = (icache s)[ip := y] \<and> ip < length (icache s)
    \<and> i_dev y = 1 \<and> i_inum y = inum \<and> i_ref y = i_ref (inode_at ip s) + 1
    \<and> dinode_of t inum = new_dinode type \<and> (\<forall>j. j \<noteq> inum \<longrightarrow> dinode_of t j = dinode_of s j)
    \<and> (\<forall>c. c \<noteq> IBLOCK inum (sblk s) \<longrightarrow> bview t c = bview s c)"
proof -
  have "[1..<sb_ninodes (sblk s)] = [1..<inum] @ [inum..<sb_ninodes (sblk s)]"
    using upt_add_eq_append [of 1 inum "sb_ninodes (sblk s) - inum"] assms(5,6) by simp
  also have "[inum..<sb_ninodes (sblk s)] = inum # [Suc inum..<sb_ninodes (sblk s)]"
    using assms(6) by (simp add: upt_conv_Cons)
  finally have l: "[1..<sb_ninodes (sblk s)] = [1..<inum] @ inum # [Suc inum..<sb_ninodes (sblk s)]" .
  show ?thesis
    unfolding ialloc_def using ialloc_loop [OF assms(1-4) _ assms(6,7,9), of "[1..<inum]" "[Suc inum..<sb_ninodes (sblk s)]"] assms(6,8)
    by (simp add: l)
qed

section \<open>An inode survives its eviction\<close>

lemma strncpy_bytes_idem [simp]: "strncpy_bytes n (cview (strncpy_bytes n t)) = strncpy_bytes n t"
proof -
  have "cstr n (cview (cstr n t @ replicate k 0)) = cstr n t" for k
    by (rule cstr_cview) (auto simp: length_cstr_le dest: cstr_nonzero)
  then show ?thesis by (simp add: strncpy_bytes_def)
qed

lemma disk_form_from_disk: "disk_form (from_disk (disk_form x) y) = disk_form x"
  by (simp add: disk_form_def from_disk_def)

text \<open>
  C23. An inode reads back. After \<^verbatim>\<open>iupdate\<close>, a cache entry that has been reused and comes back to the same
  inode number (\<^verbatim>\<open>iget\<close> leaves it not valid) gets from \<^verbatim>\<open>ilock\<close> the type, device numbers, link count, size, block
  addresses, owner and mode that were written; the encoding into 64 bytes loses nothing, and no
  other inode on the disk, in the same block or elsewhere, has changed.
\<close>

theorem inode_roundtrip:
  fixes s :: "'z fsst_scheme"
  assumes "tx s {} (Suc n)" "layout_ok s" "ip < length (icache s)" "\<not> sl_locked (slk s (SL_inode ip))" "i_dev (inode_at ip s) = 1"
    "i_inum (inode_at ip s) < sb_ninodes (sblk s)" "dinode_ok (disk_form (inode_at ip s))" "i_type (inode_at ip s) \<noteq> 0"
    "i_dev y = 1" "i_inum y = i_inum (inode_at ip s)" "1 \<le> i_ref y" "\<not> i_valid y"
  shows "\<exists>t u. iupdate ip s = Ret () t \<and> ilock ip (t\<lparr>icache := (icache t)[ip := y]\<rparr>) = Ret () u
    \<and> i_valid (inode_at ip u) \<and> disk_form (inode_at ip u) = disk_form (inode_at ip s)
    \<and> (\<forall>j. j \<noteq> i_inum (inode_at ip s) \<longrightarrow> dinode_of u j = dinode_of s j)"
proof -
  let ?x = "inode_at ip s"
  obtain t where t: "iupdate ip s = Ret () t" "tx t {} n" "tx_frame s t" "dinode_of t (i_inum ?x) = disk_form ?x"
    "\<forall>j. j \<noteq> i_inum ?x \<longrightarrow> dinode_of t j = dinode_of s j"
    using iupdate_ok [OF assms(1) _ assms(2,5,6,7)] by auto
  note fr = tx_to_fs_frame [OF t(3)]
  let ?t = "t\<lparr>icache := (icache t)[ip := y]\<rparr>"
  have l: "ip < length (icache t)" using tx_frame_fs(2) [OF t(3)] assms(3) by simp
  have "\<exists>u. ilock ip ?t = Ret () u \<and> tx u {} n \<and> bview u = bview ?t \<and> fs_frame ?t u \<and> ilocked u ip
    \<and> (\<forall>k. k \<noteq> ip \<longrightarrow> slk u (SL_inode k) = slk ?t (SL_inode k)) \<and> icache u = (icache ?t)[ip := iloaded ?t ip]"
    using assms t(2,4) l fs_frame_rest(6,11) [OF fr] tx_frame_slk [OF t(3)]
    by (intro ilock_ok) (simp_all add: inode_at_def disk_form_def)
  then obtain u where u: "ilock ip ?t = Ret () u" "bview u = bview ?t" "fs_frame ?t u" "icache u = (icache ?t)[ip := iloaded ?t ip]"
    by blast
  have "inode_at ip u = (from_disk (disk_form ?x) y)\<lparr>i_valid := True\<rparr>"
    using u(4) l assms(10,12) t(4) by (simp add: inode_at_def iloaded_def)
  moreover have "dinode_of u = dinode_of t" using view_cong(3) [OF u(2,3)] by simp
  moreover have "disk_form ((from_disk (disk_form ?x) y)\<lparr>i_valid := True\<rparr>) = disk_form ?x"
    using disk_form_from_disk [of ?x y] by (simp add: disk_form_def)
  ultimately show ?thesis using t u(1) by (intro exI [of _ t] exI [of _ u]) simp
qed

definition demo_inode :: inode where
  "demo_inode = zero_inode\<lparr>i_dev := 1, i_inum := 5, i_ref := 1, i_valid := True, i_type := T_FILE, i_nlink := 1, i_size := 100,
     i_addrs := [70, 0, 0, 0, 0, 0, 0, 0], i_user := strncpy_bytes 16 (cview (lit ''root'')), i_mode := 52\<rparr>"

lemma demo_inode_ok: "dinode_ok (disk_form demo_inode)"
  by (simp add: dinode_ok_def disk_form_def demo_inode_def zero_inode_def short_ok_def T_FILE_def NDIRECT_def)

theorem inode_roundtrip_witness:
  "\<exists>t u. iupdate 0 (demo_fs demo_disk [demo_inode]) = Ret () t
     \<and> ilock 0 (t\<lparr>icache := (icache t)[0 := zero_inode\<lparr>i_dev := 1, i_inum := 5, i_ref := 1\<rparr>]\<rparr>) = Ret () u
     \<and> i_size (inode_at 0 u) = 100 \<and> i_addrs (inode_at 0 u) = [70, 0, 0, 0, 0, 0, 0, 0] \<and> i_mode (inode_at 0 u) = 52"
proof -
  let ?s = "demo_fs demo_disk [demo_inode]" and ?y = "zero_inode\<lparr>i_dev := 1, i_inum := 5, i_ref := 1\<rparr>"
  have tx: "tx ?s {} (Suc 27)" using demo_fs_tx [of demo_disk] by (simp add: demo_disk_def)
  have free: "\<not> sl_locked (slk ?s (SL_inode 0))" by (simp add: demo_fs_def lst.defs fsst.defs rebooted_def bst.defs booted_def)
  have "layout_ok ?s" by (simp add: layout_ok_def data_start_def demo_sb IPB_def BPB_def BSIZE_def)
  from inode_roundtrip [OF tx this, of 0 ?y] free demo_inode_ok
  obtain t u where "iupdate 0 ?s = Ret () t" "ilock 0 (t\<lparr>icache := (icache t)[0 := ?y]\<rparr>) = Ret () u"
    "disk_form (inode_at 0 u) = disk_form demo_inode"
    by (auto simp: inode_at_def demo_inode_def zero_inode_def demo_sb T_FILE_def)
  then show ?thesis
    by (intro exI [of _ t] exI [of _ u]) (simp add: disk_form_def demo_inode_def zero_inode_def)
qed

section \<open>One cache entry for each inode\<close>











end
