(* ===== verification/FsData.thy ===== *)
theory FsData
  imports FsInode
begin

text \<open>
  File content: the block map of an inode (\<^verbatim>\<open>bmap\<close>), \<^verbatim>\<open>readi\<close> and \<^verbatim>\<open>writei\<close>. A file is a function from
  offsets to bytes; the theorems say that \<^verbatim>\<open>readi\<close> returns its bytes and that \<^verbatim>\<open>writei\<close> changes the bytes
  it is given and nothing else.
\<close>

section \<open>The block map\<close>

definition addr_of :: "'z fsst_scheme \<Rightarrow> inode \<Rightarrow> nat \<Rightarrow> nat" where
  "addr_of s x bn =
     (if bn < NDIRECT then i_addrs x ! bn
      else if i_addrs x ! NDIRECT = 0 then 0
      else word_at (bview s (i_addrs x ! NDIRECT)) (4 * (bn - NDIRECT)))"

text \<open>The blocks of a file, with the block of indirect addresses.\<close>

definition fblocks :: "'z fsst_scheme \<Rightarrow> inode \<Rightarrow> nat set" where
  "fblocks s x = {a. a \<noteq> 0 \<and> (a = i_addrs x ! NDIRECT \<or> (\<exists>bn < MAXFILE. a = addr_of s x bn))}"

definition fmap_ok :: "'z fsst_scheme \<Rightarrow> inode \<Rightarrow> bool" where
  "fmap_ok s x \<longleftrightarrow> length (i_addrs x) = NDIRECT + 1
     \<and> (\<forall>a \<in> fblocks s x. data_start (sblk s) \<le> a \<and> a < sb_size (sblk s) \<and> used s a)
     \<and> (\<forall>bn < MAXFILE. \<forall>bm < MAXFILE. addr_of s x bn = addr_of s x bm \<and> addr_of s x bn \<noteq> 0 \<longrightarrow> bn = bm)
     \<and> (\<forall>bn < MAXFILE. addr_of s x bn \<noteq> 0 \<longrightarrow> addr_of s x bn \<noteq> i_addrs x ! NDIRECT)"

text \<open>A byte of the file; where no block is allocated it is zero.\<close>

definition fbyte :: "'z fsst_scheme \<Rightarrow> inode \<Rightarrow> nat \<Rightarrow> byte" where
  "fbyte s x p = (if addr_of s x (p div BSIZE) = 0 then 0 else bview s (addr_of s x (p div BSIZE)) ! (p mod BSIZE))"

definition nfree :: "'z fsst_scheme \<Rightarrow> nat" where
  "nfree s = card {b. b < sb_size (sblk s) \<and> \<not> used s b}"

lemma fmap_okD:
  assumes "fmap_ok s x"
  shows "length (i_addrs x) = 8" "a \<in> fblocks s x \<Longrightarrow> data_start (sblk s) \<le> a" "a \<in> fblocks s x \<Longrightarrow> a < sb_size (sblk s)"
    "a \<in> fblocks s x \<Longrightarrow> used s a"
    "bn < MAXFILE \<Longrightarrow> bm < MAXFILE \<Longrightarrow> addr_of s x bn = addr_of s x bm \<Longrightarrow> addr_of s x bn \<noteq> 0 \<Longrightarrow> bn = bm"
    "bn < MAXFILE \<Longrightarrow> addr_of s x bn \<noteq> 0 \<Longrightarrow> addr_of s x bn \<noteq> i_addrs x ! NDIRECT"
  using assms by (auto simp: fmap_ok_def NDIRECT_def)

lemma addr_in: "bn < MAXFILE \<Longrightarrow> addr_of s x bn \<noteq> 0 \<Longrightarrow> addr_of s x bn \<in> fblocks s x"
  and ind_in: "i_addrs x ! NDIRECT \<noteq> 0 \<Longrightarrow> i_addrs x ! NDIRECT \<in> fblocks s x"
  by (auto simp: fblocks_def)

lemma maxfile: "MAXFILE = 135" "NDIRECT = 7"
  by (simp_all add: fs_consts)

section \<open>Reading\<close>

lemma bmap_mapped:
  fixes s :: "'z fsst_scheme"
  assumes tx: "tx s {} n" and lay: "layout_ok s" and x: "x = inode_at ip s" "i_dev x = 1" "fmap_ok s x" and bn: "bn < MAXFILE" "addr_of s x bn \<noteq> 0"
  shows "\<exists>t. bmap ip bn s = Ret (addr_of s x bn) t \<and> tx t {} n \<and> bview t = bview s \<and> tx_frame s t"
proof (cases "bn < NDIRECT")
  case True
  then show ?thesis using tx x bn by (intro exI [of _ s]) (simp add: bmap_def addr_of_def)
next
  case False
  let ?a = "i_addrs x ! NDIRECT"
  have a: "?a \<noteq> 0" "addr_of s x bn = word_at (bview s ?a) (4 * (bn - NDIRECT))" using False bn(2) by (auto simp: addr_of_def split: if_splits)
  have "?a < disksize s" using fmap_okD(3) [OF x(3) ind_in [OF a(1)]] lay by (simp add: layout_ok_def)
  then obtain i s1 t where "bread 1 ?a s = Ret i s1" "b_data (bufs s1 ! i) = bview s ?a" "brelse i s1 = Ret () t"
    "tx t {} n" "bview t = bview s" "tx_frame s t"
    by (rule tc.read_block [OF tx, of ?a, simplified])
  then show ?thesis using False bn x a by (intro exI [of _ t]) (simp add: bmap_def buf_data_def fs_consts)
qed

lemma addr_cong: "bview t = bview s \<Longrightarrow> addr_of t = addr_of s" "bview t = bview s \<Longrightarrow> fblocks t = fblocks s"
    "bview t = bview s \<Longrightarrow> fbyte t = fbyte s"
proof -
  assume v: "bview t = bview s"
  show a: "addr_of t = addr_of s" by (simp add: addr_of_def v fun_eq_iff)
  show "fblocks t = fblocks s" "fbyte t = fbyte s" by (simp_all add: fblocks_def fbyte_def v a fun_eq_iff)
qed

lemma fmap_cong:
  assumes "bview t = bview s" "fs_frame s t"
  shows "fmap_ok t = fmap_ok s"
  unfolding fmap_ok_def addr_cong [OF assms(1)] view_cong(1) [OF assms] fs_frame_rest(6) [OF assms(2)] ..

lemma same_block:
  assumes "off mod BSIZE + i < BSIZE"
  shows "(off + i) div BSIZE = off div BSIZE" "(off + i) mod BSIZE = off mod BSIZE + i"
proof -
  define q r where "q = off div BSIZE" and "r = off mod BSIZE"
  have e: "off + i = q * BSIZE + (r + i)" and r: "r + i < BSIZE" using assms by (simp_all add: q_def r_def)
  have "(q * BSIZE + (r + i)) div BSIZE = q" "(q * BSIZE + (r + i)) mod BSIZE = r + i" using r by simp_all
  then show "(off + i) div BSIZE = off div BSIZE" "(off + i) mod BSIZE = off mod BSIZE + i"
    unfolding e q_def r_def by simp_all
qed

lemma fbyte_block:
  assumes "off mod BSIZE + m \<le> BSIZE" "length (bview s (addr_of s x (off div BSIZE))) = BSIZE" "addr_of s x (off div BSIZE) \<noteq> 0"
  shows "take m (drop (off mod BSIZE) (bview s (addr_of s x (off div BSIZE)))) = map (fbyte s x) [off..<off + m]"
proof (rule nth_equalityI)
  fix i assume "i < length (take m (drop (off mod BSIZE) (bview s (addr_of s x (off div BSIZE)))))"
  then have i: "i < m" by simp
  have "off mod BSIZE + i < BSIZE" using i assms(1) by simp
  note same_block [OF this]
  then show "take m (drop (off mod BSIZE) (bview s (addr_of s x (off div BSIZE)))) ! i = map (fbyte s x) [off..<off + m] ! i"
    using i assms by (simp add: fbyte_def)
qed (use assms in simp)

lemma readi_loop_ok:
  fixes s :: "'z fsst_scheme"
  assumes "tx s {} k" "layout_ok s" "x = inode_at ip s" "i_dev x = 1" "fmap_ok s x"
    "off + n \<le> MAXFILE * BSIZE" "\<forall>bn. off div BSIZE \<le> bn \<and> bn * BSIZE < off + n \<longrightarrow> addr_of s x bn \<noteq> 0"
  shows "\<exists>t. readi_loop ip off n s = Ret (map (fbyte s x) [off..<off + n]) t \<and> tx t {} k \<and> bview t = bview s \<and> tx_frame s t"
  using assms
proof (induction n arbitrary: off s rule: less_induct)
  case (less n)
  show ?case
  proof (cases "n = 0")
    case True
    then show ?thesis using less.prems(1) by (intro exI [of _ s]) (simp add: readi_loop.simps)
  next
    case False
    note a = less.prems
    have B: "BSIZE = 512" by (simp add: BSIZE_def)
    let ?m = "min n (BSIZE - off mod BSIZE)" and ?bn = "off div BSIZE"
    have m: "0 < ?m" "?m \<le> n" "off mod BSIZE + ?m \<le> BSIZE" using False mod_less_divisor [of 512 off] by (simp_all add: B)
    have bn: "?bn < MAXFILE" using a(6) False by (simp add: B maxfile less_mult_imp_div_less)
    have "?bn * BSIZE \<le> off" by simp
    then have "?bn * BSIZE < off + n" using False by linarith
    then have nz: "addr_of s x ?bn \<noteq> 0" using a(7) by blast
    let ?a = "addr_of s x ?bn"
    have ad: "?a < disksize s" using fmap_okD(3) [OF a(5) addr_in [OF bn nz]] a(2) by (simp add: layout_ok_def)
    obtain t where t: "bmap ip ?bn s = Ret ?a t" "tx t {} k" "bview t = bview s" "tx_frame s t"
      using bmap_mapped [OF a(1-5) bn nz] by blast
    obtain i s1 u where u: "bread 1 ?a t = Ret i s1" "b_data (bufs s1 ! i) = bview t ?a" "brelse i s1 = Ret () u" "tx u {} k"
      "bview u = bview t" "tx_frame t u"
      by (rule tc.read_block [OF t(2), of ?a]) (use ad tx_frame_rest(1) [OF t(4)] in simp_all)
    have fr: "tx_frame s u" using t(4) u(6) tx_frame_trans by blast
    have v: "bview u = bview s" using u(5) t(3) by simp
    have xu: "x = inode_at ip u" using a(3) tx_frame_fs(2) [OF fr] by (simp add: inode_at_def)
    have le: "off div BSIZE \<le> (off + ?m) div BSIZE" by (rule div_le_mono) simp
    have "\<exists>w. readi_loop ip (off + ?m) (n - ?m) u = Ret (map (fbyte u x) [off + ?m..<off + ?m + (n - ?m)]) w
        \<and> tx w {} k \<and> bview w = bview u \<and> tx_frame u w"
    proof (rule less.IH)
      show "n - ?m < n" "tx u {} k" "x = inode_at ip u" "i_dev x = 1" "off + ?m + (n - ?m) \<le> MAXFILE * BSIZE"
        using m u(4) xu a(4,6) False by simp_all
      show "layout_ok u" "fmap_ok u x"
        using a(2,5) layout_frame [OF fr] fmap_cong [OF v tx_to_fs_frame [OF fr]] by simp_all
      show "\<forall>bn. (off + ?m) div BSIZE \<le> bn \<and> bn * BSIZE < off + ?m + (n - ?m) \<longrightarrow> addr_of u x bn \<noteq> 0"
        using a(7) le m(2) by (auto simp: addr_cong(1) [OF v])
    qed
    then obtain w where w: "readi_loop ip (off + ?m) (n - ?m) u = Ret (map (fbyte s x) [off + ?m..<off + n]) w"
      "tx w {} k" "bview w = bview s" "tx_frame u w"
      using m(2) by (auto simp: addr_cong(3) [OF v] v)
    have "take ?m (drop (off mod BSIZE) (bview s ?a)) @ map (fbyte s x) [off + ?m..<off + n] = map (fbyte s x) [off..<off + n]"
      unfolding fbyte_block [OF m(3) tx_length [OF a(1) ad] nz]
      using upt_add_eq_append [of off "off + ?m" "n - ?m"] m(2) by (simp flip: map_append)
    moreover have "i_dev (inode_at ip s) = 1" using a(3,4) by simp
    ultimately have "readi_loop ip off n s = Ret (map (fbyte s x) [off..<off + n]) w"
      using False t(1) u(1-3) w(1) by (subst readi_loop.simps) (simp add: buf_data_def t(3))
    with w tx_frame_trans [OF fr w(4)] show ?thesis by blast
  qed
qed

text \<open>A well-formed file: its blocks are mapped up to its size.\<close>

definition file_ok :: "'z fsst_scheme \<Rightarrow> inode \<Rightarrow> bool" where
  "file_ok s x \<longleftrightarrow> fmap_ok s x \<and> unat (i_size x) \<le> MAXFILE * BSIZE
     \<and> (\<forall>bn. bn * BSIZE < unat (i_size x) \<longrightarrow> addr_of s x bn \<noteq> 0)"

definition fcontent :: "'z fsst_scheme \<Rightarrow> inode \<Rightarrow> byte list" where
  "fcontent s x = map (fbyte s x) [0..<unat (i_size x)]"

lemma unat_no_wrap: "\<not> (off + n < (off :: u32)) \<Longrightarrow> unat (off + n) = unat off + unat n"
  by (simp add: not_less no_olen_add_nat unat_add_lem [THEN iffD1])

lemma sint_small: "unat (w :: u32) < 2147483648 \<Longrightarrow> sint w = int (unat w)"
proof -
  assume a: "unat w < 2147483648"
  have u: "uint w = int (unat w)" by (rule uint_nat)
  have "uint w < 2147483648" unfolding u using a by linarith
  moreover have "- 2147483648 \<le> uint w" using uint_ge_0 [of w] by linarith
  ultimately show ?thesis by (simp add: sint_uint signed_take_bit_int_eq_self)
qed

lemma readi_ok:
  fixes s :: "'z fsst_scheme"
  assumes "tx s {} k" "layout_ok s" "i_dev (inode_at ip s) = 1" "file_ok s (inode_at ip s)" "i_type (inode_at ip s) \<noteq> T_DEV"
    "unat off \<le> unat (i_size (inode_at ip s))" "\<not> off + n < off"
  shows "\<exists>t. readi dv ip off n s = Ret (int (min (unat n) (unat (i_size (inode_at ip s)) - unat off)),
      take (unat n) (drop (unat off) (fcontent s (inode_at ip s)))) t \<and> tx t {} k \<and> bview t = bview s \<and> tx_frame s t"
proof -
  let ?x = "inode_at ip s" and ?sz = "unat (i_size (inode_at ip s))"
  let ?n = "if off + n > i_size ?x then i_size ?x - off else n"
  have sum: "unat (off + n) = unat off + unat n" by (rule unat_no_wrap [OF assms(7)])
  have le: "off \<le> i_size ?x" using assms(6) by (simp add: word_le_nat_alt)
  have n: "unat ?n = min (unat n) (?sz - unat off)"
    using sum le assms(6) by (auto simp: unat_sub word_less_nat_alt)
  have fm: "fmap_ok s ?x" "?sz \<le> 69120" "\<forall>bn. bn * BSIZE < ?sz \<longrightarrow> addr_of s ?x bn \<noteq> 0"
    using assms(4) by (simp_all add: file_ok_def maxfile BSIZE_def)
  have end': "unat off + unat ?n \<le> ?sz" unfolding n using assms(6) by simp
  obtain t where t: "readi_loop ip (unat off) (unat ?n) s = Ret (map (fbyte s ?x) [unat off..<unat off + unat ?n]) t" "tx t {} k"
    "bview t = bview s" "tx_frame s t"
    using readi_loop_ok [OF assms(1,2) refl assms(3) fm(1), of "unat off" "unat ?n"] end' fm(2,3)
    by (auto simp: maxfile BSIZE_def)
  have "map (fbyte s ?x) [unat off..<unat off + unat ?n] = take (unat n) (drop (unat off) (fcontent s ?x))"
    unfolding n using assms(6) by (simp add: fcontent_def list_eq_iff_nth_eq min_def)
  moreover have "sint ?n = int (min (unat n) (?sz - unat off))"
    using sint_small [of ?n] n fm(2) by simp
  ultimately show ?thesis
    using t assms(5,7) le by (intro exI [of _ t]) (simp add: readi_def Let_def not_less)
qed

section \<open>Allocating a block for a file\<close>

lemma nfree_least:
  assumes "1 \<le> nfree s"
  obtains b where "b < sb_size (sblk s)" "\<not> used s b" "\<forall>c < b. used s c"
proof -
  have "{b. b < sb_size (sblk s) \<and> \<not> used s b} \<noteq> {}" using assms unfolding nfree_def by (metis card.empty not_one_le_zero)
  then obtain b where b: "b < sb_size (sblk s)" "\<not> used s b" by blast
  define P where "P b \<longleftrightarrow> b < sb_size (sblk s) \<and> \<not> used s b" for b
  have l: "P (Least P)" by (rule LeastI [of P b]) (simp add: P_def b)
  moreover have "used s c" if "c < Least P" for c
    using not_less_Least [OF that] that l unfolding P_def by linarith
  ultimately show thesis using that unfolding P_def by blast
qed

lemma alloc_step:
  fixes s :: "'z fsst_scheme"
  assumes tx: "tx s H (Suc (Suc n))" "card H < 2" and ok: "bitmap_ok s" "1 \<le> nfree s"
    and H: "\<forall>c \<in> H. data_start (sblk s) \<le> c \<and> used s c"
  shows "\<exists>b t. balloc 1 s = Ret b t \<and> tx t H n \<and> tx_frame s t \<and> \<not> used s b \<and> data_start (sblk s) \<le> b \<and> b < sb_size (sblk s)
    \<and> bitmap_ok t \<and> bview t b = replicate BSIZE 0 \<and> (\<forall>c < sb_size (sblk s). used t c \<longleftrightarrow> c = b \<or> used s c)
    \<and> (\<forall>c. c \<noteq> b \<and> other_block (sblk s) c \<longrightarrow> bview t c = bview s c) \<and> nfree t = nfree s - 1
    \<and> (\<forall>c k. c \<in> H \<and> cached s c k \<longrightarrow> cached t c k)"
proof -
  obtain b where b: "b < sb_size (sblk s)" "\<not> used s b" "\<forall>c < b. used s c" using nfree_least [OF ok(2)] by blast
  obtain t where t: "balloc 1 s = Ret b t" "tx t H n" "allocated s t b" "tx_frame s t" "\<forall>c k. c \<in> H \<and> cached s c k \<longrightarrow> cached t c k"
    using balloc_ok [OF tx ok(1) b(2,1,3) H] by blast
  have lay: "layout_ok s" using ok(1) by (simp add: bitmap_ok_def)
  note ae = allocated_effect [OF t(3) ok(1) b(2,1) t(4) tx_length [OF tx(1) bitmap_block(3) [OF lay b(1)]]]
  have "{c. c < sb_size (sblk t) \<and> \<not> used t c} = {c. c < sb_size (sblk s) \<and> \<not> used s c} - {b}"
    using ae(3) tx_frame_fs(1) [OF t(4)] by auto
  then have "nfree t = nfree s - 1" using b by (simp add: nfree_def)
  with t b ae show ?thesis by blast
qed

lemma fs_frame_icache: "fs_frame s t \<Longrightarrow> length (icache t) = length (icache s)"
  unfolding fs_frame_def by blast

section \<open>Changes of one file\<close>

text \<open>
  \<open>fstep ip w s t\<close>: from \<open>s\<close> to \<open>t\<close> the file of inode \<open>ip\<close> has got the bytes \<open>w\<close>, and perhaps more blocks;
  every other file, the inodes on disk and everything outside the cache are as before.
\<close>

definition fstep :: "nat \<Rightarrow> (nat \<rightharpoonup> byte) \<Rightarrow> 'z fsst_scheme \<Rightarrow> 'z fsst_scheme \<Rightarrow> bool" where
  "fstep ip w s t \<longleftrightarrow> fs_frame s t \<and> (\<forall>k. slk t (SL_inode k) = slk s (SL_inode k)) \<and> bitmap_ok t
     \<and> (\<exists>as. icache t = (icache s)[ip := (inode_at ip s)\<lparr>i_addrs := as\<rparr>]) \<and> fmap_ok t (inode_at ip t)
     \<and> (\<forall>bn < MAXFILE. addr_of s (inode_at ip s) bn \<noteq> 0 \<longrightarrow> addr_of t (inode_at ip t) bn = addr_of s (inode_at ip s) bn)
     \<and> (\<forall>p < MAXFILE * BSIZE. fbyte t (inode_at ip t) p = (case w p of Some b \<Rightarrow> b | None \<Rightarrow> fbyte s (inode_at ip s) p))
     \<and> (\<forall>c. other_block (sblk s) c \<and> (c < data_start (sblk s) \<or> used s c \<and> c < sb_size (sblk s) \<and> c \<notin> fblocks s (inode_at ip s)) \<longrightarrow> bview t c = bview s c)
     \<and> (\<forall>c < sb_size (sblk s). used s c \<longrightarrow> used t c)
     \<and> fblocks t (inode_at ip t) \<subseteq> fblocks s (inode_at ip s) \<union> {c. \<not> used s c}"

lemma fstep_refl:
  assumes "bitmap_ok s" "fmap_ok s (inode_at ip s)" "ip < length (icache s)"
  shows "fstep ip Map.empty s s"
proof -
  have "icache s = (icache s)[ip := (inode_at ip s)\<lparr>i_addrs := i_addrs (inode_at ip s)\<rparr>]"
    using assms(3) by (simp add: inode_at_def)
  then have "\<exists>as. icache s = (icache s)[ip := (inode_at ip s)\<lparr>i_addrs := as\<rparr>]" by blast
  with assms show ?thesis by (simp add: fstep_def)
qed

lemma fstepD:
  assumes "fstep ip w s t"
  shows "fs_frame s t" "slk t (SL_inode k) = slk s (SL_inode k)" "bitmap_ok t" "\<exists>as. icache t = (icache s)[ip := (inode_at ip s)\<lparr>i_addrs := as\<rparr>]"
    "fmap_ok t (inode_at ip t)"
    "bn < MAXFILE \<Longrightarrow> addr_of s (inode_at ip s) bn \<noteq> 0 \<Longrightarrow> addr_of t (inode_at ip t) bn = addr_of s (inode_at ip s) bn"
    "p < MAXFILE * BSIZE \<Longrightarrow> fbyte t (inode_at ip t) p = (case w p of Some b \<Rightarrow> b | None \<Rightarrow> fbyte s (inode_at ip s) p)"
    "other_block (sblk s) c \<Longrightarrow> c < data_start (sblk s) \<or> used s c \<and> c < sb_size (sblk s) \<and> c \<notin> fblocks s (inode_at ip s) \<Longrightarrow> bview t c = bview s c"
    "c < sb_size (sblk s) \<Longrightarrow> used s c \<Longrightarrow> used t c" "a \<in> fblocks t (inode_at ip t) \<Longrightarrow> a \<in> fblocks s (inode_at ip s) \<or> \<not> used s a"
  using assms unfolding fstep_def by (elim conjE; blast)+

lemma fstep_trans:
  assumes 1: "fstep ip v s t" and 2: "fstep ip w t u" and ip: "ip < length (icache s)"
  shows "fstep ip (v ++ w) s u"
proof -
  note d1 = fstepD [OF 1] and d2 = fstepD [OF 2]
  have sb: "sblk t = sblk s" "sblk u = sblk s"
    using fs_frame_rest(6) [OF d1(1)] fs_frame_rest(6) [OF d2(1)] by simp_all
  obtain as where as: "icache t = (icache s)[ip := (inode_at ip s)\<lparr>i_addrs := as\<rparr>]" using d1(4) by blast
  obtain bs where bs: "icache u = (icache t)[ip := (inode_at ip t)\<lparr>i_addrs := bs\<rparr>]" using d2(4) by blast
  have ic: "icache u = (icache s)[ip := (inode_at ip s)\<lparr>i_addrs := bs\<rparr>]"
    using ip unfolding bs by (simp add: inode_at_def as)
  have size: "a < sb_size (sblk s)" if "a \<in> fblocks u (inode_at ip u)" for a
    using fmap_okD(3) [OF d2(5) that] sb by simp
  have blocks: "a \<in> fblocks s (inode_at ip s) \<or> \<not> used s a" if "a \<in> fblocks u (inode_at ip u)" for a
    using d2(10) [OF that] d1(10) [of a] d1(9) [OF size [OF that]] by blast
  have view: "bview u c = bview s c"
    if c: "other_block (sblk s) c" "c < data_start (sblk s) \<or> used s c \<and> c < sb_size (sblk s) \<and> c \<notin> fblocks s (inode_at ip s)" for c
  proof -
    have "c < data_start (sblk t) \<or> used t c \<and> c < sb_size (sblk t) \<and> c \<notin> fblocks t (inode_at ip t)"
      using c(2) d1(9) [of c] d1(10) [of c] unfolding sb by blast
    then show ?thesis using d2(8) [of c] d1(8) [OF c] c(1) unfolding sb by simp
  qed
  have bytes: "fbyte u (inode_at ip u) p = (case (v ++ w) p of Some b \<Rightarrow> b | None \<Rightarrow> fbyte s (inode_at ip s) p)" if "p < MAXFILE * BSIZE" for p
    using d1(7) [OF that] d2(7) [OF that] by (simp add: map_add_def split: option.split)
  have addrs: "addr_of u (inode_at ip u) bn = addr_of s (inode_at ip s) bn" if "bn < MAXFILE" "addr_of s (inode_at ip s) bn \<noteq> 0" for bn
    using d1(6) [OF that] d2(6) [OF that(1)] that(2) by simp
  have "slk u (SL_inode k) = slk s (SL_inode k)" for k using d1(2) d2(2) by simp
  moreover have "used u c" if "c < sb_size (sblk s)" "used s c" for c using d1(9) [OF that] d2(9) [of c] that(1) unfolding sb by blast
  ultimately show ?thesis
    unfolding fstep_def using fs_frame_trans [OF d1(1) d2(1)] d2(3,5) ic addrs bytes view blocks by blast
qed

section \<open>bmap on an unmapped block\<close>

text \<open>One new block \<open>b\<close>: for block number \<open>bn\<close> if \<open>k = Some bn\<close>, for the indirect addresses if \<open>k = None\<close>.\<close>

lemma fstep_new_block:
  fixes s :: "'z fsst_scheme" and k :: "nat option"
  assumes old: "bitmap_ok s" "fmap_ok s x" "x = inode_at ip s" "ip < length (icache s)"
    and new: "fs_frame s t" "\<forall>k. slk t (SL_inode k) = slk s (SL_inode k)" "bitmap_ok t" "icache t = (icache s)[ip := y]" "y = x\<lparr>i_addrs := as\<rparr>"
      "length as = 8"
    and b: "\<not> used s b" "data_start (sblk s) \<le> b" "b < sb_size (sblk s)" "\<forall>c < sb_size (sblk s). used t c \<longleftrightarrow> c = b \<or> used s c"
    and view: "\<And>c. c \<noteq> b \<Longrightarrow> i_addrs x ! NDIRECT = 0 \<or> c \<noteq> i_addrs x ! NDIRECT \<Longrightarrow> other_block (sblk s) c \<Longrightarrow> bview t c = bview s c"
      "bview t b = replicate BSIZE 0"
    and addr: "\<And>bn. bn < MAXFILE \<Longrightarrow> addr_of t y bn = (if k = Some bn then b else addr_of s x bn)"
      "\<And>bn. k = Some bn \<Longrightarrow> bn < MAXFILE \<and> addr_of s x bn = 0"
      "as ! NDIRECT = (if k = None then b else i_addrs x ! NDIRECT)" "k = None \<Longrightarrow> i_addrs x ! NDIRECT = 0"
  shows "fstep ip Map.empty s t"
proof -
  have lay: "layout_ok s" using old(1) by (simp add: bitmap_ok_def)
  have sb: "sblk t = sblk s" by (rule fs_frame_rest(6) [OF new(1)])
  have y: "inode_at ip t = y" using new(4) old(4) by (simp add: inode_at_def)
  have b0: "b \<noteq> 0" using b(2) by (auto simp: data_start_def)
  have nb: "a \<noteq> b" if "a \<in> fblocks s x" for a using fmap_okD(4) [OF old(2) that] b(1) by blast
  have ob: "other_block (sblk s) a" if "a \<in> fblocks s x" for a by (rule data_other [OF lay fmap_okD(2) [OF old(2) that]])
  have fb: "a \<in> fblocks s x \<or> a = b" if "a \<in> fblocks t y" for a
    using that addr by (auto simp: fblocks_def new(5) split: if_splits)
  have nind: "addr_of t y bn \<noteq> i_addrs y ! NDIRECT" if "bn < MAXFILE" "addr_of t y bn \<noteq> 0" for bn
  proof (cases "k = Some bn")
    case True
    then show ?thesis using addr(1) [OF that(1)] addr(3) nb [OF ind_in] b0 by (auto simp: new(5))
  next
    case False
    then have e: "addr_of t y bn = addr_of s x bn" using addr(1) [OF that(1)] by simp
    then have "addr_of s x bn \<in> fblocks s x" using that by (simp add: addr_in)
    then show ?thesis using nb e that addr(3) fmap_okD(6) [OF old(2) that(1)] by (cases "k = None") (auto simp: new(5))
  qed
  have inj: "bn = bm" if "bn < MAXFILE" "bm < MAXFILE" "addr_of t y bn = addr_of t y bm" "addr_of t y bn \<noteq> 0" for bn bm
  proof (cases "k = Some bn \<or> k = Some bm")
    case True
    then show ?thesis using that addr(1) [OF that(1)] addr(1) [OF that(2)] nb [OF addr_in [OF that(1)]] nb [OF addr_in [OF that(2)]] b0
      by (auto split: if_splits)
  next
    case False
    then show ?thesis using that addr(1) [OF that(1)] addr(1) [OF that(2)] fmap_okD(5) [OF old(2) that(1,2)] by simp
  qed
  have "fmap_ok t (inode_at ip t)"
    unfolding fmap_ok_def y sb
  proof (intro conjI ballI allI impI)
    show "length (i_addrs y) = NDIRECT + 1" by (simp add: new(5,6) maxfile)
    fix a assume "a \<in> fblocks t y"
    then have "a \<in> fblocks s x \<or> a = b" by (rule fb)
    then show "data_start (sblk s) \<le> a" "a < sb_size (sblk s)" "used t a"
      using fmap_okD(2-4) [OF old(2), of a] b by auto
  qed (use inj nind in blast)+
  moreover have "fbyte t y p = fbyte s x p" if p: "p < MAXFILE * BSIZE" for p
  proof -
    have bn: "p div BSIZE < MAXFILE" using p by (simp add: less_mult_imp_div_less)
    show ?thesis
    proof (cases "k = Some (p div BSIZE)")
      case True
      then show ?thesis using addr(1) [OF bn] addr(2) b0 view(2) by (simp add: fbyte_def BSIZE_def)
    next
      case False
      then have e: "addr_of t y (p div BSIZE) = addr_of s x (p div BSIZE)" using addr(1) [OF bn] by simp
      show ?thesis
      proof (cases "addr_of s x (p div BSIZE) = 0")
        case nz: False
        note i = addr_in [OF bn nz]
        have "bview t (addr_of s x (p div BSIZE)) = bview s (addr_of s x (p div BSIZE))"
          using fmap_okD(6) [OF old(2) bn nz] by (intro view(1) nb [OF i] ob [OF i]) simp
        then show ?thesis by (simp add: fbyte_def e)
      qed (simp add: fbyte_def e)
    qed
  qed
  moreover have "addr_of t y bn = addr_of s x bn" if "bn < MAXFILE" "addr_of s x bn \<noteq> 0" for bn
    using addr(1) [OF that(1)] addr(2) [of bn] that(2) by auto
  moreover have "bview t c = bview s c"
    if "other_block (sblk s) c" "c < data_start (sblk s) \<or> used s c \<and> c < sb_size (sblk s) \<and> c \<notin> fblocks s x" for c
  proof (rule view(1) [OF _ _ that(1)])
    show "c \<noteq> b" using that(2) b by auto
    show "i_addrs x ! NDIRECT = 0 \<or> c \<noteq> i_addrs x ! NDIRECT"
      using that(2) ind_in [of x s] fmap_okD(2) [OF old(2), of "i_addrs x ! NDIRECT"] by force
  qed
  moreover have "a \<in> fblocks s x \<or> \<not> used s a" if "a \<in> fblocks t y" for a using fb [OF that] b(1) by blast
  ultimately show ?thesis
    unfolding fstep_def y old(3) [symmetric] using new b(4) by (auto simp: new(5))
qed

lemma word_at_zeros: "word_at (replicate n 0) k = 0"
  by (simp add: word_at_def rd32_def cview_def)

text \<open>Allocating a block and entering it in the inode, at a direct address or as the indirect block.\<close>

lemma bmap_direct_step:
  fixes s :: "'z fsst_scheme"
  assumes tx: "tx s {} (Suc (Suc n))" and ok: "bitmap_ok s" "1 \<le> nfree s" and x: "x = inode_at ip s" "fmap_ok s x" "ip < length (icache s)" "i_dev x = 1"
    and j: "j \<le> NDIRECT" "i_addrs x ! j = 0"
  shows "\<exists>b t. bindK (balloc (i_dev x)) (\<lambda>addr. seqK (upd_inode ip (\<lambda>x. x\<lparr>i_addrs := (i_addrs x)[j := addr]\<rparr>)) (ret addr)) s = Ret b t
    \<and> tx t {} n \<and> fstep ip Map.empty s t \<and> nfree t = nfree s - 1 \<and> i_addrs (inode_at ip t) ! j = b \<and> b \<noteq> 0
    \<and> (\<forall>k \<noteq> j. i_addrs (inode_at ip t) ! k = i_addrs x ! k)
    \<and> (j = NDIRECT \<longrightarrow> (\<forall>bn. NDIRECT \<le> bn \<longrightarrow> addr_of t (inode_at ip t) bn = 0))"
proof -
  obtain b u where u: "balloc 1 s = Ret b u" "tx u {} n" "tx_frame s u" "\<not> used s b" "data_start (sblk s) \<le> b" "b < sb_size (sblk s)"
    "bitmap_ok u" "bview u b = replicate BSIZE 0" "\<forall>c < sb_size (sblk s). used u c \<longleftrightarrow> c = b \<or> used s c"
    "\<forall>c. c \<noteq> b \<and> other_block (sblk s) c \<longrightarrow> bview u c = bview s c" "nfree u = nfree s - 1"
    using alloc_step [OF tx _ ok] by auto
  define as where "as = (i_addrs x)[j := b]"
  define y where "y = x\<lparr>i_addrs := as\<rparr>"
  define t where "t = u\<lparr>icache := upd_at ip (\<lambda>x. x\<lparr>i_addrs := (i_addrs x)[j := b]\<rparr>) (icache u)\<rparr>"
  have icu: "icache u = icache s" by (rule tx_frame_fs(2) [OF u(3)])
  have ict: "icache t = (icache s)[ip := y]" using x(1,3) by (simp add: t_def icu upd_at_def y_def as_def inode_at_def)
  have yt: "inode_at ip t = y" using ict x(3) by (simp add: inode_at_def)
  have lay: "layout_ok s" using ok(1) by (simp add: bitmap_ok_def)
  have l: "length (i_addrs x) = 8" by (rule fmap_okD(1) [OF x(2)])
  have b0: "b \<noteq> 0" using u(5) by (simp add: data_start_def)
  have vt: "bview t = bview u" by (simp add: t_def)
  have ind: "bview u (i_addrs x ! NDIRECT) = bview s (i_addrs x ! NDIRECT)" if "i_addrs x ! NDIRECT \<noteq> 0"
    using fmap_okD(2,4) [OF x(2) ind_in [OF that]] data_other [OF lay] u(4,10) by metis
  have "fs_frame u t" by (simp add: t_def fs_frame_def)
  then have fr: "fs_frame s t" using tx_to_fs_frame [OF u(3)] fs_frame_trans by blast
  have addr: "addr_of t y bn = (if (if j = NDIRECT then None else Some j) = Some bn then b else addr_of s x bn)" if "bn < MAXFILE" for bn
    using j l ind by (auto simp: addr_of_def y_def as_def vt nth_list_update u(8) word_at_zeros maxfile)
  have "fstep ip Map.empty s t"
    by (rule fstep_new_block [OF ok(1) x(2,1,3) fr _ _ ict y_def _ u(4-6) _ _ _ addr])
      (use u(7-10) tx_frame_slk [OF u(3)] j l in \<open>auto simp: t_def as_def nth_list_update maxfile addr_of_def split: if_splits\<close>)
  moreover have "addr_of t y bn = 0" if "j = NDIRECT" "NDIRECT \<le> bn" for bn
    using that l by (simp add: addr_of_def y_def as_def vt u(8) word_at_zeros maxfile)
  moreover have "tx t {} n" "nfree t = nfree s - 1" using u(2,11) by (simp_all add: t_def nfree_def)
  moreover have "bindK (balloc (i_dev x)) (\<lambda>addr. seqK (upd_inode ip (\<lambda>x. x\<lparr>i_addrs := (i_addrs x)[j := addr]\<rparr>)) (ret addr)) s = Ret b t"
    using u(1) x(4) by (simp add: upd_inode_def t_def)
  ultimately show ?thesis
    using j(1) l b0 by (intro exI [of _ b] exI [of _ t]) (simp add: yt y_def as_def maxfile)
qed

text \<open>The part of \<^verbatim>\<open>bmap\<close> that works on the block of indirect addresses.\<close>

definition bmap_ind :: "nat \<Rightarrow> nat \<Rightarrow> nat \<Rightarrow> ('z fsst_scheme, nat) kop" where
  "bmap_ind dev bn ind =
     bindK (bread dev ind) (\<lambda>bp.
     bindK (buf_data bp) (\<lambda>a.
     bindK (if word_at a (4 * (bn - NDIRECT)) = 0 then
         bindK (balloc dev) (\<lambda>addr.
         bindK (buf_data bp) (\<lambda>a.
         seqK (bset bp (splice a (4 * (bn - NDIRECT)) (le32 addr)))
         (seqK (log_write bp)
         (ret addr))))
       else ret (word_at a (4 * (bn - NDIRECT)))) (\<lambda>addr.
     seqK (brelse bp)
     (ret addr))))"

lemma bmap_unfold:
  "bmap ip bn = bindK (gets (inode_at ip)) (\<lambda>x.
     if bn < NDIRECT then
       if i_addrs x ! bn = 0 then
         bindK (balloc (i_dev x)) (\<lambda>addr. seqK (upd_inode ip (\<lambda>x. x\<lparr>i_addrs := (i_addrs x)[bn := addr]\<rparr>)) (ret addr))
       else ret (i_addrs x ! bn)
     else if bn - NDIRECT < NINDIRECT then
       bindK (if i_addrs x ! NDIRECT = 0 then
           bindK (balloc (i_dev x)) (\<lambda>addr. seqK (upd_inode ip (\<lambda>x. x\<lparr>i_addrs := (i_addrs x)[NDIRECT := addr]\<rparr>)) (ret addr))
         else ret (i_addrs x ! NDIRECT)) (bmap_ind (i_dev x) bn)
     else panic ''bmap: out of range'')"
  unfolding bmap_def bmap_ind_def [abs_def] by (rule refl)

lemma bmap_ind_step:
  fixes s :: "'z fsst_scheme"
  assumes tx: "tx s {} (Suc (Suc (Suc n)))" and ok: "bitmap_ok s" "1 \<le> nfree s" and x: "x = inode_at ip s" "fmap_ok s x" "ip < length (icache s)"
    and bn: "NDIRECT \<le> bn" "bn < MAXFILE" "addr_of s x bn = 0" "i_addrs x ! NDIRECT \<noteq> 0"
  shows "\<exists>b t. bmap_ind 1 bn (i_addrs x ! NDIRECT) s = Ret b t \<and> tx t {} n \<and> fstep ip Map.empty s t \<and> nfree t = nfree s - 1
    \<and> addr_of t (inode_at ip t) bn = b \<and> b \<noteq> 0"
proof -
  let ?i = "i_addrs x ! NDIRECT" and ?o = "4 * (bn - NDIRECT)"
  have lay: "layout_ok s" using ok(1) by (simp add: bitmap_ok_def)
  note ii = ind_in [OF bn(4), of s]
  note id = fmap_okD(2-4) [OF x(2) ii]
  have iblk: "?i < disksize s" "?i \<notin> log_area s" "other_block (sblk s) ?i"
    using data_block(1,2) [OF lay id(1,2)] data_other [OF lay id(1)] by auto
  have len: "length (bview s ?i) = BSIZE" by (rule tx_length [OF tx iblk(1)])
  have w0: "word_at (bview s ?i) ?o = 0" using bn by (simp add: addr_of_def)
  obtain i s1 where s1: "bread 1 ?i s = Ret i s1" "tx s1 {?i} (Suc (Suc (Suc n)))" "bview s1 = bview s" "cached s1 ?i i" "b_data (bufs s1 ! i) = bview s ?i"
    "tx_frame s s1" using tc.rd_law [OF tx _ _ iblk(1)] by auto
  note f1 = tx_to_fs_frame [OF s1(6)]
  note v1 = view_cong [OF s1(3) f1]
  have sb1: "sblk s1 = sblk s" by (rule tx_frame_fs(1) [OF s1(6)])
  have nf1: "nfree s1 = nfree s" by (simp add: nfree_def v1(1) sb1)
  obtain b u where u: "balloc 1 s1 = Ret b u" "tx u {?i} (Suc n)" "tx_frame s1 u" "\<not> used s b" "data_start (sblk s) \<le> b" "b < sb_size (sblk s)"
    "bitmap_ok u" "bview u b = replicate BSIZE 0" "\<forall>c < sb_size (sblk s). used u c \<longleftrightarrow> c = b \<or> used s c"
    "\<forall>c. c \<noteq> b \<and> other_block (sblk s) c \<longrightarrow> bview u c = bview s c" "nfree u = nfree s - 1" "cached u ?i i"
    using alloc_step [OF s1(2)] ok v1 sb1 nf1 s1(3,4) id by auto
  have ib: "?i \<noteq> b" using u(4) id(3) by blast
  have ui: "bview u ?i = bview s ?i" using u(10) ib iblk(3) by blast
  have o: "?o + 4 \<le> 512" "bn - NDIRECT < 128" using bn(1,2) by (simp_all add: maxfile)
  define d where "d = splice (bview s ?i) ?o (le32 b)"
  have dl: "length d = BSIZE" using len o by (simp add: d_def BSIZE_def)
  have fu: "tx_frame s u" using s1(6) u(3) tx_frame_trans by blast
  have "?i \<notin> log_area u" using iblk(2) tx_frame_rest(11) [OF fu] by simp
  from tc.wr_law [OF u(2) _ u(12) dl this] obtain u' v where v: "bset i d u = Ret () u'" "log_write i u' = Ret () v" "tx v {?i} n"
    "bview v = (bview u)(?i := d)" "cached v ?i i" "tx_frame u v" using u(12) by auto
  obtain t where t: "brelse i v = Ret () t" "tx t {} n" "bview t = bview v" "tx_frame v t"
    using tc.put_law [OF v(3) _ v(5)] by auto
  have ft: "tx_frame s t" using fu v(6) t(4) tx_frame_trans by blast
  note fs = tx_to_fs_frame [OF ft]
  have sbt: "sblk t = sblk s" by (rule tx_frame_fs(1) [OF ft])
  have bt: "bview t = (bview u)(?i := d)" using t(3) v(4) by simp
  have ict: "icache t = icache s" by (rule tx_frame_fs(2) [OF ft])
  have xt: "inode_at ip t = x" using ict x(1) by (simp add: inode_at_def)
  have ut: "used t c = used u c" if "c < sb_size (sblk s)" for c
    using bt iblk(3) that sbt tx_frame_fs(1) [OF fu] by (auto simp: used_def other_block_def)
  have "bitmap_ok t" using u(7) ut lay fs_frame_rest(11) [OF fs] sbt tx_frame_fs(1) [OF fu] by (auto simp: bitmap_ok_def layout_ok_def)
  have b32: "b < 4294967296" using u(6) lay by (simp add: layout_ok_def)
  have wat: "word_at d (4 * (bm - NDIRECT)) = (if bm = bn then b else word_at (bview s ?i) (4 * (bm - NDIRECT)))" if "NDIRECT \<le> bm" for bm
  proof (cases "bm = bn")
    case True
    have "word_at d ?o = word_at (le32 b) 0"
      using word_at_splice(1) [of ?o "le32 b" "bview s ?i" 0] o len by (simp add: d_def BSIZE_def)
    then show ?thesis using True word_at_le32 [OF b32, of "[]"] by simp
  next
    case False
    then have "4 * (bm - NDIRECT) + 4 \<le> ?o \<or> ?o + length (le32 b) \<le> 4 * (bm - NDIRECT)" using that bn(1) by auto
    then show ?thesis using False word_at_splice(2) [of ?o "le32 b" "bview s ?i"] o len by (simp add: d_def BSIZE_def)
  qed
  have addr: "addr_of t x bm = (if Some bn = Some bm then b else addr_of s x bm)" if "bm < MAXFILE" for bm
    using bn(1,4) wat [of bm] by (auto simp: addr_of_def bt)
  have "fstep ip Map.empty s t"
    by (rule fstep_new_block [OF ok(1) x(2,1,3) fs _ \<open>bitmap_ok t\<close>, where y = x and as = "i_addrs x" and b = b and k = "Some bn"])
      (use u(4-6,8-10) ut ib addr bn ict x(1,3) tx_frame_slk [OF ft] fmap_okD(1) [OF x(2)] in \<open>auto simp: inode_at_def bt\<close>)
  moreover have "nfree t = nfree s - 1"
  proof -
    have "{c. c < sb_size (sblk t) \<and> \<not> used t c} = {c. c < sb_size (sblk u) \<and> \<not> used u c}"
      using ut sbt tx_frame_fs(1) [OF fu] by auto
    with u(11) show ?thesis by (simp add: nfree_def)
  qed
  moreover have "b_data (bufs u ! i) = bview s ?i" using tc.content_law [OF u(2) _ u(12)] ui by simp
  with s1(1,5) u(1) v(1,2) t(1) w0 have "bmap_ind 1 bn ?i s = Ret b t" by (simp add: bmap_ind_def buf_data_def d_def)
  ultimately show ?thesis
    using t(2) addr [OF bn(2)] u(5) xt by (intro exI [of _ b] exI [of _ t]) (simp add: data_start_def)
qed

lemma bmap_ok:
  fixes s :: "'z fsst_scheme"
  assumes tx: "tx s {} (n + 5)" and ok: "bitmap_ok s" "2 \<le> nfree s" and x: "x = inode_at ip s" "fmap_ok s x" "ip < length (icache s)" "i_dev x = 1"
    and bn: "bn < MAXFILE"
  shows "\<exists>t. bmap ip bn s = Ret (addr_of t (inode_at ip t) bn) t \<and> tx t {} n \<and> fstep ip Map.empty s t
    \<and> addr_of t (inode_at ip t) bn \<noteq> 0 \<and> nfree s \<le> nfree t + 2 \<and> (addr_of s x bn \<noteq> 0 \<longrightarrow> icache t = icache s)"
proof (cases "addr_of s x bn = 0")
  case False
  have lay: "layout_ok s" using ok(1) by (simp add: bitmap_ok_def)
  obtain t where t: "bmap ip bn s = Ret (addr_of s x bn) t" "tx t {} (n + 5)" "bview t = bview s" "tx_frame s t"
    using bmap_mapped [OF tx lay x(1,4,2) bn False] by blast
  note fs = tx_to_fs_frame [OF t(4)]
  have xt: "inode_at ip t = x" using tx_frame_fs(2) [OF t(4)] x(1) by (simp add: inode_at_def)
  have "nfree t = nfree s" by (simp add: nfree_def view_cong(1) [OF t(3) fs] fs_frame_rest(6) [OF fs])
  moreover have "fstep ip Map.empty s t"
  proof -
    have "icache t = (icache s)[ip := x\<lparr>i_addrs := i_addrs x\<rparr>]" using tx_frame_fs(2) [OF t(4)] x(1,3) by (simp add: inode_at_def)
    then have "\<exists>as. icache t = (icache s)[ip := x\<lparr>i_addrs := as\<rparr>]" by blast
    then show ?thesis
      using x fs tx_frame_slk [OF t(4)] ok(1) view_cong [OF t(3) fs] fmap_cong [OF t(3) fs] xt
      unfolding fstep_def addr_cong [OF t(3)] x(1) [symmetric] xt t(3) by auto
  qed
  moreover have "tx t {} n" using tc.mono_law [OF t(2)] by simp
  ultimately show ?thesis using t(1) False tx_frame_fs(2) [OF t(4)] by (intro exI [of _ t]) (simp add: xt addr_cong(1) [OF t(3)])
next
  case zero: True
  show ?thesis
  proof (cases "bn < NDIRECT")
    case True
    have "tx s {} (Suc (Suc n))" using tc.mono_law [OF tx] by simp
    moreover have "i_addrs x ! bn = 0" using zero True by (simp add: addr_of_def)
    ultimately obtain b t where t: "bindK (balloc (i_dev x)) (\<lambda>addr. seqK (upd_inode ip (\<lambda>x. x\<lparr>i_addrs := (i_addrs x)[bn := addr]\<rparr>)) (ret addr)) s = Ret b t"
      "tx t {} n" "fstep ip Map.empty s t" "nfree t = nfree s - 1" "i_addrs (inode_at ip t) ! bn = b" "b \<noteq> 0"
      using bmap_direct_step [OF _ ok(1) _ x, of n bn] ok(2) True by auto
    then have "bmap ip bn s = Ret (addr_of t (inode_at ip t) bn) t"
      using zero True x(1) by (simp add: bmap_unfold addr_of_def)
    then show ?thesis using t True zero by (intro exI [of _ t]) (simp add: addr_of_def)
  next
    case False
    have rng: "NDIRECT \<le> bn" "bn - NDIRECT < NINDIRECT" using False bn by (simp_all add: fs_consts)
    obtain ind u where u: "(if i_addrs x ! NDIRECT = 0 then
           bindK (balloc (i_dev x)) (\<lambda>addr. seqK (upd_inode ip (\<lambda>x. x\<lparr>i_addrs := (i_addrs x)[NDIRECT := addr]\<rparr>)) (ret addr))
         else ret (i_addrs x ! NDIRECT)) s = Ret ind u" "tx u {} (Suc (Suc (Suc n)))" "fstep ip Map.empty s u" "1 \<le> nfree u" "nfree s \<le> nfree u + 1"
      "i_addrs (inode_at ip u) ! NDIRECT = ind" "ind \<noteq> 0" "addr_of u (inode_at ip u) bn = 0"
    proof (cases "i_addrs x ! NDIRECT = 0")
      case True
      have "tx s {} (Suc (Suc (Suc (Suc (Suc n)))))" using tc.mono_law [OF tx] by simp
      from bmap_direct_step [OF this ok(1) _ x, of NDIRECT] ok(2) True
      obtain b u where u: "bindK (balloc (i_dev x)) (\<lambda>addr. seqK (upd_inode ip (\<lambda>x. x\<lparr>i_addrs := (i_addrs x)[NDIRECT := addr]\<rparr>)) (ret addr)) s = Ret b u"
        "tx u {} (Suc (Suc (Suc n)))" "fstep ip Map.empty s u" "nfree u = nfree s - 1" "i_addrs (inode_at ip u) ! NDIRECT = b" "b \<noteq> 0"
        "\<forall>bn. NDIRECT \<le> bn \<longrightarrow> addr_of u (inode_at ip u) bn = 0" by auto
      show thesis by (rule that [of b u]) (use u True rng(1) ok(2) in simp_all)
    next
      case nz: False
      have "tx s {} (Suc (Suc (Suc n)))" using tc.mono_law [OF tx] by simp
      moreover have "fstep ip Map.empty s s" by (rule fstep_refl) (use ok x in simp_all)
      ultimately show thesis
        by (intro that [of "i_addrs x ! NDIRECT" s]) (use nz ok(2) zero x(1) [symmetric] in simp_all)
    qed
    note d = fstepD [OF u(3)]
    have len: "ip < length (icache u)" using fs_frame_icache [OF d(1)] x(3) by simp
    have dev: "i_dev x = 1" by (rule x(4))
    obtain b t where t: "bmap_ind 1 bn ind u = Ret b t" "tx t {} n" "fstep ip Map.empty u t" "nfree t = nfree u - 1"
      "addr_of t (inode_at ip t) bn = b" "b \<noteq> 0"
      using bmap_ind_step [OF u(2) d(3) u(4) refl d(5) len rng(1) bn u(8)] u(6,7) by auto
    have "bmap ip bn s = bindK (if i_addrs x ! NDIRECT = 0 then
           bindK (balloc (i_dev x)) (\<lambda>addr. seqK (upd_inode ip (\<lambda>x. x\<lparr>i_addrs := (i_addrs x)[NDIRECT := addr]\<rparr>)) (ret addr))
         else ret (i_addrs x ! NDIRECT)) (bmap_ind (i_dev x) bn) s"
      using False rng(2) by (simp add: bmap_unfold x(1))
    also have "\<dots> = Ret b t" by (subst bindK_Ret, rule u(1)) (simp add: t(1) dev)
    finally have "bmap ip bn s = Ret b t" .
    moreover have "fstep ip Map.empty s t" using fstep_trans [OF u(3) t(3) x(3)] by simp
    ultimately show ?thesis using t u(5) zero by (intro exI [of _ t]) auto
  qed
qed

section \<open>Writing\<close>

definition written :: "nat \<Rightarrow> byte list \<Rightarrow> nat \<rightharpoonup> byte" where
  "written off bs p = (if off \<le> p \<and> p < off + length bs then Some (bs ! (p - off)) else None)"

lemma written_append: "written off as ++ written (off + length as) bs = written off (as @ bs)"
  by (rule ext) (auto simp: written_def map_add_def nth_append)

lemma written_Nil [simp]: "written off [] = Map.empty"
  by (rule ext) (auto simp: written_def)

text \<open>One round of the loop of \<^verbatim>\<open>writei\<close> on a block that is mapped.\<close>

lemma write_block_ok:
  fixes s :: "'z fsst_scheme"
  assumes tx: "tx s {} (Suc n)" and ok: "bitmap_ok s" and x: "x = inode_at ip s" "fmap_ok s x" "ip < length (icache s)"
    and bn: "off div BSIZE < MAXFILE" "addr_of s x (off div BSIZE) \<noteq> 0" and src: "off mod BSIZE + length src \<le> BSIZE"
  defines "a \<equiv> addr_of s x (off div BSIZE)"
  obtains i s1 s2 s3 t where "bread 1 a s = Ret i s1" "b_data (bufs s1 ! i) = bview s a"
    "bset i (splice (bview s a) (off mod BSIZE) src) s1 = Ret () s2" "log_write i s2 = Ret () s3" "brelse i s3 = Ret () t" "tx t {} n"
    "fstep ip (written off src) s t" "nfree t = nfree s" "\<And>bn. bn < MAXFILE \<Longrightarrow> addr_of t (inode_at ip t) bn = addr_of s x bn" "icache t = icache s"
proof -
  have lay: "layout_ok s" using ok by (simp add: bitmap_ok_def)
  have ai: "a \<in> fblocks s x" unfolding a_def by (rule addr_in [OF bn])
  note ad = fmap_okD(2-4) [OF x(2) ai]
  have blk: "a < disksize s" "a \<notin> log_area s" "other_block (sblk s) a"
    using data_block(1,2) [OF lay ad(1,2)] data_other [OF lay ad(1)] by auto
  have len: "length (bview s a) = BSIZE" by (rule tx_length [OF tx blk(1)])
  let ?d = "splice (bview s a) (off mod BSIZE) src"
  obtain i s1 s2 s3 t where r: "bread 1 a s = Ret i s1" "b_data (bufs s1 ! i) = bview s a" "bset i ?d s1 = Ret () s2"
    "log_write i s2 = Ret () s3" "brelse i s3 = Ret () t" and t: "tx t {} n" "bview t = (bview s)(a := ?d)" "tx_frame s t"
    by (rule tc.update_block [OF tx _ _ blk(1,2), of "\<lambda>d. splice d (off mod BSIZE) src"]) (use len src in simp_all)
  note fs = tx_to_fs_frame [OF t(3)]
  have sb: "sblk t = sblk s" by (rule tx_frame_fs(1) [OF t(3)])
  have ic: "icache t = icache s" by (rule tx_frame_fs(2) [OF t(3)])
  have xt: "inode_at ip t = x" using ic x(1) by (simp add: inode_at_def)
  have na: "a \<noteq> i_addrs x ! NDIRECT" unfolding a_def by (rule fmap_okD(6) [OF x(2) bn])
  have addr: "addr_of t x = addr_of s x" using na by (auto simp: addr_of_def t(2) fun_eq_iff)
  have fb: "fblocks t x = fblocks s x" by (simp add: fblocks_def addr)
  have us: "used t c = used s c" if "c < sb_size (sblk s)" for c
    using blk(3) that by (auto simp: used_def t(2) sb other_block_def)
  have "bitmap_ok t" using ok us lay fs_frame_rest(11) [OF fs] by (auto simp: bitmap_ok_def sb layout_ok_def)
  moreover have "fmap_ok t x"
    using x(2) us by (simp add: fmap_ok_def addr fb sb)
  moreover have "fbyte t x p = (case written off src p of Some b \<Rightarrow> b | None \<Rightarrow> fbyte s x p)" if p: "p < MAXFILE * BSIZE" for p
  proof (cases "p div BSIZE = off div BSIZE")
    case True
    have e: "p = (off div BSIZE) * BSIZE + p mod BSIZE" "off = (off div BSIZE) * BSIZE + off mod BSIZE"
      using True div_mult_mod_eq [of p BSIZE] div_mult_mod_eq [of off BSIZE] by simp_all
    have "off \<le> p \<longleftrightarrow> off mod BSIZE \<le> p mod BSIZE" "p < off + length src \<longleftrightarrow> p mod BSIZE < off mod BSIZE + length src"
      "p - off = p mod BSIZE - off mod BSIZE" using e by linarith+
    moreover have "p mod BSIZE < BSIZE" by (simp add: BSIZE_def)
    ultimately show ?thesis
      using bn(2) True src len by (auto simp: fbyte_def addr t(2) written_def a_def [symmetric] nth_splice)
  next
    case False
    have "p div BSIZE < MAXFILE" using p by (simp add: less_mult_imp_div_less)
    then have ne: "addr_of s x (p div BSIZE) \<noteq> a \<or> addr_of s x (p div BSIZE) = 0"
      using fmap_okD(5) [OF x(2) _ bn(1), of "p div BSIZE"] False by (auto simp: a_def)
    have "written off src p = None"
    proof (rule ccontr)
      assume "written off src p \<noteq> None"
      then have "off \<le> p" "p < off + length src" by (auto simp: written_def split: if_splits)
      then have "off mod BSIZE + (p - off) < BSIZE" "off + (p - off) = p" using src by linarith+
      then show False using same_block(1) [of off "p - off"] False by simp
    qed
    with ne show ?thesis by (auto simp: fbyte_def addr t(2))
  qed
  moreover have "icache t = (icache s)[ip := x\<lparr>i_addrs := i_addrs x\<rparr>]" using ic x(1,3) by (simp add: inode_at_def)
  then have "\<exists>as. icache t = (icache s)[ip := x\<lparr>i_addrs := as\<rparr>]" by blast
  moreover have "bview t c = bview s c" if "c < data_start (sblk s) \<or> used s c \<and> c < sb_size (sblk s) \<and> c \<notin> fblocks s x" for c
    using that ai ad(1) by (auto simp: t(2))
  ultimately have "fstep ip (written off src) s t"
    unfolding fstep_def xt x(1) [symmetric] addr fb using fs tx_frame_slk [OF t(3)] us by auto
  moreover have "nfree t = nfree s"
  proof -
    have "{c. c < sb_size (sblk t) \<and> \<not> used t c} = {c. c < sb_size (sblk s) \<and> \<not> used s c}" using us sb by auto
    then show ?thesis by (simp add: nfree_def)
  qed
  ultimately show thesis using that r t(1) xt addr ic by simp
qed

text \<open>
  The loop touches at most \<open>m\<close> blocks. Each may need a data block and the indirect block, and logs
  at most six blocks.
\<close>

lemma writei_loop_ok:
  fixes s :: "'z fsst_scheme"
  assumes "tx s {} (k + 6 * m)" "bitmap_ok s" "2 * m \<le> nfree s" "fmap_ok s (inode_at ip s)" "ip < length (icache s)" "i_dev (inode_at ip s) = 1"
    "off + n \<le> (off div BSIZE + m) * BSIZE" "off + n \<le> MAXFILE * BSIZE" "length src = n"
  shows "\<exists>t. writei_loop ip src off n s = Ret () t \<and> tx t {} k \<and> fstep ip (written off src) s t
    \<and> (\<forall>bn. 0 < n \<and> off div BSIZE \<le> bn \<and> bn * BSIZE < off + n \<longrightarrow> addr_of t (inode_at ip t) bn \<noteq> 0)
    \<and> ((\<forall>bn. off div BSIZE \<le> bn \<and> bn * BSIZE < off + n \<longrightarrow> addr_of s (inode_at ip s) bn \<noteq> 0) \<longrightarrow> icache t = icache s)"
  using assms
proof (induction m arbitrary: off n src s)
  case 0
  have "off div BSIZE * BSIZE \<le> off" by simp
  moreover have "off + n \<le> off div BSIZE * BSIZE" using 0(7) by simp
  ultimately have "n = 0" by linarith
  then show ?case using 0 fstep_refl [of s ip] by (intro exI [of _ s]) (simp add: writei_loop.simps)
next
  case (Suc m)
  note a = Suc.prems
  show ?case
  proof (cases "n = 0")
    case True
    have "tx s {} k" using tc.mono_law [OF a(1)] by simp
    then show ?thesis using True a fstep_refl [of s ip] by (intro exI [of _ s]) (simp add: writei_loop.simps)
  next
    case False
    have B: "BSIZE = 512" by (simp add: BSIZE_def)
    define m1 where "m1 = min n (BSIZE - off mod BSIZE)"
    have m1: "0 < m1" "m1 \<le> n" "off mod BSIZE + m1 \<le> BSIZE" using False mod_less_divisor [of 512 off] by (simp_all add: m1_def B)
    let ?bn = "off div BSIZE"
    have bn: "?bn < MAXFILE" using a(8) False by (simp add: B maxfile less_mult_imp_div_less)
    have "tx s {} (Suc (k + 6 * m) + 5)" using tc.mono_law [OF a(1)] by simp
    from bmap_ok [OF this a(2) _ refl a(4,5,6) bn] a(3)
    obtain t where t: "bmap ip ?bn s = Ret (addr_of t (inode_at ip t) ?bn) t" "tx t {} (Suc (k + 6 * m))" "fstep ip Map.empty s t"
      "addr_of t (inode_at ip t) ?bn \<noteq> 0" "nfree s \<le> nfree t + 2" "addr_of s (inode_at ip s) ?bn \<noteq> 0 \<longrightarrow> icache t = icache s" by auto
    note d = fstepD [OF t(3)]
    have len: "ip < length (icache t)" using fs_frame_icache [OF d(1)] a(5) by simp
    have dev: "i_dev (inode_at ip t) = 1" using d(4) a(5,6) by (auto simp: inode_at_def)
    have l1: "length (take m1 src) = m1" using a(9) m1(2) by simp
    obtain i s1 s2 s3 u where u: "bread 1 (addr_of t (inode_at ip t) ?bn) t = Ret i s1"
      "b_data (bufs s1 ! i) = bview t (addr_of t (inode_at ip t) ?bn)"
      "bset i (splice (bview t (addr_of t (inode_at ip t) ?bn)) (off mod BSIZE) (take m1 src)) s1 = Ret () s2"
      "log_write i s2 = Ret () s3" "brelse i s3 = Ret () u" "tx u {} (k + 6 * m)" "fstep ip (written off (take m1 src)) t u" "nfree u = nfree t"
      "\<And>bn. bn < MAXFILE \<Longrightarrow> addr_of u (inode_at ip u) bn = addr_of t (inode_at ip t) bn" "icache u = icache t"
      by (rule write_block_ok [OF t(2) d(3) refl d(5) len bn t(4), of "take m1 src"]) (use l1 m1(3) in simp_all)
    have su: "fstep ip (written off (take m1 src)) s u" using fstep_trans [OF t(3) u(7) a(5)] by simp
    note e = fstepD [OF su]
    have lenu: "ip < length (icache u)" using fs_frame_icache [OF e(1)] a(5) by simp
    have devu: "i_dev (inode_at ip u) = 1" using e(4) a(5,6) by (auto simp: inode_at_def)
    have run: "writei_loop ip src off n s = writei_loop ip (drop m1 src) (off + m1) (n - m1) u"
      using False t(1) u(1-5) a(6) by (subst writei_loop.simps) (simp add: buf_data_def m1_def)
    have first: "addr_of u (inode_at ip u) ?bn \<noteq> 0" using u(9) [OF bn] t(4) by simp
    have here: "?bn * BSIZE < off + n" using False div_mult_mod_eq [of off BSIZE] by linarith
    show ?thesis
    proof (cases "m1 = n")
      case True
      have "bn = ?bn" if "?bn \<le> bn" "bn * BSIZE < off + n" for bn
      proof -
        have "off + n \<le> Suc ?bn * BSIZE" using m1(3) True div_mult_mod_eq [of off BSIZE] unfolding mult_Suc by linarith
        with that(2) have "bn < Suc ?bn" by (metis linorder_not_less mult_le_mono1 order_less_le_trans order_less_irrefl)
        with that(1) show ?thesis by simp
      qed
      moreover have "tx u {} k" using tc.mono_law [OF u(6)] by simp
      moreover have "writei_loop ip src off n s = Ret () u" using run True by (simp add: writei_loop.simps)
      ultimately show ?thesis using su first True a(9) t(6) u(10) here by (intro exI [of _ u]) auto
    next
      case more: False
      then have full: "off mod BSIZE + m1 = BSIZE" by (simp add: m1_def min_def split: if_splits) (simp add: B)
      then have al: "off + m1 = Suc ?bn * BSIZE" using div_mult_mod_eq [of off BSIZE] unfolding mult_Suc by linarith
      then have q: "(off + m1) div BSIZE = Suc ?bn" by (simp add: B)
      have "\<exists>w. writei_loop ip (drop m1 src) (off + m1) (n - m1) u = Ret () w \<and> tx w {} k \<and> fstep ip (written (off + m1) (drop m1 src)) u w
        \<and> (\<forall>bn. 0 < n - m1 \<and> (off + m1) div BSIZE \<le> bn \<and> bn * BSIZE < off + m1 + (n - m1) \<longrightarrow> addr_of w (inode_at ip w) bn \<noteq> 0)
        \<and> ((\<forall>bn. (off + m1) div BSIZE \<le> bn \<and> bn * BSIZE < off + m1 + (n - m1) \<longrightarrow> addr_of u (inode_at ip u) bn \<noteq> 0) \<longrightarrow> icache w = icache u)"
        by (rule Suc.IH [OF u(6) e(3) _ e(5) lenu devu]) (use a(3,7-9) t(5) u(8) m1(2) q in simp_all)
      then obtain w where w: "writei_loop ip (drop m1 src) (off + m1) (n - m1) u = Ret () w" "tx w {} k" "fstep ip (written (off + m1) (drop m1 src)) u w"
        "\<And>bn. Suc ?bn \<le> bn \<Longrightarrow> bn * BSIZE < off + n \<Longrightarrow> addr_of w (inode_at ip w) bn \<noteq> 0"
        "(\<forall>bn. Suc ?bn \<le> bn \<and> bn * BSIZE < off + n \<longrightarrow> addr_of u (inode_at ip u) bn \<noteq> 0) \<longrightarrow> icache w = icache u"
        using more m1(2) q by auto
      have "fstep ip (written off src) s w"
        using fstep_trans [OF su w(3) a(5)] written_append [of off "take m1 src" "drop m1 src"] l1 by simp
      moreover have "addr_of w (inode_at ip w) bn \<noteq> 0" if "?bn \<le> bn" "bn * BSIZE < off + n" for bn
        using w(4) [of bn] that fstepD(6) [OF w(3) bn first] first by (cases "bn = ?bn") auto
      moreover have "icache w = icache s" if mp: "\<forall>bn. ?bn \<le> bn \<and> bn * BSIZE < off + n \<longrightarrow> addr_of s (inode_at ip s) bn \<noteq> 0"
      proof -
        have "addr_of u (inode_at ip u) bn \<noteq> 0" if "Suc ?bn \<le> bn" "bn * BSIZE < off + n" for bn
        proof -
          have nz: "addr_of s (inode_at ip s) bn \<noteq> 0" using mp that by simp
          have "bn < MAXFILE" using that(2) a(8) by (simp add: B maxfile)
          then show ?thesis using e(6) [OF _ nz] nz by simp
        qed
        then show ?thesis using w(5) t(6) u(10) mp here by simp
      qed
      ultimately show ?thesis using run w(1,2) by (intro exI [of _ w]) auto
    qed
  qed
qed

end
