(* ===== verification/FsWrite.thy ===== *)
theory FsWrite
  imports FsData
begin

text \<open>
  \<^verbatim>\<open>writei\<close> as a whole: the content of the file, the size, the inode on disk, and what every other file sees.
\<close>

text \<open>A change of inode blocks only keeps the bitmap and all file content.\<close>

lemma inode_change_keeps:
  fixes s :: "'z fsst_scheme"
  assumes lay: "layout_ok s" and inum: "inum < sb_ninodes (sblk s)" and fr: "fs_frame s t"
    and v: "\<And>c. c \<noteq> IBLOCK inum (sblk s) \<Longrightarrow> bview t c = bview s c" and x: "fmap_ok s x"
  shows "c < sb_size (sblk s) \<Longrightarrow> used t c = used s c" "bitmap_ok t = bitmap_ok s" "addr_of t x = addr_of s x" "fblocks t x = fblocks s x"
    "fmap_ok t x" "p < MAXFILE * BSIZE \<Longrightarrow> fbyte t x p = fbyte s x p"
proof -
  note ib = inode_block [OF lay inum]
  have sb: "sblk t = sblk s" by (rule fs_frame_rest(6) [OF fr])
  have data: "bview t c = bview s c" if "data_start (sblk s) \<le> c" for c using that ib(3) v by simp
  show us: "used t c = used s c" if "c < sb_size (sblk s)" for c
  proof -
    have "BBLOCK c (sblk s) \<noteq> IBLOCK inum (sblk s)" using ib(4) that by (auto simp: other_block_def)
    then show ?thesis by (simp add: used_def sb v)
  qed
  show "bitmap_ok t = bitmap_ok s"
    using us lay fs_frame_rest(11) [OF fr] by (auto simp: bitmap_ok_def sb layout_ok_def)
  have "bview t (i_addrs x ! NDIRECT) = bview s (i_addrs x ! NDIRECT)" if "i_addrs x ! NDIRECT \<noteq> 0"
    using fmap_okD(2) [OF x ind_in [OF that]] by (rule data)
  then show ad: "addr_of t x = addr_of s x" by (auto simp: addr_of_def fun_eq_iff)
  show fb: "fblocks t x = fblocks s x" by (simp add: fblocks_def ad)
  show "fmap_ok t x" using x us by (simp add: fmap_ok_def ad fb sb)
  show "fbyte t x p = fbyte s x p" if "p < MAXFILE * BSIZE"
  proof (cases "addr_of s x (p div BSIZE) = 0")
    case False
    have "p div BSIZE < MAXFILE" using that by (simp add: less_mult_imp_div_less)
    from fmap_okD(2) [OF x addr_in [OF this False]] show ?thesis by (simp add: fbyte_def ad data)
  qed (simp add: fbyte_def ad)
qed

text \<open>The size of an inode plays no part in the block map.\<close>

lemma size_irrelevant [simp]:
  "addr_of s (x\<lparr>i_size := z\<rparr>) = addr_of s x" "fblocks s (x\<lparr>i_size := z\<rparr>) = fblocks s x"
  "fmap_ok s (x\<lparr>i_size := z\<rparr>) = fmap_ok s x" "fbyte s (x\<lparr>i_size := z\<rparr>) = fbyte s x"
  by (simp_all add: addr_of_def fblocks_def fmap_ok_def fbyte_def fun_eq_iff)

lemma icache_irrelevant [simp]:
  "addr_of (s\<lparr>icache := ic\<rparr>) = addr_of s" "fblocks (s\<lparr>icache := ic\<rparr>) = fblocks s" "fmap_ok (s\<lparr>icache := ic\<rparr>) = fmap_ok s"
  "fbyte (s\<lparr>icache := ic\<rparr>) = fbyte s" "nfree (s\<lparr>icache := ic\<rparr>) = nfree s"
  by (simp_all add: addr_of_def fblocks_def fmap_ok_def fbyte_def nfree_def fun_eq_iff)

text \<open>The addresses of a well-formed file fit the disk inode.\<close>

lemma fmap_addrs_small:
  assumes "fmap_ok s x" "layout_ok s" "a \<in> set (i_addrs x)"
  shows "a < 4294967296"
proof -
  obtain k where k: "k < 8" "a = i_addrs x ! k" using assms(3) fmap_okD(1) [OF assms(1)] by (auto simp: in_set_conv_nth)
  show ?thesis
  proof (cases "a = 0")
    case False
    have "a \<in> fblocks s x"
    proof (cases "k = NDIRECT")
      case True
      then show ?thesis using ind_in [of x s] k False by simp
    next
      case ne: False
      then have "addr_of s x k = a" "k < MAXFILE" using k by (simp_all add: addr_of_def maxfile)
      then show ?thesis using addr_in [of k s x] False by simp
    qed
    then show ?thesis using fmap_okD(3) [OF assms(1)] assms(2) by (fastforce simp: layout_ok_def)
  qed simp
qed

text \<open>A write of \<open>src\<close> at \<open>off\<close> into a list of bytes, which it may extend.\<close>

definition overwrite :: "byte list \<Rightarrow> nat \<Rightarrow> byte list \<Rightarrow> byte list" where
  "overwrite c off src = take off c @ src @ drop (off + length src) c"

lemma fcontent_overwrite:
  assumes "\<And>p. p < MAXFILE * BSIZE \<Longrightarrow> fbyte t y p = (case written off src p of Some b \<Rightarrow> b | None \<Rightarrow> fbyte s x p)"
    and sz: "off \<le> unat (i_size x)" "unat (i_size y) = max (unat (i_size x)) (off + length src)" "unat (i_size y) \<le> MAXFILE * BSIZE"
  shows "fcontent t y = overwrite (fcontent s x) off src"
proof (rule nth_equalityI)
  show "length (fcontent t y) = length (overwrite (fcontent s x) off src)"
    using sz by (auto simp: fcontent_def overwrite_def)
  fix p assume p: "p < length (fcontent t y)"
  then have "fcontent t y ! p = (case written off src p of Some b \<Rightarrow> b | None \<Rightarrow> fbyte s x p)"
    using assms(1) sz(3) by (simp add: fcontent_def)
  also have "\<dots> = overwrite (fcontent s x) off src ! p"
    using p sz by (auto simp: overwrite_def fcontent_def written_def nth_append)
  finally show "fcontent t y ! p = overwrite (fcontent s x) off src ! p" .
qed

definition write_budget :: "nat \<Rightarrow> nat \<Rightarrow> nat" where
  "write_budget off n = (off mod BSIZE + n + BSIZE - 1) div BSIZE"

lemma write_budget_covers: "off + n \<le> (off div BSIZE + write_budget off n) * BSIZE"
proof -
  have pos: "0 < BSIZE" by (simp add: BSIZE_def)
  have "off mod BSIZE + n + BSIZE - 1 = write_budget off n * BSIZE + (off mod BSIZE + n + BSIZE - 1) mod BSIZE"
    unfolding write_budget_def by simp
  moreover have "(off mod BSIZE + n + BSIZE - 1) mod BSIZE \<le> BSIZE - 1" using pos by (simp add: Suc_leI less_Suc_eq_le [symmetric])
  ultimately have "off mod BSIZE + n \<le> write_budget off n * BSIZE" using pos by linarith
  then show ?thesis unfolding add_mult_distrib using div_mult_mod_eq [of off BSIZE] by linarith
qed

text \<open>What the rest of the file system sees of a write to inode \<open>inum\<close> with blocks \<open>F\<close>: nothing.\<close>

definition others_kept :: "'z fsst_scheme \<Rightarrow> 'z fsst_scheme \<Rightarrow> nat \<Rightarrow> nat set \<Rightarrow> bool" where
  "others_kept s t inum F \<longleftrightarrow> (\<forall>c. data_start (sblk s) \<le> c \<and> c < sb_size (sblk s) \<and> used s c \<and> c \<notin> F \<longrightarrow> bview t c = bview s c \<and> used t c)
     \<and> (\<forall>j < sb_ninodes (sblk s). j \<noteq> inum \<longrightarrow> dinode_of t j = dinode_of s j)"

lemma writei_ok:
  fixes s :: "'z fsst_scheme" and off n :: u32
  assumes tx: "tx s {} (Suc k + 6 * write_budget (unat off) (unat n))" and ok: "bitmap_ok s" "2 * write_budget (unat off) (unat n) \<le> nfree s"
    and x: "x = inode_at ip s" "file_ok s x" "ip < length (icache s)" "i_dev x = 1" "i_inum x < sb_ninodes (sblk s)" "dinode_ok (disk_form x)"
      "i_type x \<noteq> T_DEV"
    and rng: "unat off \<le> unat (i_size x)" "unat off + unat n \<le> MAXFILE * BSIZE" "length src = unat n"
  shows "\<exists>t y. writei dv ip src off n s = Ret (int (unat n)) t \<and> tx t {} k \<and> y = inode_at ip t \<and> fs_frame s t \<and> bitmap_ok t \<and> file_ok t y
    \<and> (\<forall>j. slk t (SL_inode j) = slk s (SL_inode j))
    \<and> icache t = (icache s)[ip := y] \<and> y = x\<lparr>i_addrs := i_addrs y, i_size := i_size y\<rparr>
    \<and> unat (i_size y) = max (unat (i_size x)) (unat off + unat n) \<and> fcontent t y = overwrite (fcontent s x) (unat off) src
    \<and> others_kept s t (i_inum x) (fblocks s x) \<and> (dinode_of s (i_inum x) = disk_form x \<longrightarrow> dinode_of t (i_inum x) = disk_form y)"
proof -
  have lay: "layout_ok s" using ok(1) by (simp add: bitmap_ok_def)
  have fm: "fmap_ok s x" "unat (i_size x) \<le> MAXFILE * BSIZE" "\<And>bn. bn * BSIZE < unat (i_size x) \<Longrightarrow> addr_of s x bn \<noteq> 0"
    using x(2) by (simp_all add: file_ok_def)
  have big: "MAXFILE * BSIZE = 69120" by (simp add: maxfile BSIZE_def)
  have nw: "unat (off + n) = unat off + unat n" using rng(2) unfolding big by (intro unat_add_lem [THEN iffD1]) simp
  have nowrap: "\<not> off + n < off" "\<not> off > i_size x" "\<not> off + n > of_nat (MAXFILE * BSIZE)" "sint n = int (unat n)"
    using nw rng sint_small [of n] unfolding big by (simp_all add: word_less_nat_alt)
  obtain u where u: "writei_loop ip src (unat off) (unat n) s = Ret () u" "tx u {} (Suc k)" "fstep ip (written (unat off) src) s u"
    "\<forall>bn. 0 < unat n \<and> unat off div BSIZE \<le> bn \<and> bn * BSIZE < unat off + unat n \<longrightarrow> addr_of u (inode_at ip u) bn \<noteq> 0"
    "(\<forall>bn. unat off div BSIZE \<le> bn \<and> bn * BSIZE < unat off + unat n \<longrightarrow> addr_of s x bn \<noteq> 0) \<longrightarrow> icache u = icache s"
    using writei_loop_ok [OF tx ok(1,2), where ip = ip and src = src and off = "unat off" and n = "unat n"] fm(1) x(1,3,4) rng(2,3) write_budget_covers by auto
  note d = fstepD [OF u(3)]
  define z where "z = inode_at ip u"
  have sbu: "sblk u = sblk s" by (rule fs_frame_rest(6) [OF d(1)])
  obtain as where as: "icache u = (icache s)[ip := x\<lparr>i_addrs := as\<rparr>]" using d(4) x(1) by auto
  then have z: "z = x\<lparr>i_addrs := as\<rparr>" "icache u = (icache s)[ip := z]" using x(3) by (simp_all add: z_def inode_at_def)
  have fz: "fmap_ok u z" using d(5) by (simp add: z_def)
  have bytes: "fbyte u z p = (case written (unat off) src p of Some b \<Rightarrow> b | None \<Rightarrow> fbyte s x p)" if "p < MAXFILE * BSIZE" for p
    using d(7) [OF that] unfolding z_def x(1) [symmetric] .
  have mapped: "addr_of u z bn \<noteq> 0" if b: "bn * BSIZE < max (unat (i_size x)) (unat off + unat n)" for bn
  proof (cases "bn * BSIZE < unat (i_size x)")
    case True
    have "bn < MAXFILE" using True fm(2) unfolding big by (simp add: maxfile BSIZE_def)
    then show ?thesis using d(6) [of bn] fm(3) [OF True] x(1) by (simp add: z_def)
  next
    case False
    then have l: "bn * BSIZE < unat off + unat n" "unat off \<le> bn * BSIZE" using b rng(1) by auto
    then have "unat off div BSIZE \<le> bn" "0 < unat n" by (simp_all add: BSIZE_def)
    then show ?thesis using u(4) l(1) by (simp add: z_def)
  qed
  have kept: "bview u c = bview s c" "used u c" if "data_start (sblk s) \<le> c" "c < sb_size (sblk s)" "used s c" "c \<notin> fblocks s x" for c
    using d(8,9) [of c] that data_other [OF lay that(1)] x(1) by auto
  have dj: "dinode_of u j = dinode_of s j" if "j < sb_ninodes (sblk s)" for j
    using d(8) [OF inode_block(4) [OF lay that]] inode_block(3) [OF lay that] by (simp add: dinode_of_def sbu)
  let ?grow = "0 < n \<and> off + n > i_size x"
  have run: "writei dv ip src off n s = (seqK (bindK (gets (\<lambda>s. i_size (inode_at ip s))) (\<lambda>sz.
         if n > 0 \<and> off + n > sz then seqK (upd_inode ip (\<lambda>x. x\<lparr>i_size := off + n\<rparr>)) (iupdate ip) else ret ())) (ret (sint n))) u"
    using nowrap(1-3) x(1,7) u(1) by (simp add: writei_def)
  have szu: "i_size (inode_at ip u) = i_size x" using z(1) by (simp add: z_def [symmetric])
  show ?thesis
  proof (cases ?grow)
    case False
    then have sz: "unat off + unat n \<le> unat (i_size x)" using nw rng(1) by (auto simp: word_less_nat_alt)
    then have "icache u = icache s"
      using u(5) fm(3) by (meson order_less_le_trans)
    then have same: "z = x" using x(1) by (simp add: z_def inode_at_def)
    have "writei dv ip src off n s = Ret (int (unat n)) u"
    proof -
      have "\<not> (0 < n \<and> i_size (inode_at ip u) < off + n)" unfolding szu using False .
      then have "(if n > 0 \<and> off + n > i_size (inode_at ip u) then seqK (upd_inode ip (\<lambda>x. x\<lparr>i_size := off + n\<rparr>)) (iupdate ip) else ret ()) u = Ret () u"
        by (simp only: if_False ret_eq)
      then show ?thesis unfolding run using nowrap(4) by (simp only: seqK_def bindK_def gets_eq out.case ret_eq)
    qed
    moreover have "file_ok u z" using fz fm(2) mapped sz by (simp add: file_ok_def same max_absorb1)
    moreover have "fcontent u z = overwrite (fcontent s x) (unat off) src"
      by (rule fcontent_overwrite [OF bytes rng(1)]) (use sz fm(2) rng(3) same in \<open>simp_all add: max_absorb1\<close>)
    moreover have "others_kept s u (i_inum x) (fblocks s x)" using kept dj by (simp add: others_kept_def)
    moreover have "tx u {} k" using tc.mono_law [OF u(2)] by simp
    ultimately show ?thesis
      using d(1,2,3) z(2) dj [OF x(5)] same sz by (intro exI [of _ u] exI [of _ z]) (simp add: z_def [symmetric] max_absorb1)
  next
    case grow: True
    define y where "y = z\<lparr>i_size := off + n\<rparr>"
    define v where "v = u\<lparr>icache := upd_at ip (\<lambda>x. x\<lparr>i_size := off + n\<rparr>) (icache u)\<rparr>"
    have lenu: "ip < length (icache u)" using fs_frame_icache [OF d(1)] x(3) by simp
    have icv: "icache v = (icache s)[ip := y]" using lenu x(3) by (simp add: v_def upd_at_def z(2) y_def)
    have yv: "inode_at ip v = y" using icv x(3) by (simp add: inode_at_def)
    have layv: "layout_ok v" "sblk v = sblk s" using lay fs_frame_rest(11) [OF d(1)] sbu by (simp_all add: v_def)
    have "\<forall>a \<in> set as. a < 4294967296"
      using fmap_addrs_small [OF fz] lay fs_frame_rest(11) [OF d(1)] by (auto simp: z(1))
    moreover have "length as = 8" using fmap_okD(1) [OF fz] by (simp add: z(1))
    ultimately have dok: "dinode_ok (disk_form y)"
      using x(6) by (simp add: dinode_ok_def disk_form_def y_def z(1) maxfile)
    have fields: "i_dev y = 1" "i_inum y = i_inum x" using x(4) by (simp_all add: y_def z(1))
    have txv: "tx v {} (Suc k)" using u(2) by (simp add: v_def)
    obtain t where t: "iupdate ip v = Ret () t" "tx t {} k" "tx_frame v t" "dinode_of t (i_inum x) = disk_form y"
      "\<forall>j. j \<noteq> i_inum x \<longrightarrow> dinode_of t j = dinode_of v j" "\<forall>c. c \<noteq> IBLOCK (i_inum x) (sblk s) \<longrightarrow> bview t c = bview v c"
      using iupdate_ok [OF txv _ layv(1), of ip] dok fields x(5) layv(2) by (auto simp: yv)
    have ict: "icache t = (icache s)[ip := y]" using tx_frame_fs(2) [OF t(3)] icv by simp
    have yt: "inode_at ip t = y" using ict x(3) by (simp add: inode_at_def)
    have frv: "fs_frame s v" using d(1) fs_frame_trans [of s u v] by (simp add: v_def fs_frame_def)
    have frt: "fs_frame s t" using fs_frame_trans [OF frv tx_to_fs_frame [OF t(3)]] .
    have fv: "fmap_ok v y" using fz by (simp add: v_def y_def)
    note ick = inode_change_keeps [OF layv(1) _ tx_to_fs_frame [OF t(3)] _ fv, of "i_inum x", unfolded layv(2), OF x(5)]
    have vt: "\<And>c. c \<noteq> IBLOCK (i_inum x) (sblk s) \<Longrightarrow> bview t c = bview v c" using t(6) by blast
    have used': "used t c" if "c < sb_size (sblk s)" "used u c" for c using ick(1) [OF vt that(1)] that(2) by (simp add: v_def)
    have bt: "bitmap_ok t" using ick(2) [OF vt] d(3) by (simp add: v_def)
    have bytest: "fbyte t y p = (case written (unat off) src p of Some b \<Rightarrow> b | None \<Rightarrow> fbyte s x p)" if "p < MAXFILE * BSIZE" for p
      using ick(6) [OF vt that] bytes [OF that] by (simp add: v_def y_def)
    have szy: "unat (i_size y) = unat off + unat n" "unat (i_size x) < unat off + unat n"
      using grow nw by (simp_all add: y_def word_less_nat_alt)
    have "file_ok t y"
      using ick(5) [OF vt] mapped szy rng(2) ick(3) [OF vt] by (simp add: file_ok_def v_def y_def max_absorb2)
    moreover have "fcontent t y = overwrite (fcontent s x) (unat off) src"
      by (rule fcontent_overwrite [OF bytest rng(1)]) (use szy rng(2,3) in \<open>simp_all add: max_absorb2\<close>)
    moreover have "others_kept s t (i_inum x) (fblocks s x)"
    proof -
      have "bview t c = bview s c \<and> used t c" if "data_start (sblk s) \<le> c" "c < sb_size (sblk s)" "used s c" "c \<notin> fblocks s x" for c
        using kept [OF that] used' [OF that(2)] vt [of c] inode_block(3) [OF lay x(5)] that(1) by (simp add: v_def)
      moreover have "dinode_of t j = dinode_of s j" if "j < sb_ninodes (sblk s)" "j \<noteq> i_inum x" for j
        using t(5) that dj by (simp add: v_def)
      ultimately show ?thesis by (simp add: others_kept_def)
    qed
    moreover have "writei dv ip src off n s = Ret (int (unat n)) t"
      unfolding run using szu grow nowrap(4) t(1) by (simp add: upd_inode_def v_def)
    moreover have "slk t (SL_inode j) = slk s (SL_inode j)" for j using tx_frame_slk [OF t(3)] d(2) by (simp add: v_def)
    moreover have "y = x\<lparr>i_addrs := i_addrs y, i_size := i_size y\<rparr>" by (simp add: y_def z(1))
    ultimately show ?thesis
      using t(2,4) frt bt ict yt szy by (intro exI [of _ t] exI [of _ y]) (simp add: max_absorb2)
  qed
qed

lemma overwrite_read: "off \<le> length c \<Longrightarrow> take (length src) (drop off (overwrite c off src)) = src"
  by (simp add: overwrite_def)

text \<open>
  C25. What is written to a file is read back. \<^verbatim>\<open>writei\<close> of \<open>n\<close> bytes at an offset within or just past the file
  returns \<open>n\<close>, replaces exactly those bytes of the content and extends the size if need be, through direct and
  indirect blocks and allocating blocks as it goes; the inode on disk stays in step, no block and no inode of
  any other file changes, and \<^verbatim>\<open>readi\<close> at the same place then returns the bytes written. A write past the
  maximal file size is refused and changes nothing.
\<close>

theorem writei_readi_roundtrip:
  fixes s :: "'z fsst_scheme" and off n :: u32 and dv :: "('z fsst_scheme) devsw"
  assumes "x = inode_at ip s" "tx s {} (Suc k + 6 * write_budget (unat off) (unat n))" "bitmap_ok s" "2 * write_budget (unat off) (unat n) \<le> nfree s"
    "file_ok s x" "ip < length (icache s)" "i_dev x = 1" "i_inum x < sb_ninodes (sblk s)" "dinode_ok (disk_form x)" "i_type x \<noteq> T_DEV"
    "unat off \<le> unat (i_size x)" "length src = unat n"
  shows "if unat off + unat n \<le> MAXFILE * BSIZE
    then \<exists>t u. writei dv ip src off n s = Ret (int (unat n)) t \<and> file_ok t (inode_at ip t)
      \<and> fcontent t (inode_at ip t) = overwrite (fcontent s x) (unat off) src
      \<and> others_kept s t (i_inum x) (fblocks s x) \<and> (dinode_of s (i_inum x) = disk_form x \<longrightarrow> dinode_of t (i_inum x) = disk_form (inode_at ip t))
      \<and> readi dv ip off n t = Ret (int (unat n), src) u \<and> bview u = bview t
    else writei dv ip src off n s = Ret (-1) s"
proof (cases "unat off + unat n \<le> MAXFILE * BSIZE")
  case True
  obtain t y where t: "writei dv ip src off n s = Ret (int (unat n)) t" "tx t {} k" "y = inode_at ip t" "fs_frame s t" "bitmap_ok t" "file_ok t y"
    "y = x\<lparr>i_addrs := i_addrs y, i_size := i_size y\<rparr>" "unat (i_size y) = max (unat (i_size x)) (unat off + unat n)"
    "fcontent t y = overwrite (fcontent s x) (unat off) src" "others_kept s t (i_inum x) (fblocks s x)"
    "dinode_of s (i_inum x) = disk_form x \<longrightarrow> dinode_of t (i_inum x) = disk_form y"
    using writei_ok [OF assms(2-4,1) assms(5-11) True assms(12), of dv] by blast
  have big: "MAXFILE * BSIZE = 69120" by (simp add: maxfile BSIZE_def)
  have nw: "\<not> off + n < off"
    using True unfolding big by (simp add: not_less no_olen_add_nat)
  have "i_dev y = i_dev x" "i_type y = i_type x" by (subst t(7), simp)+
  then have "i_dev y = 1" "i_type y \<noteq> T_DEV" using assms(7,10) by simp_all
  note yf = this
  have lay: "layout_ok t" "unat off \<le> unat (i_size y)" using t(5,8) by (simp_all add: bitmap_ok_def)
  obtain u where u: "readi dv ip off n t = Ret (int (min (unat n) (unat (i_size y) - unat off)),
      take (unat n) (drop (unat off) (fcontent t y))) u" "bview u = bview t"
    using readi_ok [where s = t and ip = ip, folded t(3), OF t(2) lay(1) yf(1) t(6) yf(2) lay(2) nw] by blast
  have "take (unat n) (drop (unat off) (fcontent t y)) = src"
    unfolding t(9) using overwrite_read [of "unat off" "fcontent s x" src] assms(11,12) by (simp add: fcontent_def)
  moreover have "min (unat n) (unat (i_size y) - unat off) = unat n" using t(8) by simp
  ultimately show ?thesis using True t u by auto
next
  case False
  have big: "MAXFILE * BSIZE = 69120" by (simp add: maxfile BSIZE_def)
  have le: "\<not> off > i_size x" using assms(11) by (simp add: word_less_nat_alt)
  have "writei dv ip src off n s = Ret (-1) s"
  proof (cases "off + n < off")
    case nw: False
    then have "off + n > of_nat (MAXFILE * BSIZE)" using False unat_no_wrap [OF nw] unfolding big by (simp add: word_less_nat_alt)
    then show ?thesis using le assms(10) by (simp add: writei_def flip: assms(1))
  qed (use assms(10) in \<open>simp add: writei_def flip: assms(1)\<close>)
  with False show ?thesis by (simp only: if_False)
qed

text \<open>Three bytes appended to a file of 100 zeros.\<close>

definition demo_file :: inode where
  "demo_file = demo_inode\<lparr>i_addrs := [59, 0, 0, 0, 0, 0, 0, 0]\<rparr>"

definition file_disk :: "nat \<Rightarrow> byte list" where
  "file_disk = demo_disk(58 := mark_used demo_bitmap 59)"

lemma file_disk_used: "b < 3000 \<Longrightarrow> used (demo_fs file_disk ic) b \<longleftrightarrow> b < 60"
proof -
  assume b: "b < 3000"
  have "bit_used (mark_used demo_bitmap 59) b \<longleftrightarrow> b = 59 \<or> b < 59"
    using bit_mark_used [of 59 demo_bitmap b] demo_bitmap_used [of b] b by (auto simp: demo_bitmap_def)
  then show ?thesis using b by (auto simp: used_def demo_sb BBLOCK_def BPB_def BSIZE_def file_disk_def)
qed

lemma file_disk_ok:
  shows "bitmap_ok (demo_fs file_disk ic)" "2 \<le> nfree (demo_fs file_disk ic)" "file_ok (demo_fs file_disk ic) demo_file"
    "tx (demo_fs file_disk ic) {} 28"
proof -
  let ?s = "demo_fs file_disk ic"
  show "bitmap_ok ?s"
    by (simp add: bitmap_ok_def layout_ok_def data_start_def demo_sb IPB_def BPB_def BSIZE_def file_disk_used)
  have "{60, 61} \<subseteq> {b. b < sb_size (sblk ?s) \<and> \<not> used ?s b}" by (auto simp: demo_sb file_disk_used)
  then have "card {60, 61 :: nat} \<le> nfree ?s" unfolding nfree_def by (intro card_mono) auto
  then show "2 \<le> nfree ?s" by simp
  have ad: "addr_of ?s demo_file bn = (if bn = 0 then 59 else 0)" if "bn < MAXFILE" for bn
    using that by (auto simp: addr_of_def demo_file_def demo_inode_def maxfile nth_Cons' word_at_zeros)
  have flds: "i_addrs demo_file = [59, 0, 0, 0, 0, 0, 0, 0]" "i_size demo_file = 100" by (simp_all add: demo_file_def demo_inode_def)
  have fb: "fblocks ?s demo_file = {59}"
  proof -
    have "a = 59" if "bn < MAXFILE" "a = addr_of ?s demo_file bn" "a \<noteq> 0" for a bn
      using ad [OF that(1)] that(2,3) by (simp split: if_splits)
    then have "fblocks ?s demo_file \<subseteq> {59}" by (auto simp: fblocks_def flds maxfile)
    moreover have "59 \<in> fblocks ?s demo_file" using addr_in [of 0 ?s demo_file] ad [of 0] by (simp add: maxfile)
    ultimately show ?thesis by blast
  qed
  have "fmap_ok ?s demo_file"
    unfolding fmap_ok_def fb
  proof (intro conjI allI impI ballI)
    fix bn bm assume "bn < MAXFILE" "bm < MAXFILE" "addr_of ?s demo_file bn = addr_of ?s demo_file bm \<and> addr_of ?s demo_file bn \<noteq> 0"
    then show "bn = bm" using ad [of bn] ad [of bm] by (simp split: if_splits)
  qed (simp_all add: flds maxfile demo_sb data_start_def BPB_def IPB_def BSIZE_def file_disk_used)
  moreover have "addr_of ?s demo_file bn \<noteq> 0" if "bn * BSIZE < 100" for bn
    using ad [of bn] that by (simp add: maxfile BSIZE_def)
  ultimately show "file_ok ?s demo_file"
    by (simp add: file_ok_def maxfile BSIZE_def flds)
  show "tx ?s {} 28" by (rule demo_fs_tx) (simp add: file_disk_def demo_disk_def demo_bitmap_def)
qed

theorem writei_readi_roundtrip_witness:
  "\<exists>t u. writei \<lparr>dev_read = (\<lambda>_. None), dev_write = (\<lambda>_. None)\<rparr> 0 [1, 2, 3] 100 3 (demo_fs file_disk [demo_file]) = Ret 3 t
     \<and> length (fcontent t (inode_at 0 t)) = 103
     \<and> readi \<lparr>dev_read = (\<lambda>_. None), dev_write = (\<lambda>_. None)\<rparr> 0 100 3 t = Ret (3, [1, 2, 3]) u"
proof -
  let ?s = "demo_fs file_disk [demo_file]" and ?dv = "\<lparr>dev_read = (\<lambda>_. None), dev_write = (\<lambda>_. None)\<rparr> :: fsst devsw"
  have f: "demo_file = inode_at 0 ?s" by (simp add: inode_at_def)
  have b: "write_budget (unat (100 :: u32)) (unat (3 :: u32)) = 1" by (simp add: write_budget_def BSIZE_def)
  have tx: "tx ?s {} (Suc 21 + 6 * write_budget (unat (100 :: u32)) (unat (3 :: u32)))" unfolding b using file_disk_ok(4) by simp
  have fr: "2 * write_budget (unat (100 :: u32)) (unat (3 :: u32)) \<le> nfree ?s" unfolding b using file_disk_ok(2) by simp
  have flds: "0 < length (icache ?s)" "i_dev demo_file = 1" "i_inum demo_file < sb_ninodes (sblk ?s)" "i_type demo_file \<noteq> T_DEV" "i_size demo_file = 100"
    by (simp_all add: demo_file_def demo_inode_def demo_sb T_FILE_def T_DEV_def)
  have dok: "dinode_ok (disk_form demo_file)" using demo_inode_ok by (simp add: dinode_ok_def disk_form_def demo_file_def maxfile)
  have len: "length [1, 2, 3 :: byte] = unat (3 :: u32)" "unat (100 :: u32) \<le> unat (i_size demo_file)" using flds(5) by simp_all
  have big: "unat (100 :: u32) + unat (3 :: u32) \<le> MAXFILE * BSIZE" by (simp add: maxfile BSIZE_def)
  from writei_readi_roundtrip [OF f tx file_disk_ok(1) fr file_disk_ok(3) flds(1-3) dok flds(4) len(2,1), of ?dv, unfolded if_P [OF big]]
  obtain t u where "writei ?dv 0 [1, 2, 3] 100 3 ?s = Ret (int (unat (3 :: u32))) t"
    "fcontent t (inode_at 0 t) = overwrite (fcontent ?s demo_file) (unat (100 :: u32)) [1, 2, 3]"
    "readi ?dv 0 100 3 t = Ret (int (unat (3 :: u32)), [1, 2, 3]) u" by blast
  then show ?thesis using flds(5) by (intro exI [of _ t] exI [of _ u]) (simp add: overwrite_def fcontent_def)
qed

end
