(* ===== verification/Kbd.thy ===== *)
theory Kbd
  imports CBytes
begin

text \<open>
  kbd.c with the tables of kbd.h. The static variable \<^verbatim>\<open>shift\<close> is an argument and part of the
  result. The byte the keyboard controller holds is an option: \<open>None\<close> when its status port shows
  no data.
\<close>

unbundle bit_operations_syntax

section \<open>Constants and tables (kbd.h)\<close>

definition SHIFT :: u32 where "SHIFT = 1"
definition CTL :: u32 where "CTL = 2"
definition ALT :: u32 where "ALT = 4"
definition CAPSLOCK :: u32 where "CAPSLOCK = 8"
definition NUMLOCK :: u32 where "NUMLOCK = 16"
definition SCROLLLOCK :: u32 where "SCROLLLOCK = 32"
definition E0ESC :: u32 where "E0ESC = 64"

lemmas kbd_bits = SHIFT_def CTL_def ALT_def CAPSLOCK_def NUMLOCK_def SCROLLLOCK_def E0ESC_def

text \<open>An array of 256 bytes given by its first elements and by designated ones.\<close>

definition table :: "byte list \<Rightarrow> (nat \<times> byte) list \<Rightarrow> nat \<Rightarrow> byte" where
  "table xs ds i = (case map_of ds i of Some v \<Rightarrow> v | None \<Rightarrow> if i < length xs then xs ! i else 0)"

definition shiftcode :: "nat \<Rightarrow> u32" where
  "shiftcode i = (if i = 0x1D \<or> i = 0x9D then CTL else if i = 0x2A \<or> i = 0x36 then SHIFT
     else if i = 0x38 \<or> i = 0xB8 then ALT else 0)"

definition togglecode :: "nat \<Rightarrow> u32" where
  "togglecode i = (if i = 0x3A then CAPSLOCK else if i = 0x45 then NUMLOCK else if i = 0x46 then SCROLLLOCK else 0)"

text \<open>The keys of the extended set that the three maps share.\<close>

definition extended_keys :: "(nat \<times> byte) list" where
  "extended_keys = [(0xC8, 0xE2), (0xD0, 0xE3), (0xC9, 0xE6), (0xD1, 0xE7), (0xCB, 0xE4), (0xCD, 0xE5),
     (0x97, 0xE0), (0xCF, 0xE1), (0xD2, 0xE8), (0xD3, 0xE9)]"

definition keypad :: "byte list" where
  "keypad = [0, 32] @ replicate 13 0 @ lit ''789-456+1230.'' @ replicate 4 0"

definition normalmap :: "nat \<Rightarrow> byte" where
  "normalmap = table
     ([0, 0x1B] @ lit ''1234567890-='' @ [8, 9] @ lit ''qwertyuiop[]'' @ [10, 0] @ lit ''asdfghjkl;'' @ [39, 96, 0, 92]
       @ lit ''zxcvbnm,./'' @ [0] @ lit ''*'' @ keypad)
     ([(0x9C, 10), (0xB5, 47)] @ extended_keys)"

definition shiftmap :: "nat \<Rightarrow> byte" where
  "shiftmap = table
     ([0, 0x1B] @ lit ''!@#$%^&*()_+'' @ [8, 9] @ lit ''QWERTYUIOP{}'' @ [10, 0] @ lit ''ASDFGHJKL:'' @ [34, 126, 0, 124]
       @ lit ''ZXCVBNM<>?'' @ [0] @ lit ''*'' @ keypad)
     ([(0x9C, 10), (0xB5, 47)] @ extended_keys)"

text \<open>\<^verbatim>\<open>C(x)\<close> on the characters of a string.\<close>

definition ctl_of :: "string \<Rightarrow> byte list" where
  "ctl_of s = map (\<lambda>c. c - 64) (lit s)"

definition ctlmap :: "nat \<Rightarrow> byte" where
  "ctlmap = table
     (replicate 16 0 @ ctl_of ''QWERTYUIOP'' @ [0, 0, 13, 0] @ ctl_of ''ASDFGHJKL'' @ [0, 0, 0, 0, 28]
       @ ctl_of ''ZXCVBNM'' @ [0, 0] @ ctl_of ''/'' @ [0, 0])
     ([(0x9C, 13), (0xB5, 47 - 64)] @ extended_keys)"

section \<open>kbdgetc\<close>

definition charcode :: "u32 \<Rightarrow> nat \<Rightarrow> byte" where
  "charcode m = (if m = 0 then normalmap else if m = 1 then shiftmap else ctlmap)"

definition caps :: "u32 \<Rightarrow> byte \<Rightarrow> byte" where
  "caps shift c =
     (if shift AND CAPSLOCK \<noteq> 0 then
        if 97 \<le> c \<and> c \<le> 122 then c - 32
        else if 65 \<le> c \<and> c \<le> 90 then c + 32
        else c
      else c)"

definition kbdgetc :: "u32 \<Rightarrow> byte option \<Rightarrow> int \<times> u32" where
  "kbdgetc shift inp = (case inp of
       None \<Rightarrow> (-1, shift)
     | Some data \<Rightarrow>
         if data = 0xE0 then (0, shift OR E0ESC)
         else if data AND 0x80 \<noteq> 0 then
           (let d = (if shift AND E0ESC \<noteq> 0 then data else data AND 0x7F)
            in (0, shift AND NOT (shiftcode (unat d) OR E0ESC)))
         else
           (let d = (if shift AND E0ESC \<noteq> 0 then data OR 0x80 else data);
                shift = (if shift AND E0ESC \<noteq> 0 then shift AND NOT E0ESC else shift);
                shift = shift OR shiftcode (unat d);
                shift = shift XOR togglecode (unat d)
            in (uint (caps shift (charcode (shift AND (CTL OR SHIFT)) (unat d))), shift)))"

text \<open>The codes \<^verbatim>\<open>consoleintr\<close> gets from successive calls until the controller has no more data.\<close>

fun kbd_codes :: "u32 \<Rightarrow> byte list \<Rightarrow> int list \<times> u32" where
  "kbd_codes shift [] = ([], shift)"
| "kbd_codes shift (b # bs) =
     (let (c, shift') = kbdgetc shift (Some b); (cs, shift'') = kbd_codes shift' bs in (c # cs, shift''))"

section \<open>Correctness\<close>

text \<open>The make code of the \<open>i\<close>-th letter.\<close>

definition letter_key :: "nat \<Rightarrow> byte" where
  "letter_key i = [0x1E, 0x30, 0x2E, 0x20, 0x12, 0x21, 0x22, 0x23, 0x17, 0x24, 0x25, 0x26, 0x32, 0x31, 0x18, 0x19,
     0x10, 0x13, 0x1F, 0x14, 0x16, 0x2F, 0x11, 0x2D, 0x15, 0x2C] ! i"

lemma letter_keys:
  assumes "i < 26"
  shows "normalmap (unat (letter_key i)) = 97 + of_nat i" "shiftmap (unat (letter_key i)) = 65 + of_nat i"
    "ctlmap (unat (letter_key i)) = 1 + of_nat i" "shiftcode (unat (letter_key i)) = 0" "togglecode (unat (letter_key i)) = 0"
    "letter_key i \<noteq> 0xE0" "letter_key i AND 0x80 = 0"
proof -
  have "list_all (\<lambda>i. normalmap (unat (letter_key i)) = 97 + of_nat i \<and> shiftmap (unat (letter_key i)) = 65 + of_nat i
    \<and> ctlmap (unat (letter_key i)) = 1 + of_nat i \<and> shiftcode (unat (letter_key i)) = 0 \<and> togglecode (unat (letter_key i)) = 0
    \<and> letter_key i \<noteq> 0xE0 \<and> letter_key i AND 0x80 = 0) [0..<26]"
    by code_simp
  with assms show "normalmap (unat (letter_key i)) = 97 + of_nat i" "shiftmap (unat (letter_key i)) = 65 + of_nat i"
    "ctlmap (unat (letter_key i)) = 1 + of_nat i" "shiftcode (unat (letter_key i)) = 0" "togglecode (unat (letter_key i)) = 0"
    "letter_key i \<noteq> 0xE0" "letter_key i AND 0x80 = 0" by (simp_all add: list_all_iff)
qed

lemma and_push_bit: "(w :: u32) AND 2 ^ n = (if bit w n then 2 ^ n else 0)"
  by (rule bit_word_eqI) (auto simp: bit_and_iff bit_exp_iff)

lemma and_bit:
  fixes w :: u32
  shows "w AND 1 = 0 \<or> w AND 1 = 1" "w AND 2 = 0 \<or> w AND 2 = 2"
  using and_push_bit [of w 0] and_push_bit [of w 1] by (simp_all split: if_splits)

lemma charcode_cases:
  "charcode (shift AND (CTL OR SHIFT)) =
     (if shift AND CTL \<noteq> 0 then ctlmap else if shift AND SHIFT \<noteq> 0 then shiftmap else normalmap)"
proof -
  have "shift AND (CTL OR SHIFT) = (shift AND 2) OR (shift AND 1)"
    by (simp only: kbd_bits bit.conj_disj_distrib)
  then show ?thesis using and_bit [of shift] by (auto simp: charcode_def kbd_bits)
qed

lemma caps_letter:
  assumes "i < 26"
  shows "caps shift (97 + of_nat i) = (if shift AND CAPSLOCK \<noteq> 0 then 65 + of_nat i else 97 + of_nat i)"
    "caps shift (65 + of_nat i) = (if shift AND CAPSLOCK \<noteq> 0 then 97 + of_nat i else 65 + of_nat i)"
    "caps shift (1 + of_nat i) = 1 + of_nat i"
proof -
  have "list_all (\<lambda>i. 97 \<le> (97 + of_nat i :: byte) \<and> (97 + of_nat i :: byte) \<le> 122 \<and> 65 \<le> (65 + of_nat i :: byte) \<and> (65 + of_nat i :: byte) \<le> 90
    \<and> \<not> 97 \<le> (65 + of_nat i :: byte) \<and> \<not> 65 \<le> (1 + of_nat i :: byte) \<and> \<not> 97 \<le> (1 + of_nat i :: byte)) [0..<26]" by code_simp
  with assms show "caps shift (97 + of_nat i) = (if shift AND CAPSLOCK \<noteq> 0 then 65 + of_nat i else 97 + of_nat i)"
    "caps shift (65 + of_nat i) = (if shift AND CAPSLOCK \<noteq> 0 then 97 + of_nat i else 65 + of_nat i)"
    "caps shift (1 + of_nat i) = 1 + of_nat i" by (auto simp: caps_def list_all_iff)
qed

lemma uint_letter: "i < 26 \<Longrightarrow> k < 200 \<Longrightarrow> uint (of_nat k + of_nat i :: byte) = int (k + i)"
  by (simp add: uint_nat unat_of_nat flip: of_nat_add)

lemma letter_code:
  assumes "i < 26" "shift AND E0ESC = 0"
  shows "kbdgetc shift (Some (letter_key i)) =
    (int i + (if shift AND CTL \<noteq> 0 then 1 else if (shift AND SHIFT \<noteq> 0) \<noteq> (shift AND CAPSLOCK \<noteq> 0) then 65 else 97), shift)"
  using letter_keys [OF assms(1)] caps_letter [OF assms(1), of shift] uint_letter [OF assms(1), of 97] uint_letter [OF assms(1), of 65]
    uint_letter [OF assms(1), of 1] assms(2)
  by (simp add: kbdgetc_def charcode_cases Let_def)

lemma and_not_clear: "(x :: u32) AND m = 0 \<Longrightarrow> x AND NOT m = x"
  by (rule bit_word_eqI) (auto simp: bit_eq_iff bit_and_iff bit_not_iff)

text \<open>Keys that give no character: the modifiers.\<close>

lemma modifier_key:
  assumes "shift AND E0ESC = 0" "k = 0x2A \<or> k = 0x3A"
  shows "kbdgetc shift (Some k) = (0, (shift OR shiftcode (unat k)) XOR togglecode (unat k))"
    "kbdgetc shift (Some (k OR 0x80)) = (0, shift AND NOT (shiftcode (unat k) OR E0ESC))"
proof -
  have z: "normalmap 42 = 0" "shiftmap 42 = 0" "ctlmap 42 = 0" "normalmap 58 = 0" "shiftmap 58 = 0" "ctlmap 58 = 0" by code_simp+
  have "caps x 0 = 0" for x by (simp add: caps_def)
  then show "kbdgetc shift (Some k) = (0, (shift OR shiftcode (unat k)) XOR togglecode (unat k))"
    using assms(2) by (elim disjE) (simp_all add: kbdgetc_def charcode_cases z Let_def assms(1))
  show "kbdgetc shift (Some (k OR 0x80)) = (0, shift AND NOT (shiftcode (unat k) OR E0ESC))"
    using assms(2) by (elim disjE) (simp_all add: kbdgetc_def Let_def assms(1))
qed

text \<open>
  C30. Typing letters. A letter key pressed outside an escape sequence gives the control
  character while control is held, and otherwise the upper-case letter exactly when one of shift
  and caps lock is on, and it leaves the modifiers alone. Holding the left shift key around it
  reverses the case and leaves shift off; pressing caps lock twice changes nothing.
\<close>

theorem kbd_letters:
  assumes "i < 26" "shift AND E0ESC = 0"
  shows "kbdgetc shift (Some (letter_key i)) =
      (int i + (if shift AND CTL \<noteq> 0 then 1 else if (shift AND SHIFT \<noteq> 0) \<noteq> (shift AND CAPSLOCK \<noteq> 0) then 65 else 97), shift)
    \<and> (shift AND CTL = 0 \<longrightarrow> kbd_codes shift [0x2A, letter_key i, 0xAA]
      = ([0, int i + (if shift AND CAPSLOCK \<noteq> 0 then 97 else 65), 0], shift AND NOT SHIFT))
    \<and> snd (kbd_codes shift [0x3A, 0xBA, 0x3A, 0xBA]) = shift"
proof (intro conjI impI)
  have b: "x AND E0ESC = 0 \<longleftrightarrow> \<not> bit x 6" "x AND CTL = 0 \<longleftrightarrow> \<not> bit x 1" "x AND SHIFT = 0 \<longleftrightarrow> \<not> bit x 0" "x AND CAPSLOCK = 0 \<longleftrightarrow> \<not> bit x 3" for x
    using and_push_bit [of x 6] and_push_bit [of x 1] and_push_bit [of x 0] and_push_bit [of x 3] by (simp_all add: kbd_bits)
  show "kbdgetc shift (Some (letter_key i)) =
      (int i + (if shift AND CTL \<noteq> 0 then 1 else if (shift AND SHIFT \<noteq> 0) \<noteq> (shift AND CAPSLOCK \<noteq> 0) then 65 else 97), shift)"
    by (rule letter_code [OF assms])
  have sh: "(shift OR SHIFT) AND E0ESC = 0" "(shift OR SHIFT) AND SHIFT \<noteq> 0" "(shift OR SHIFT) AND CTL = shift AND CTL"
    "(shift OR SHIFT) AND CAPSLOCK = shift AND CAPSLOCK" "(shift OR SHIFT) AND NOT SHIFT = shift AND NOT SHIFT"
    using assms(2) by (simp_all add: b bit_or_iff) (simp_all add: kbd_bits bit_1_iff bit.conj_disj_distrib2)
  show "kbd_codes shift [0x2A, letter_key i, 0xAA]
      = ([0, int i + (if shift AND CAPSLOCK \<noteq> 0 then 97 else 65), 0], shift AND NOT SHIFT)" if that: "shift AND CTL = 0"
  proof -
    have r: "(shift OR SHIFT) AND NOT (SHIFT OR E0ESC) = shift AND NOT SHIFT"
    proof -
      have "(shift OR SHIFT) AND NOT (SHIFT OR E0ESC) = ((shift OR SHIFT) AND NOT E0ESC) AND NOT SHIFT"
        by (simp only: bit.de_Morgan_disj and.assoc) (simp only: and.commute)
      then show ?thesis unfolding and_not_clear [OF sh(1)] sh(5) .
    qed
    have p: "kbdgetc shift (Some 0x2A) = (0, shift OR SHIFT)" "kbdgetc (shift OR SHIFT) (Some 0xAA) = (0, shift AND NOT SHIFT)"
      using modifier_key(1) [OF assms(2), of "0x2A"] modifier_key(2) [OF sh(1), of "0x2A"] r by (simp_all add: shiftcode_def togglecode_def)
    show ?thesis
      using letter_code [OF assms(1) sh(1)] sh(2-4) that by (simp add: p)
  qed
  show "snd (kbd_codes shift [0x3A, 0xBA, 0x3A, 0xBA]) = shift"
  proof -
    have k: "kbdgetc x (Some 0x3A) = (0, x XOR CAPSLOCK)" "kbdgetc x (Some 0xBA) = (0, x)" if "x AND E0ESC = 0" for x
      using modifier_key [OF that, of "0x3A"] and_not_clear [OF that] by (simp_all add: shiftcode_def togglecode_def)
    have "(shift XOR CAPSLOCK) AND E0ESC = 0" using assms(2) by (simp add: b bit_xor_iff) (simp add: kbd_bits)
    then show ?thesis using assms(2) by (simp add: k xor.assoc)
  qed
qed

theorem kbd_letters_witness:
  "kbdgetc 8 (Some (letter_key 7)) = (72, 8) \<and> kbd_codes 8 [0x2A, letter_key 7, 0xAA] = ([0, 104, 0], 8)
   \<and> snd (kbd_codes 8 [0x3A, 0xBA, 0x3A, 0xBA]) = 8"
  using kbd_letters [of 7 8] by (simp add: kbd_bits)

section \<open>The modifier state as a function of the keys\<close>

text \<open>
  What the controller's bytes mean, told without the variable \<^verbatim>\<open>shift\<close>: \<open>0xE0\<close> announces a
  key of the extended set, any other byte presses or releases the key of its low seven bits.
\<close>

datatype key_event = Press bool byte | Release bool byte

definition key_event :: "bool \<Rightarrow> byte \<Rightarrow> key_event" where
  "key_event ext b = (if b AND 0x80 \<noteq> 0 then Release ext (b AND 0x7F) else Press ext b)"

fun key_events :: "bool \<Rightarrow> byte list \<Rightarrow> key_event list" where
  "key_events ext [] = []"
| "key_events ext (b # bs) =
     (if b = 0xE0 then key_events True bs else key_event ext b # key_events False bs)"

fun key_of :: "key_event \<Rightarrow> bool \<times> byte" where
  "key_of (Press ext k) = (ext, k)"
| "key_of (Release ext k) = (ext, k)"

fun is_press :: "key_event \<Rightarrow> bool" where
  "is_press (Press ext k) = True"
| "is_press (Release ext k) = False"

text \<open>The last event of one of the keys was a press; how often a key was pressed.\<close>

definition key_down :: "(bool \<times> byte) list \<Rightarrow> key_event list \<Rightarrow> bool" where
  "key_down ks es = (let es' = filter (\<lambda>e. key_of e \<in> set ks) es in es' \<noteq> [] \<and> is_press (last es'))"

definition presses :: "byte \<Rightarrow> key_event list \<Rightarrow> nat" where
  "presses k es = length (filter (\<lambda>e. e = Press False k) es)"

definition shift_keys :: "(bool \<times> byte) list" where "shift_keys = [(False, 0x2A), (False, 0x36)]"
definition ctl_keys :: "(bool \<times> byte) list" where "ctl_keys = [(False, 0x1D), (True, 0x1D)]"
definition alt_keys :: "(bool \<times> byte) list" where "alt_keys = [(False, 0x38), (True, 0x38)]"

definition ends_E0 :: "byte list \<Rightarrow> bool" where
  "ends_E0 bs \<longleftrightarrow> bs \<noteq> [] \<and> last bs = 0xE0"

lemma key_events_snoc:
  "key_events ext (bs @ [b]) = key_events ext bs
     @ (if b = 0xE0 then [] else [key_event (if bs = [] then ext else ends_E0 bs) b])"
  by (induction ext bs rule: key_events.induct) (auto simp: ends_E0_def)

lemma kbd_codes_snoc: "snd (kbd_codes s (bs @ [b])) = snd (kbdgetc (snd (kbd_codes s bs)) (Some b))"
  by (induction bs arbitrary: s) (auto simp: split_beta Let_def)

lemma key_down_snoc [simp]:
  "key_down ks (es @ [e]) = (if key_of e \<in> set ks then is_press e else key_down ks es)"
  by (simp add: key_down_def Let_def)

lemma presses_snoc [simp]: "presses k (es @ [e]) = presses k es + (if e = Press False k then 1 else 0)"
  by (simp add: presses_def)

text \<open>The index into \<^verbatim>\<open>shiftcode\<close> and \<^verbatim>\<open>togglecode\<close>, and what the tables hold there.\<close>

definition key_index :: "bool \<Rightarrow> byte \<Rightarrow> nat" where
  "key_index ext b = unat (if b AND 0x80 \<noteq> 0 then if ext then b else b AND 0x7F else if ext then b OR 0x80 else b)"

lemma byte_low: "unat (b AND 0x7F :: byte) = unat b mod 128"
proof -
  have "b AND 0x7F = take_bit 7 b" by (simp add: take_bit_eq_mask mask_eq_exp_minus_1)
  then show ?thesis by (simp add: unsigned_take_bit_eq take_bit_nat_def)
qed

lemma byte_high: "b AND 0x80 \<noteq> (0 :: byte) \<longleftrightarrow> 128 \<le> unat b"
proof -
  have "b AND 0x80 = 0 \<longleftrightarrow> \<not> bit b 7" using and_exp_eq_0_iff_not_bit [of b 7] by simp
  moreover have "bit b 7 \<longleftrightarrow> bit (unat b) 7" by (simp add: bit_unsigned_iff)
  moreover have "bit (unat b) 7 \<longleftrightarrow> odd (unat b div 128)" by (simp add: bit_iff_odd)
  moreover have "unat b < 256" using unsigned_less [of b] by simp
  then have "unat b div 128 = (if 128 \<le> unat b then 1 else 0)" by (auto intro: div_nat_eqI)
  then have "odd (unat b div 128) \<longleftrightarrow> 128 \<le> unat b" by simp
  ultimately show ?thesis by blast
qed

lemma byte_set_high: "b AND 0x80 = 0 \<Longrightarrow> unat (b OR 0x80 :: byte) = unat b + 128"
proof -
  assume a: "b AND 0x80 = 0"
  then have "unat b < 128" using byte_high [of b] by simp
  moreover have "b OR 0x80 = b + 0x80" using disjunctive_add_eq_or [OF a] by simp
  ultimately show ?thesis by (simp add: unat_word_ariths)
qed

lemma code_tables:
  shows "shiftcode (key_index ext b) = (let k = key_of (key_event ext b) in
      if k \<in> set shift_keys then 1 else if k \<in> set ctl_keys then 2 else if k \<in> set alt_keys then 4 else 0)"
    and "b AND 0x80 = 0 \<Longrightarrow> togglecode (key_index ext b) = (let e = key_event ext b in
      if e = Press False 0x3A then 8 else if e = Press False 0x45 then 16 else if e = Press False 0x46 then 32 else 0)"
proof -
  have k: "unat (b AND 0x7F) = unat b mod 128" "b AND 0x80 \<noteq> 0 \<longleftrightarrow> 128 \<le> unat b" "unat b < 256"
    using byte_low byte_high unsigned_less [of b] by simp_all
  have o: "b AND 0x80 = 0 \<Longrightarrow> unat (b OR 0x80) = unat b + 128" by (rule byte_set_high)
  have m: "128 \<le> unat b \<Longrightarrow> unat b mod 128 = unat b - 128" using k(3) by (simp add: le_mod_geq)
  have w: "x = y \<longleftrightarrow> unat x = unat y" for x y :: byte by (simp add: word_unat_eq_iff)
  show "shiftcode (key_index ext b) = (let k = key_of (key_event ext b) in
      if k \<in> set shift_keys then 1 else if k \<in> set ctl_keys then 2 else if k \<in> set alt_keys then 4 else 0)"
    using k o m by (cases "b AND 0x80 = 0"; cases ext)
      (auto simp: key_index_def key_event_def shiftcode_def shift_keys_def ctl_keys_def alt_keys_def kbd_bits w)
  show "togglecode (key_index ext b) = (let e = key_event ext b in
      if e = Press False 0x3A then 8 else if e = Press False 0x45 then 16 else if e = Press False 0x46 then 32 else 0)"
    if "b AND 0x80 = 0"
    using k o that by (cases ext) (auto simp: key_index_def key_event_def togglecode_def kbd_bits w)
qed

lemma kbdgetc_shift:
  "snd (kbdgetc s (Some b)) =
     (if b = 0xE0 then s OR E0ESC
      else if b AND 0x80 \<noteq> 0 then s AND NOT (shiftcode (key_index (s AND E0ESC \<noteq> 0) b) OR E0ESC)
      else ((s AND NOT E0ESC) OR shiftcode (key_index (s AND E0ESC \<noteq> 0) b)) XOR togglecode (key_index (s AND E0ESC \<noteq> 0) b))"
  by (cases "s AND E0ESC = 0") (simp_all add: kbdgetc_def key_index_def Let_def and_not_clear)

lemma kbd_bit_tests:
  "x AND SHIFT = 0 \<longleftrightarrow> \<not> bit x 0" "x AND CTL = 0 \<longleftrightarrow> \<not> bit x 1" "x AND ALT = 0 \<longleftrightarrow> \<not> bit x 2"
  "x AND CAPSLOCK = 0 \<longleftrightarrow> \<not> bit x 3" "x AND NUMLOCK = 0 \<longleftrightarrow> \<not> bit x 4" "x AND SCROLLLOCK = 0 \<longleftrightarrow> \<not> bit x 5"
  "x AND E0ESC = 0 \<longleftrightarrow> \<not> bit x 6"
  using and_push_bit [of x 0] and_push_bit [of x 1] and_push_bit [of x 2] and_push_bit [of x 3] and_push_bit [of x 4]
    and_push_bit [of x 5] and_push_bit [of x 6] by (simp_all add: kbd_bits)

text \<open>One byte other than \<open>0xE0\<close>, bit by bit.\<close>

lemma kbdgetc_bits:
  assumes "b \<noteq> 0xE0" and "e = key_event (bit s 6) b" and "s' = snd (kbdgetc s (Some b))"
  shows "bit s' 0 = (if key_of e \<in> set shift_keys then is_press e else bit s 0)"
    and "bit s' 1 = (if key_of e \<in> set ctl_keys then is_press e else bit s 1)"
    and "bit s' 2 = (if key_of e \<in> set alt_keys then is_press e else bit s 2)"
    and "bit s' 3 = (bit s 3 \<noteq> (e = Press False 0x3A))"
    and "bit s' 4 = (bit s 4 \<noteq> (e = Press False 0x45))"
    and "bit s' 5 = (bit s 5 \<noteq> (e = Press False 0x46))"
    and "\<not> bit s' 6"
proof -
  have disj: "k \<in> set ctl_keys \<Longrightarrow> k \<notin> set shift_keys" "k \<in> set alt_keys \<Longrightarrow> k \<notin> set shift_keys \<and> k \<notin> set ctl_keys" for k
    by (auto simp: shift_keys_def ctl_keys_def alt_keys_def)
  have kind: "is_press e \<longleftrightarrow> b AND 0x80 = 0" "b AND 0x80 \<noteq> 0 \<Longrightarrow> e \<noteq> Press f k" for f k
    by (auto simp: assms(2) key_event_def)
  note tabs = code_tables [where b = b and ext = "bit s 6", folded assms(2), unfolded Let_def]
  have s': "s' = (if b AND 0x80 \<noteq> 0 then s AND NOT (shiftcode (key_index (bit s 6) b) OR 64)
      else ((s AND NOT 64) OR shiftcode (key_index (bit s 6) b)) XOR togglecode (key_index (bit s 6) b))"
    using assms(1) by (simp add: assms(3) kbdgetc_shift kbd_bit_tests) (simp add: E0ESC_def)
  show "bit s' 0 = (if key_of e \<in> set shift_keys then is_press e else bit s 0)"
    "bit s' 1 = (if key_of e \<in> set ctl_keys then is_press e else bit s 1)"
    "bit s' 2 = (if key_of e \<in> set alt_keys then is_press e else bit s 2)"
    "bit s' 3 = (bit s 3 \<noteq> (e = Press False 0x3A))" "bit s' 4 = (bit s 4 \<noteq> (e = Press False 0x45))"
    "bit s' 5 = (bit s 5 \<noteq> (e = Press False 0x46))" "\<not> bit s' 6"
    by (cases "b AND 0x80 = 0"; simp add: s' tabs kind bit_and_iff bit_or_iff bit_xor_iff bit_not_iff disj)+
qed

text \<open>
  C31. The modifier state of the keyboard is a function of the keys. For every sequence of
  bytes since boot, in any order: shift, control and alt are on exactly when the last event
  of one of their keys was a press; caps lock, num lock and scroll lock are on exactly when
  their key was pressed an odd number of times (releases and extended keys do not count);
  and the escape bit is on exactly when the last byte was the prefix of the extended set.
\<close>

theorem kbd_modifiers:
  "let shift = snd (kbd_codes 0 bs); es = key_events False bs in
     (shift AND SHIFT \<noteq> 0) = key_down shift_keys es
   \<and> (shift AND CTL \<noteq> 0) = key_down ctl_keys es
   \<and> (shift AND ALT \<noteq> 0) = key_down alt_keys es
   \<and> (shift AND CAPSLOCK \<noteq> 0) = odd (presses 0x3A es)
   \<and> (shift AND NUMLOCK \<noteq> 0) = odd (presses 0x45 es)
   \<and> (shift AND SCROLLLOCK \<noteq> 0) = odd (presses 0x46 es)
   \<and> (shift AND E0ESC \<noteq> 0) = ends_E0 bs"
proof (induction bs rule: rev_induct)
  case Nil
  show ?case by (simp add: key_down_def presses_def ends_E0_def)
next
  case (snoc b bs)
  let ?s = "snd (kbd_codes 0 bs)" and ?s' = "snd (kbd_codes 0 (bs @ [b]))"
  note ih = snoc [unfolded Let_def kbd_bit_tests not_not]
  have ends: "ends_E0 (bs @ [b]) = (b = 0xE0)" by (simp add: ends_E0_def)
  show ?case
  proof (cases "b = 0xE0")
    case True
    then have "?s' = ?s OR 64" by (simp add: kbd_codes_snoc kbdgetc_shift) (simp add: E0ESC_def)
    with True ih show ?thesis
      by (simp add: kbd_bit_tests ends_E0_def key_events_snoc bit_or_iff)
  next
    case False
    define e where "e = key_event (bit ?s 6) b"
    have "(if bs = [] then False else ends_E0 bs) = bit ?s 6" using ih by (simp add: ends_E0_def)
    then have es: "key_events False (bs @ [b]) = key_events False bs @ [e]"
      using False by (simp add: key_events_snoc e_def)
    show ?thesis
      using kbdgetc_bits [OF False e_def kbd_codes_snoc] ih False
      by (simp add: kbd_bit_tests ends es)
  qed
qed

end
