(* ===== verification/Console.thy ===== *)
theory Console
  imports Sysfile Printf Kbd FsInode
begin

text \<open>
  The console: the input line buffer, the device functions and the screen of console.c, and the serial
  port of uart.c. The screen memory is \<open>crt\<close>, the cursor register \<open>crt_pos\<close>; \<open>serial\<close> is what has been
  sent to the serial port. The codes that \<^verbatim>\<open>getc\<close> returns until it is negative are the list argument of
  \<open>consoleintr\<close>. The static variable \<^verbatim>\<open>shift\<close> of kbd.c is \<open>kbd_shift\<close>.
\<close>

section \<open>State\<close>

definition INPUT_BUF :: nat where "INPUT_BUF = 128"
definition BACKSPACE :: int where "BACKSPACE = 0x100"

record cst = ust +
  c_buf :: "byte list"
  c_r :: u32
  c_w :: u32
  c_e :: u32
  c_locking :: bool
  panicked :: bool
  crt :: "nat \<Rightarrow> u16"
  crt_pos :: nat
  uart :: bool
  serial :: "byte list"
  kbd_shift :: u32

section \<open>Output\<close>

definition uartputc :: "int \<Rightarrow> ('z cst_scheme, unit) kop" where
  "uartputc c = modify (\<lambda>s. if uart s then s\<lparr>serial := serial s @ [word_of_int c]\<rparr> else s)"

text \<open>\<open>status\<close> is what the line status register reads; 0xFF means that there is no serial port.\<close>

definition uartinit :: "byte \<Rightarrow> ('z cst_scheme, unit) kop" where
  "uartinit status =
     (if status = 0xFF then ret ()
      else
        seqK (modify (\<lambda>s. s\<lparr>uart := True\<rparr>))
        (forK (lit ''xv6...'' @ [10]) (\<lambda>b. uartputc (uint b))))"

text \<open>\<open>crt_pos\<close> is what the ports hold: 16 bits.\<close>

definition cga_move :: "int \<Rightarrow> int \<Rightarrow> int" where
  "cga_move c pos =
     (if c = 10 then pos + (80 - pos mod 80)
      else if c = BACKSPACE then (if pos > 0 then pos - 1 else pos)
      else pos + 1)"

definition cga_scroll :: "(nat \<Rightarrow> u16) \<Rightarrow> nat \<Rightarrow> nat \<Rightarrow> u16" where
  "cga_scroll m pos i = (if pos \<le> i \<and> i < 24 * 80 then 0 else if i < 23 * 80 then m (i + 80) else m i)"

definition cgaputc :: "int \<Rightarrow> ('z cst_scheme, unit) kop" where
  "cgaputc c =
     bindK (gets (\<lambda>s. int (crt_pos s))) (\<lambda>pos0.
     seqK (modify (\<lambda>s. if c = 10 \<or> c = BACKSPACE then s
        else s\<lparr>crt := (crt s)(nat pos0 := (word_of_int c AND 0xff) OR 0x0700)\<rparr>))
     (let pos = cga_move c pos0 in
      seqK (panic_if (pos < 0 \<or> pos > 25 * 80) ''pos under/overflow'')
      (bindK (if pos div 80 \<ge> 24 then
          seqK (modify (\<lambda>s. s\<lparr>crt := cga_scroll (crt s) (nat (pos - 80))\<rparr>)) (ret (pos - 80))
        else ret pos) (\<lambda>pos.
      modify (\<lambda>s. s\<lparr>crt := (crt s)(nat pos := 0x0720), crt_pos := nat pos mod 65536\<rparr>)))))"

definition consputc :: "int \<Rightarrow> ('z cst_scheme, unit) kop" where
  "consputc c =
     bindK (gets panicked) (\<lambda>p.
     if p then (\<lambda>s. Spin s)
     else
       seqK (if c = BACKSPACE then seqK (uartputc 8) (seqK (uartputc 32) (uartputc 8)) else uartputc c)
       (cgaputc c))"

text \<open>\<^verbatim>\<open>cprintf\<close> on the state; \<open>bs\<close> is what the format and its arguments print (Printf).\<close>

definition kprint :: "byte list \<Rightarrow> ('z cst_scheme, unit) kop" where
  "kprint bs =
     bindK (gets c_locking) (\<lambda>locking.
     seqK (if locking then acq L_cons else ret ())
     (seqK (forK bs (\<lambda>b. consputc (uint b)))
     (if locking then rel L_cons else ret ())))"

section \<open>Process listing (proc.c)\<close>

definition state_name :: "procstate \<Rightarrow> byte list" where
  "state_name st = lit (case st of UNUSED \<Rightarrow> ''unused'' | EMBRYO \<Rightarrow> ''embryo'' | SLEEPING \<Rightarrow> ''sleep ''
     | RUNNABLE \<Rightarrow> ''runble'' | RUNNING \<Rightarrow> ''run   '' | ZOMBIE \<Rightarrow> ''zombie'')"

text \<open>
  \<open>pcs\<close> gives the ten return addresses \<^verbatim>\<open>getcallerpcs\<close> finds on the kernel stack of a process. The
  format \<^verbatim>\<open>%d %s %s\<close> is printed with the strings as its second and third argument.
\<close>

definition proc_strings :: "proc \<Rightarrow> u32 \<Rightarrow> byte list" where
  "proc_strings p a = (if a = 1 then state_name (p_state p) else takeWhile (\<lambda>b. b \<noteq> 0) (p_name p))"

definition procdump_one :: "(proc \<Rightarrow> u32 list) \<Rightarrow> nat \<Rightarrow> ('z cst_scheme, unit) kop" where
  "procdump_one pcs i =
     bindK (gets (proc_at i)) (\<lambda>p.
     if p_state p = UNUSED then ret ()
     else
       seqK (kprint (cprintf (proc_strings p) (lit ''%d %s %s'') (\<lambda>k. [word_of_int (p_pid p), 1, 2] ! k)))
       (seqK (if p_state p = SLEEPING then
           forK (takeWhile (\<lambda>a. a \<noteq> 0) (take 10 (pcs p))) (\<lambda>a. kprint (cprintf (\<lambda>_. []) (lit '' %p'') (\<lambda>_. a)))
         else ret ())
       (kprint [10])))"

definition procdump :: "(proc \<Rightarrow> u32 list) \<Rightarrow> ('z cst_scheme, unit) kop" where
  "procdump pcs = bindK (gets (\<lambda>s. [0..<length (procs s)])) (\<lambda>is. forK is (procdump_one pcs))"

section \<open>Input\<close>

definition input_at :: "'z cst_scheme \<Rightarrow> u32 \<Rightarrow> byte" where
  "input_at s i = c_buf s ! unat (i mod of_nat INPUT_BUF)"

text \<open>The loop of the kill-line key: it stops at the start of the line, which is at most 128 away.\<close>

fun kill_line :: "nat \<Rightarrow> ('z cst_scheme, unit) kop" where
  "kill_line 0 = panic ''undefined: kill_line''"
| "kill_line (Suc k) =
     bindK (gets (\<lambda>s. c_e s \<noteq> c_w s \<and> input_at s (c_e s - 1) \<noteq> 10)) (\<lambda>more.
     if more then
       seqK (modify (\<lambda>s. s\<lparr>c_e := c_e s - 1\<rparr>)) (seqK (consputc BACKSPACE) (kill_line k))
     else ret ())"

definition console_char :: "int \<Rightarrow> ('z cst_scheme, unit) kop" where
  "console_char c0 =
     bindK (gets (\<lambda>s. c_e s - c_r s < of_nat INPUT_BUF)) (\<lambda>room.
     if c0 \<noteq> 0 \<and> room then
       (let c = (if c0 = 13 then 10 else c0) in
        seqK (modify (\<lambda>s. s\<lparr>c_buf := (c_buf s)[unat (c_e s mod of_nat INPUT_BUF) := word_of_int c], c_e := c_e s + 1\<rparr>))
        (seqK (consputc c)
        (bindK (gets (\<lambda>s. c = 10 \<or> c = 4 \<or> c_e s = c_r s + of_nat INPUT_BUF)) (\<lambda>commit.
        if commit then seqK (modify (\<lambda>s. s\<lparr>c_w := c_e s\<rparr>)) (wakeup Ch_input) else ret ()))))
     else ret ())"

text \<open>The codes 16, 21, 8 and 127 are control-P, control-U, control-H and delete.\<close>

definition console_key :: "int \<Rightarrow> ('z cst_scheme, unit) kop" where
  "console_key c =
     (if c = 16 then ret ()
      else if c = 21 then kill_line (INPUT_BUF + 1)
      else if c = 8 \<or> c = 127 then
        bindK (gets (\<lambda>s. c_e s \<noteq> c_w s)) (\<lambda>some.
        if some then seqK (modify (\<lambda>s. s\<lparr>c_e := c_e s - 1\<rparr>)) (consputc BACKSPACE) else ret ())
      else console_char c)"

definition consoleintr :: "(proc \<Rightarrow> u32 list) \<Rightarrow> int list \<Rightarrow> ('z cst_scheme, unit) kop" where
  "consoleintr pcs cs =
     seqK (acq L_cons)
     (seqK (forK cs console_key)
     (seqK (rel L_cons)
     (if 16 \<in> set cs then procdump pcs else ret ())))"

definition kbdintr :: "(proc \<Rightarrow> u32 list) \<Rightarrow> byte list \<Rightarrow> ('z cst_scheme, unit) kop" where
  "kbdintr pcs bytes =
     bindK (gets (\<lambda>s. kbd_codes (kbd_shift s) bytes)) (\<lambda>(cs, shift).
     seqK (modify (\<lambda>s. s\<lparr>kbd_shift := shift\<rparr>))
     (consoleintr pcs cs))"

text \<open>\<open>bytes\<close> is what the receive register delivers while its status bit is set.\<close>

definition uartintr :: "(proc \<Rightarrow> u32 list) \<Rightarrow> byte list \<Rightarrow> ('z cst_scheme, unit) kop" where
  "uartintr pcs bytes = bindK (gets uart) (\<lambda>u. consoleintr pcs (if u then map uint bytes else []))"

section \<open>The device functions\<close>

definition consoleread_done :: "nat \<Rightarrow> byte list \<Rightarrow> ('z cst_scheme, int \<times> byte list) kop" where
  "consoleread_done ip acc = seqK (rel L_cons) (seqK (ilock ip) (ret (int (length acc), acc)))"

text \<open>The second argument is what is left to read; \<open>acc\<close> is what has been copied to \<^verbatim>\<open>dst\<close>.\<close>

fun consoleread_loop :: "nat \<Rightarrow> nat \<Rightarrow> byte list \<Rightarrow> ('z cst_scheme, int \<times> byte list) kop" where
  "consoleread_loop ip 0 acc = consoleread_done ip acc"
| "consoleread_loop ip (Suc n) acc =
     bindK (gets (\<lambda>s. c_r s = c_w s)) (\<lambda>empty.
     if empty then
       bindK am_killed (\<lambda>k.
       if k then seqK (rel L_cons) (seqK (ilock ip) (ret (-1, acc)))
       else sleep_on Ch_input L_cons)
     else
       bindK (gets (\<lambda>s. input_at s (c_r s))) (\<lambda>c.
       seqK (modify (\<lambda>s. s\<lparr>c_r := c_r s + 1\<rparr>))
       (if c = 4 then
          seqK (if acc \<noteq> [] then modify (\<lambda>s. s\<lparr>c_r := c_r s - 1\<rparr>) else ret ())
          (consoleread_done ip acc)
        else if c = 10 then consoleread_done ip (acc @ [c])
        else consoleread_loop ip n (acc @ [c]))))"

definition consoleread :: "nat \<Rightarrow> int \<Rightarrow> ('z cst_scheme, int \<times> byte list) kop" where
  "consoleread ip n = seqK (iunlock ip) (seqK (acq L_cons) (consoleread_loop ip (nat n) []))"

definition consoleread_resume :: "nat \<Rightarrow> nat \<Rightarrow> nat \<Rightarrow> byte list \<Rightarrow> ('z cst_scheme, int \<times> byte list) kop" where
  "consoleread_resume me ip n acc = seqK (sleep_resume me L_cons) (consoleread_loop ip n acc)"

definition consolewrite :: "nat \<Rightarrow> byte list \<Rightarrow> int \<Rightarrow> ('z cst_scheme, int) kop" where
  "consolewrite ip buf n =
     seqK (iunlock ip)
     (seqK (acq L_cons)
     (seqK (forK (take (nat n) buf) (\<lambda>b. consputc (uint b)))
     (seqK (rel L_cons)
     (seqK (ilock ip)
     (ret n)))))"

text \<open>\<^verbatim>\<open>consoleinit\<close> enters the two functions under major number 1 (\<^verbatim>\<open>CONSOLE\<close>).\<close>

definition CONSOLE :: int where "CONSOLE = 1"

definition console_devsw :: "('z cst_scheme) devsw" where
  "console_devsw = \<lparr>dev_read = (\<lambda>m. if m = CONSOLE then Some consoleread else None),
     dev_write = (\<lambda>m. if m = CONSOLE then Some consolewrite else None)\<rparr>"

definition consoleinit :: "('z cst_scheme, unit) kop" where
  "consoleinit = modify (\<lambda>s. s\<lparr>c_locking := True\<rparr>)"

section \<open>The screen\<close>

lemma cga_move_range:
  assumes "0 \<le> pos" "pos < 1920"
  shows "0 \<le> cga_move c pos" "cga_move c pos \<le> 1920"
proof -
  define q r where "q = pos div 80" and "r = pos mod 80"
  have qr: "pos = 80 * q + r" "0 \<le> r" "r < 80" by (simp_all add: q_def r_def)
  then have "0 \<le> q" "q \<le> 23" using assms by linarith+
  then show "0 \<le> cga_move c pos" "cga_move c pos \<le> 1920"
    using assms qr unfolding cga_move_def r_def [symmetric] by (simp_all split: if_splits)
qed

lemma cgaputc_ok:
  assumes "crt_pos s < 24 * 80"
  obtains m p where "cgaputc c s = Ret () (s\<lparr>crt := m, crt_pos := p\<rparr>)" "p < 24 * 80" "m p = 0x0720" "\<forall>i \<ge> 24 * 80. m i = crt s i"
proof -
  define pos where "pos = cga_move c (int (crt_pos s))"
  define m where "m = (if c = 10 \<or> c = BACKSPACE then crt s else (crt s)(crt_pos s := (word_of_int c AND 0xff) OR 0x0700))"
  have r: "0 \<le> pos" "pos \<le> 1920" using assms cga_move_range [of "int (crt_pos s)" c] by (simp_all add: pos_def)
  have m: "m i = crt s i" if "24 * 80 \<le> i" for i using that assms by (simp add: m_def)
  have "cgaputc c s = (if pos div 80 \<ge> 24
    then Ret () (s\<lparr>crt := (cga_scroll m (nat (pos - 80)))(nat (pos - 80) := 0x0720), crt_pos := nat (pos - 80) mod 65536\<rparr>)
    else Ret () (s\<lparr>crt := m(nat pos := 0x0720), crt_pos := nat pos mod 65536\<rparr>))"
    using r by (simp add: cgaputc_def Let_def m_def flip: pos_def)
  note e = this
  show ?thesis
  proof (cases "pos < 1920")
    case True
    then have "pos div 80 < 24" by simp
    then have "cgaputc c s = Ret () (s\<lparr>crt := m(nat pos := 0x0720), crt_pos := nat pos\<rparr>)" using e True by simp
    then show ?thesis by (rule that) (use True r m in auto)
  next
    case False
    with r have "pos = 1920" by simp
    with e have "cgaputc c s = Ret () (s\<lparr>crt := (cga_scroll m 1840)(1840 := 0x0720), crt_pos := 1840\<rparr>)" by simp
    then show ?thesis by (rule that) (use m in \<open>simp_all add: cga_scroll_def\<close>)
  qed
qed

text \<open>
  C29. The screen driver stays on the screen. From a cursor within the first 24 rows, writing any
  character, newline or backspace does not panic, leaves the cursor within the first 24 rows, changes only
  cells of these rows, and changes nothing else of the kernel; the cell under the cursor is blank.
\<close>

theorem cgaputc_bounds:
  assumes "crt_pos s < 24 * 80"
  shows "\<exists>m p. cgaputc c s = Ret () (s\<lparr>crt := m, crt_pos := p\<rparr>) \<and> p < 24 * 80 \<and> m p = 0x0720 \<and> (\<forall>i \<ge> 24 * 80. m i = crt s i)"
  using cgaputc_ok [OF assms, of c] by metis

text \<open>A console on an idle machine with two processes.\<close>

definition demo_con :: "fsst \<Rightarrow> kfile list \<Rightarrow> cst" where
  "demo_con f ft = ust.extend
     (fdst.extend (fsst.extend f (fdst.fields ft (\<lambda>_. \<lparr>pi_data = replicate 512 0, pi_nread = 0, pi_nwrite = 0, pi_readopen = False, pi_writeopen = False\<rparr>)))
       (ust.fields None (replicate 320 0) (replicate NUM_USER False)))
     (cst.fields (replicate 128 0) 0 0 0 True False (\<lambda>_. 0) 0 True [] 0)"

lemmas demo_con_defs = demo_con_def fsst.defs fdst.defs ust.defs cst.defs

theorem cgaputc_bounds_witness:
  "\<exists>m p. cgaputc 65 (demo_con (demo_fs demo_disk []) []) = Ret () ((demo_con (demo_fs demo_disk []) [])\<lparr>crt := m, crt_pos := p\<rparr>) \<and> p < 24 * 80"
proof -
  have "crt_pos (demo_con (demo_fs demo_disk []) []) < 24 * 80" by (simp add: demo_con_defs)
  from cgaputc_bounds [OF this, of 65] show ?thesis by blast
qed

text \<open>What output changes: only the screen and the serial port.\<close>

definition printed :: "'z cst_scheme \<Rightarrow> 'z cst_scheme \<Rightarrow> bool" where
  "printed s t \<longleftrightarrow> (\<exists>m p o'. t = s\<lparr>crt := m, crt_pos := p, serial := o'\<rparr> \<and> p < 24 * 80)"

lemma printedI: "p < 24 * 80 \<Longrightarrow> printed s (s\<lparr>crt := m, crt_pos := p, serial := o'\<rparr>)"
  unfolding printed_def by blast

lemma printedE:
  assumes "printed s t"
  obtains m p o' where "t = s\<lparr>crt := m, crt_pos := p, serial := o'\<rparr>" "p < 24 * 80"
  using assms unfolding printed_def by blast

lemma printed_refl: "crt_pos s < 24 * 80 \<Longrightarrow> printed s s"
  using printedI [of "crt_pos s" s "serial s" "crt s"] by simp

lemma printed_trans: "printed s t \<Longrightarrow> printed t u \<Longrightarrow> printed s u"
  by (elim printedE) (simp add: printedI)

lemma printedD:
  assumes "printed s t"
  shows "held t = held s" "procs t = procs s" "cur t = cur s" "c_buf t = c_buf s" "c_r t = c_r s" "c_w t = c_w s" "c_e t = c_e s"
    "c_locking t = c_locking s" "panicked t = panicked s" "crt_pos t < 24 * 80"
  using assms by (auto simp: printed_def)

lemma printed_held: "printed (s\<lparr>held := h\<rparr>) t \<Longrightarrow> printed s (t\<lparr>held := held s\<rparr>)"
proof (elim printedE)
  fix m p o' assume "t = s\<lparr>held := h, crt := m, crt_pos := p, serial := o'\<rparr>" "p < 24 * 80"
  then show ?thesis using printedI [of p s o' m] by simp
qed

lemma consputc_ok:
  assumes "\<not> panicked s" "crt_pos s < 24 * 80"
  obtains t where "consputc c s = Ret () t" "printed s t"
proof -
  define os where "os = (if uart s then serial s @ (if c = BACKSPACE then [8, 32, 8] else [word_of_int c]) else serial s)"
  have e: "consputc c s = cgaputc c (s\<lparr>serial := os\<rparr>)" using assms(1) by (simp add: consputc_def uartputc_def os_def)
  have "crt_pos (s\<lparr>serial := os\<rparr>) < 24 * 80" using assms(2) by simp
  from cgaputc_ok [OF this, of c] obtain m p where m: "cgaputc c (s\<lparr>serial := os\<rparr>) = Ret () (s\<lparr>serial := os, crt := m, crt_pos := p\<rparr>)" "p < 24 * 80" by metis
  have o: "s\<lparr>serial := os, crt := m, crt_pos := p\<rparr> = s\<lparr>crt := m, crt_pos := p, serial := os\<rparr>" by (cases s) simp
  show ?thesis by (rule that [OF e [unfolded m(1)]]) (unfold o, rule printedI [OF m(2)])
qed

lemma print_ok:
  "\<not> panicked s \<Longrightarrow> crt_pos s < 24 * 80 \<Longrightarrow> \<exists>t. forK bs (\<lambda>b. consputc (f b)) s = Ret () t \<and> printed s t"
proof (induction bs arbitrary: s)
  case Nil
  then show ?case using printed_refl [OF Nil.prems(2)] by simp
next
  case (Cons b bs)
  obtain u where u: "consputc (f b) s = Ret () u" "printed s u" by (rule consputc_ok [OF Cons.prems])
  have "\<not> panicked u" "crt_pos u < 24 * 80" using printedD(9,10) [OF u(2)] Cons.prems(1) by simp_all
  from Cons.IH [OF this] obtain t where "forK bs (\<lambda>b. consputc (f b)) u = Ret () t" "printed u t" by blast
  then show ?case using u(1) printed_trans [OF u(2)] by simp
qed

lemma kprint_ok:
  assumes "\<not> panicked s" "crt_pos s < 24 * 80" "L_cons \<notin> set (held s)"
  obtains t where "kprint bs s = Ret () t" "printed s t"
proof (cases "c_locking s")
  case True
  have "\<not> panicked (s\<lparr>held := L_cons # held s\<rparr>)" "crt_pos (s\<lparr>held := L_cons # held s\<rparr>) < 24 * 80" using assms(1,2) by simp_all
  from print_ok [OF this, of bs uint] obtain u where u: "forK bs (\<lambda>b. consputc (uint b)) (s\<lparr>held := L_cons # held s\<rparr>) = Ret () u"
    "printed (s\<lparr>held := L_cons # held s\<rparr>) u" by blast
  have "kprint bs s = Ret () (u\<lparr>held := held s\<rparr>)"
    using True assms(3) u(1) printedD [OF u(2)] by (simp add: kprint_def lock_simps)
  then show ?thesis using that printed_held [OF u(2)] by blast
next
  case False
  then show ?thesis using print_ok [OF assms(1,2), of bs uint] that by (auto simp: kprint_def)
qed

lemma forK_print_ok:
  assumes "\<And>i s. \<not> panicked s \<Longrightarrow> crt_pos s < 24 * 80 \<Longrightarrow> L_cons \<notin> set (held s) \<Longrightarrow> \<exists>t. body i s = Ret () t \<and> printed s t"
    and "\<not> panicked s" "crt_pos s < 24 * 80" "L_cons \<notin> set (held s)"
  shows "\<exists>t. forK is body s = Ret () t \<and> printed s t"
  using assms(2-4)
proof (induction "is" arbitrary: s)
  case Nil
  then show ?case using printed_refl [OF Nil.prems(2)] by simp
next
  case (Cons i "is")
  obtain u where u: "body i s = Ret () u" "printed s u" using assms(1) [OF Cons.prems] by blast
  have "\<not> panicked u" "crt_pos u < 24 * 80" "L_cons \<notin> set (held u)" using printedD(1,9,10) [OF u(2)] Cons.prems by simp_all
  from Cons.IH [OF this] obtain t where "forK is body u = Ret () t" "printed u t" by blast
  then show ?case using u(1) printed_trans [OF u(2)] by simp
qed

lemma kprint_ex: "\<not> panicked s \<Longrightarrow> crt_pos s < 24 * 80 \<Longrightarrow> L_cons \<notin> set (held s) \<Longrightarrow> \<exists>t. kprint bs s = Ret () t \<and> printed s t"
  by (erule (2) kprint_ok) blast

lemma procdump_ok:
  assumes "\<not> panicked s" "crt_pos s < 24 * 80" "L_cons \<notin> set (held s)"
  shows "\<exists>t. procdump pcs s = Ret () t \<and> printed s t"
proof -
  have "\<exists>t. procdump_one pcs i s = Ret () t \<and> printed s t" if h: "\<not> panicked s" "crt_pos s < 24 * 80" "L_cons \<notin> set (held s)" for i and s :: "'a cst_scheme"
  proof (cases "p_state (proc_at i s) = UNUSED")
    case True
    then show ?thesis using printed_refl [OF h(2)] by (simp add: procdump_one_def)
  next
    case False
    define p where "p = proc_at i s"
    obtain a where a: "kprint (cprintf (proc_strings p) (lit ''%d %s %s'') (\<lambda>k. [word_of_int (p_pid p), 1, 2] ! k)) s = Ret () a" "printed s a"
      using kprint_ex [OF h] by blast
    note ra = printedD(1,9,10) [OF a(2)]
    have ra': "\<not> panicked a" "crt_pos a < 24 * 80" "L_cons \<notin> set (held a)" using ra h by simp_all
    have l: "\<exists>t. forK xs (\<lambda>x. kprint (g x)) a = Ret () t \<and> printed a t" for xs :: "u32 list" and g
      by (rule forK_print_ok [OF kprint_ex ra'])
    obtain b where b: "(if p_state p = SLEEPING then
        forK (takeWhile (\<lambda>a. a \<noteq> 0) (take 10 (pcs p))) (\<lambda>a. kprint (cprintf (\<lambda>_. []) (lit '' %p'') (\<lambda>_. a))) else ret ()) a = Ret () b" "printed a b"
      using l [of "takeWhile (\<lambda>a. a \<noteq> 0) (take 10 (pcs p))" "\<lambda>x. cprintf (\<lambda>_. []) (lit '' %p'') (\<lambda>_. x)"] printed_refl [OF ra'(2)]
      by (cases "p_state p = SLEEPING") auto
    have rb: "\<not> panicked b" "crt_pos b < 24 * 80" "L_cons \<notin> set (held b)" using printedD(1,9,10) [OF b(2)] ra' by simp_all
    obtain c where c: "kprint [10] b = Ret () c" "printed b c" using kprint_ex [OF rb] by blast
    have "procdump_one pcs i s = Ret () c"
      using False a(1) b(1) c(1) by (simp add: procdump_one_def flip: p_def)
    then show ?thesis using printed_trans [OF printed_trans [OF a(2) b(2)] c(2)] by blast
  qed
  from forK_print_ok [OF this assms] show ?thesis by (simp add: procdump_def)
qed

section \<open>The input line as a queue\<close>

text \<open>\<open>n\<close> bytes of the ring from position \<open>r\<close> on.\<close>

definition ring :: "byte list \<Rightarrow> u32 \<Rightarrow> nat \<Rightarrow> byte list" where
  "ring b r n = map (\<lambda>i. b ! ((unat r + i) mod 128)) [0..<n]"

text \<open>What readers can take, and the line being edited.\<close>

definition cqueue :: "'z cst_scheme \<Rightarrow> byte list" where
  "cqueue s = ring (c_buf s) (c_r s) (unat (c_w s - c_r s))"

definition cline :: "'z cst_scheme \<Rightarrow> byte list" where
  "cline s = ring (c_buf s) (c_w s) (unat (c_e s - c_w s))"

definition cons_ok :: "'z cst_scheme \<Rightarrow> bool" where
  "cons_ok s \<longleftrightarrow> length (c_buf s) = 128 \<and> unat (c_w s - c_r s) + unat (c_e s - c_w s) \<le> 128 \<and> 10 \<notin> set (cline s)
     \<and> \<not> panicked s \<and> crt_pos s < 24 * 80"

text \<open>The abstract line editor: committed bytes and the current line.\<close>

definition line_key :: "int \<Rightarrow> byte list \<times> byte list \<Rightarrow> byte list \<times> byte list" where
  "line_key c st = (case st of (q, l) \<Rightarrow>
     if c = 16 then (q, l)
     else if c = 21 then (q, [])
     else if c = 8 \<or> c = 127 then (q, butlast l)
     else if c \<noteq> 0 \<and> length q + length l < 128 then
       (let b = (if c = 13 then 10 else word_of_int c) in
        if b = 10 \<or> b = 4 \<or> length q + length l = 127 then (q @ l @ [b], []) else (q, l @ [b]))
     else (q, l))"

lemma length_ring [simp]: "length (ring b r n) = n"
  by (simp add: ring_def)

lemma ring_neq: "(i :: nat) < d \<Longrightarrow> d < i + 128 \<Longrightarrow> (a + i) mod 128 \<noteq> (a + d) mod 128"
proof
  assume "i < d" "d < i + 128" "(a + i) mod 128 = (a + d) mod 128"
  then have "(128 :: nat) dvd (a + d) - (a + i)" using mod_eq_dvd_iff_nat [of "a + i" "a + d" 128] by simp
  with \<open>i < d\<close> \<open>d < i + 128\<close> show False by (auto dest: dvd_imp_le)
qed

lemma ring_pos: "unat (x :: u32) mod 128 = (unat r + unat (x - r)) mod 128"
proof -
  have "unat x = (unat r + unat (x - r)) mod 4294967296" using unat_word_ariths(1) [of r "x - r"] by simp
  then show ?thesis by (simp add: mod_mod_cancel)
qed

lemma ring_put:
  assumes "n \<le> unat (e - r)" "unat (e - r) < 128"
  shows "ring (b[unat e mod 128 := v]) r n = ring b r n"
proof -
  have "unat e mod 128 \<noteq> (unat r + i) mod 128" if "i < n" for i
    unfolding ring_pos [of e r] using ring_neq [of i "unat (e - r)" "unat r"] that assms by simp
  then show ?thesis by (simp add: ring_def)
qed

lemma ring_Suc: "ring b r (Suc n) = ring b r n @ [b ! ((unat r + n) mod 128)]"
  by (simp add: ring_def)

lemma unat_add_small: "unat (a :: u32) + unat b < 4294967296 \<Longrightarrow> unat (a + b) = unat a + unat b"
  by (subst unat_add_lem [THEN iffD1]) simp_all

lemma ring_append:
  assumes "unat (w - r) + m < 4294967296"
  shows "ring b r (unat (w - r) + m) = ring b r (unat (w - r)) @ ring b w m"
proof -
  have "(unat r + (unat (w - r) + i)) mod 128 = (unat w + i) mod 128" for i
    using mod_add_cong [OF ring_pos [of w r] refl, of i] by (simp add: add.assoc)
  note e = this
  show ?thesis
  proof (rule nth_equalityI)
    fix i assume "i < length (ring b r (unat (w - r) + m))"
    then have "i < unat (w - r) \<or> (\<exists>j < m. i = unat (w - r) + j)" by (auto intro: exI [of _ "i - unat (w - r)"])
    then show "ring b r (unat (w - r) + m) ! i = (ring b r (unat (w - r)) @ ring b w m) ! i"
      using e by (auto simp: ring_def nth_append)
  qed simp
qed

definition keyed :: "'z cst_scheme \<Rightarrow> 'z cst_scheme \<Rightarrow> bool" where
  "keyed s t \<longleftrightarrow> held t = held s \<and> cur t = cur s \<and> length (cqueue s) \<le> length (cqueue t)
     \<and> (procs t = map (wake_if (Some Ch_input)) (procs s) \<or> procs t = procs s \<and> length (cqueue t) = length (cqueue s))"

lemma wake_wake [simp]: "wake_if c (wake_if c p) = wake_if c p"
  by (simp add: wake_if_def)

lemma keyed_trans: "keyed s t \<Longrightarrow> keyed t u \<Longrightarrow> keyed s u"
  unfolding keyed_def by (auto simp: comp_def)

lemma line_cong:
  assumes "c_buf t = c_buf s" "c_r t = c_r s" "c_w t = c_w s"
  shows "cqueue t = cqueue s" "c_e t = c_e s \<Longrightarrow> cline t = cline s"
  using assms by (simp_all add: cqueue_def cline_def)

lemma printed_line:
  assumes "printed s t"
  shows "cqueue t = cqueue s" "cline t = cline s" "cons_ok s \<Longrightarrow> cons_ok t" "keyed s t"
proof -
  note p = printedD [OF assms]
  show q: "cqueue t = cqueue s" "cline t = cline s" using line_cong [OF p(4-6)] p(7) by simp_all
  show "cons_ok s \<Longrightarrow> cons_ok t" "keyed s t" using p q by (simp_all add: cons_ok_def keyed_def)
qed

text \<open>Dropping the last byte of the line.\<close>

lemma back_ok:
  assumes "cons_ok s" "c_e s \<noteq> c_w s"
  shows "cqueue (s\<lparr>c_e := c_e s - 1\<rparr>) = cqueue s" "cline (s\<lparr>c_e := c_e s - 1\<rparr>) = butlast (cline s)" "cons_ok (s\<lparr>c_e := c_e s - 1\<rparr>)"
    "last (cline s) = input_at s (c_e s - 1)" "cline s \<noteq> []"
proof -
  have "c_e s - c_w s \<noteq> 0" using assms(2) by simp
  then have n: "unat (c_e s - c_w s) = Suc (unat (c_e s - 1 - c_w s))"
    using unat_minus_one [of "c_e s - c_w s"] by (simp add: unat_gt_0 algebra_simps)
  have l: "cline s = cline (s\<lparr>c_e := c_e s - 1\<rparr>) @ [input_at s (c_e s - 1)]"
    using ring_pos [of "c_e s - 1" "c_w s"] by (simp add: cline_def n ring_Suc input_at_def INPUT_BUF_def unat_mod)
  show "cqueue (s\<lparr>c_e := c_e s - 1\<rparr>) = cqueue s" by (simp add: cqueue_def)
  show "cline (s\<lparr>c_e := c_e s - 1\<rparr>) = butlast (cline s)" "last (cline s) = input_at s (c_e s - 1)" "cline s \<noteq> []" by (simp_all add: l)
  show "cons_ok (s\<lparr>c_e := c_e s - 1\<rparr>)" using assms(1) n l by (simp add: cons_ok_def)
qed

lemma empty_line: "c_e s = c_w s \<longleftrightarrow> cline s = []"
proof -
  have "cline s = [] \<longleftrightarrow> unat (c_e s - c_w s) = 0" by (simp add: cline_def flip: length_0_conv)
  then show ?thesis by (simp add: unat_eq_0)
qed

lemma keyed_back: "keyed s (s\<lparr>c_e := x\<rparr>)" and keyed_refl: "keyed s s"
  by (simp_all add: keyed_def cqueue_def)

lemma kill_line_ok:
  "cons_ok s \<Longrightarrow> length (cline s) < k \<Longrightarrow> \<exists>t. kill_line k s = Ret () t \<and> cons_ok t \<and> cqueue t = cqueue s \<and> cline t = [] \<and> keyed s t"
proof (induction k arbitrary: s)
  case (Suc k)
  show ?case
  proof (cases "c_e s = c_w s")
    case True
    then have "kill_line (Suc k) s = Ret () s" by (simp add: bindK_def)
    then show ?thesis using Suc.prems(1) empty_line [of s] True keyed_refl [of s] by auto
  next
    case False
    note b = back_ok [OF Suc.prems(1) False]
    have nl: "input_at s (c_e s - 1) \<noteq> 10" using b(4,5) Suc.prems(1) last_in_set [of "cline s"] by (auto simp: cons_ok_def)
    obtain u where u: "consputc BACKSPACE (s\<lparr>c_e := c_e s - 1\<rparr>) = Ret () u" "printed (s\<lparr>c_e := c_e s - 1\<rparr>) u"
      by (rule consputc_ok [of "s\<lparr>c_e := c_e s - 1\<rparr>" BACKSPACE]) (use b(3) in \<open>simp_all add: cons_ok_def\<close>)
    note pu = printed_line [OF u(2)]
    have "0 < length (cline s)" using b(5) by simp
    then have "length (cline u) < k" using Suc.prems(2) unfolding pu(2) b(2) length_butlast by linarith
    moreover have "cons_ok u" by (rule pu(3) [OF b(3)])
    ultimately obtain t where t: "kill_line k u = Ret () t" "cons_ok t" "cqueue t = cqueue u" "cline t = []" "keyed u t" using Suc.IH by blast
    have "kill_line (Suc k) s = Ret () t" using False nl u(1) t(1) by (simp add: bindK_def)
    then show ?thesis using t pu b(1) keyed_trans [OF keyed_trans [OF keyed_back pu(4)] t(5)] by auto
  qed
qed simp

lemma total_length:
  assumes "cons_ok s"
  shows "unat (c_e s - c_r s) = length (cqueue s) + length (cline s)"
  using assms unat_add_small [of "c_w s - c_r s" "c_e s - c_w s"] by (simp add: cons_ok_def cqueue_def cline_def)

text \<open>A byte appended to the line.\<close>

lemma put_ok:
  fixes b :: byte
  assumes "cons_ok s" "unat (c_e s - c_r s) < 128"
  defines "t \<equiv> s\<lparr>c_buf := (c_buf s)[unat (c_e s mod 128) := b], c_e := c_e s + 1\<rparr>"
  shows "cqueue t = cqueue s" "cline t = cline s @ [b]" "length (cqueue t) + length (cline t) \<le> 128"
    "unat (c_e t - c_r t) = Suc (unat (c_e s - c_r s))"
proof -
  let ?e = "unat (c_e s - c_w s)"
  have tot: "unat (c_e s - c_r s) = unat (c_w s - c_r s) + ?e"
    using total_length [OF assms(1)] by (simp add: cqueue_def cline_def)
  have i: "unat (c_e s mod 128) = unat (c_e s) mod 128" by (simp add: unat_mod)
  have w: "c_e s + 1 - c_w s = (c_e s - c_w s) + 1" "c_e s + 1 - c_r s = (c_e s - c_r s) + 1" by simp_all
  have n: "unat (c_e s + 1 - c_w s) = Suc ?e" "unat (c_e s + 1 - c_r s) = Suc (unat (c_e s - c_r s))"
    unfolding w using unat_add_small [of "c_e s - c_w s" 1] unat_add_small [of "c_e s - c_r s" 1] assms(2) tot by simp_all
  show q: "cqueue t = cqueue s"
    unfolding cqueue_def t_def using ring_put [of "unat (c_w s - c_r s)" "c_e s" "c_r s"] assms(2) tot by (simp add: i)
  have "(c_buf s)[unat (c_e s) mod 128 := b] ! ((unat (c_w s) + ?e) mod 128) = b"
    using assms(1) ring_pos [of "c_e s" "c_w s"] by (simp add: cons_ok_def)
  then show l: "cline t = cline s @ [b]"
    unfolding cline_def t_def using ring_put [of ?e "c_e s" "c_w s"] assms(2) tot by (simp add: i n(1) ring_Suc)
  show "length (cqueue t) + length (cline t) \<le> 128" using tot assms(2) by (simp add: q l) (simp add: cqueue_def cline_def)
  show "unat (c_e t - c_r t) = Suc (unat (c_e s - c_r s))" using n(2) by (simp add: t_def)
qed

text \<open>The line handed over to the readers.\<close>

lemma line_commit_ok:
  assumes "unat (c_w s - c_r s) + unat (c_e s - c_w s) \<le> 128"
  shows "cqueue (s\<lparr>c_w := c_e s\<rparr>) = cqueue s @ cline s" "cline (s\<lparr>c_w := c_e s\<rparr>) = []"
proof -
  have "unat (c_e s - c_r s) = unat (c_w s - c_r s) + unat (c_e s - c_w s)"
    using assms unat_add_small [of "c_w s - c_r s" "c_e s - c_w s"] by simp
  then show "cqueue (s\<lparr>c_w := c_e s\<rparr>) = cqueue s @ cline s" "cline (s\<lparr>c_w := c_e s\<rparr>) = []"
    using ring_append [of "c_w s" "c_r s" "unat (c_e s - c_w s)" "c_buf s"] assms by (simp_all add: cqueue_def cline_def ring_def [of _ _ 0])
qed

lemma byte_of_code:
  assumes "0 \<le> c" "c < 256"
  shows "(word_of_int c :: byte) = 10 \<longleftrightarrow> c = 10" "(word_of_int c :: byte) = 4 \<longleftrightarrow> c = 4"
proof -
  have "word_of_int c = (word_of_int d :: byte) \<longleftrightarrow> c = d" if "0 \<le> d" "d < 256" for d
    using assms that by (simp add: word_of_int_eq_iff take_bit_int_eq_self)
  from this [of 10] this [of 4] show "(word_of_int c :: byte) = 10 \<longleftrightarrow> c = 10" "(word_of_int c :: byte) = 4 \<longleftrightarrow> c = 4" by simp_all
qed

lemma console_char_ok:
  assumes ok: "cons_ok s" and c: "0 \<le> c0" "c0 < 256" "c0 \<notin> {16, 21, 8, 127}" and pt: "L_ptable \<notin> set (held s)"
  shows "\<exists>t. console_char c0 s = Ret () t \<and> cons_ok t \<and> (cqueue t, cline t) = line_key c0 (cqueue s, cline s) \<and> keyed s t"
proof -
  define c where "c = (if c0 = 13 then 10 else c0)"
  define b where "b = (word_of_int c :: byte)"
  have cr: "0 \<le> c" "c < 256" using c by (simp_all add: c_def)
  have be: "b = (if c0 = 13 then 10 else word_of_int c0)" by (simp add: b_def c_def)
  have bc: "b = 10 \<longleftrightarrow> c = 10" "b = 4 \<longleftrightarrow> c = 4" using byte_of_code [OF cr] by (simp_all add: b_def)
  have room: "c_e s - c_r s < of_nat INPUT_BUF \<longleftrightarrow> length (cqueue s) + length (cline s) < 128"
    by (simp add: INPUT_BUF_def word_less_nat_alt flip: total_length [OF ok])
  show ?thesis
  proof (cases "c0 \<noteq> 0 \<and> length (cqueue s) + length (cline s) < 128")
    case False
    then have "console_char c0 s = Ret () s" "line_key c0 (cqueue s, cline s) = (cqueue s, cline s)"
      using c(3) room by (auto simp: console_char_def line_key_def bindK_def)
    then show ?thesis using ok keyed_refl by auto
  next
    case True
    define u where "u = s\<lparr>c_buf := (c_buf s)[unat (c_e s mod 128) := b], c_e := c_e s + 1\<rparr>"
    have less: "unat (c_e s - c_r s) < 128" using True total_length [OF ok] by simp
    note p = put_ok [OF ok less, of b, folded u_def]
    have ku: "keyed s u" using p(1) by (simp add: keyed_def) (simp add: u_def)
    obtain v where v: "consputc c u = Ret () v" "printed u v"
      by (rule consputc_ok [of u c]) (use ok in \<open>simp_all add: cons_ok_def u_def\<close>)
    note pv = printed_line [OF v(2)] and dv = printedD [OF v(2)]
    have sz: "unat (c_w v - c_r v) + unat (c_e v - c_w v) \<le> 128" using p(3) dv(4-7) by (simp add: cqueue_def cline_def)
    have vf: "length (c_buf v) = 128" "\<not> panicked v" "crt_pos v < 24 * 80" "held v = held s"
      using ok dv by (simp_all add: cons_ok_def u_def)
    define cm where "cm \<longleftrightarrow> b = 10 \<or> b = 4 \<or> length (cqueue s) + length (cline s) = 127"
    have "c_e v = c_r v + 128 \<longleftrightarrow> c_e v - c_r v = 128" by (simp add: algebra_simps)
    also have "\<dots> \<longleftrightarrow> unat (c_e v - c_r v) = 128" by (simp add: word_unat_eq_iff)
    finally have full: "c_e v = c_r v + 128 \<longleftrightarrow> length (cqueue s) + length (cline s) = 127"
      using p(4) dv(5,7) total_length [OF ok] by simp
    have run: "console_char c0 s = (if cm then Ret () (v\<lparr>c_w := c_e v, procs := map (wake_if (Some Ch_input)) (procs v)\<rparr>) else Ret () v)"
      using True room v(1) pt vf(4) full bc
      by (simp add: console_char_def bindK_def seqK_def INPUT_BUF_def Let_def cm_def u_def b_def wakeup_eq flip: c_def)
    have lk: "line_key c0 (cqueue s, cline s) = (if cm then (cqueue s @ cline s @ [b], []) else (cqueue s, cline s @ [b]))"
      using True c(3) by (simp add: line_key_def Let_def cm_def be)
    show ?thesis
    proof (cases cm)
      case False
      then have "cons_ok v" using sz vf ok pv(2) p(2) by (auto simp: cons_ok_def cm_def)
      then show ?thesis using False run lk pv p keyed_trans [OF ku pv(4)] by simp
    next
      case cm: True
      let ?t = "v\<lparr>c_w := c_e v, procs := map (wake_if (Some Ch_input)) (procs v)\<rparr>"
      have t: "cqueue ?t = cqueue s @ cline s @ [b]" "cline ?t = []"
        using line_commit_ok [OF sz] pv(1,2) p(1,2) by (simp_all add: cqueue_def cline_def)
      have n: "unat (c_e v - c_r v) \<le> 128" using p(4) less dv(5,7) by simp
      have "cons_ok ?t" using vf t(2) n by (simp add: cons_ok_def)
      moreover have "keyed s ?t" unfolding keyed_def t(1) using dv by (simp add: u_def)
      ultimately show ?thesis using cm run lk t by simp
    qed
  qed
qed

lemma console_key_ok:
  assumes "cons_ok s" "0 \<le> c" "c < 256" "L_ptable \<notin> set (held s)"
  shows "\<exists>t. console_key c s = Ret () t \<and> cons_ok t \<and> (cqueue t, cline t) = line_key c (cqueue s, cline s) \<and> keyed s t"
proof -
  have len: "length (cline s) < INPUT_BUF + 1" using assms(1) by (simp add: cons_ok_def cline_def INPUT_BUF_def)
  consider "c = 16" | "c = 21" | "c = 8 \<or> c = 127" | "c \<notin> {16, 21, 8, 127}" by blast
  then show ?thesis
  proof cases
    case 1
    then show ?thesis using assms(1) keyed_refl by (simp add: console_key_def line_key_def)
  next
    case 2
    then show ?thesis using kill_line_ok [OF assms(1) len] by (simp add: console_key_def line_key_def)
  next
    case 3
    then have lk: "line_key c (cqueue s, cline s) = (cqueue s, butlast (cline s))" by (auto simp: line_key_def)
    show ?thesis
    proof (cases "c_e s = c_w s")
      case True
      then have "console_key c s = Ret () s" using 3 by (auto simp: console_key_def bindK_def)
      then show ?thesis using assms(1) True lk keyed_refl empty_line [of s] by auto
    next
      case False
      note b = back_ok [OF assms(1) False]
      obtain u where u: "consputc BACKSPACE (s\<lparr>c_e := c_e s - 1\<rparr>) = Ret () u" "printed (s\<lparr>c_e := c_e s - 1\<rparr>) u"
        by (rule consputc_ok [of "s\<lparr>c_e := c_e s - 1\<rparr>" BACKSPACE]) (use b(3) in \<open>simp_all add: cons_ok_def\<close>)
      note pu = printed_line [OF u(2)]
      have "console_key c s = Ret () u" using 3 False u(1) by (auto simp: console_key_def bindK_def)
      then show ?thesis using pu(1,2) pu(3) [OF b(3)] b(1,2) lk keyed_trans [OF keyed_back pu(4)] by simp
    qed
  next
    case 4
    then have "console_key c s = console_char c s" by (simp add: console_key_def)
    then show ?thesis using console_char_ok [OF assms(1-3) 4 assms(4)] by simp
  qed
qed

lemma console_keys_ok:
  "cons_ok s \<Longrightarrow> \<forall>c \<in> set cs. 0 \<le> c \<and> c < 256 \<Longrightarrow> L_ptable \<notin> set (held s) \<Longrightarrow>
   \<exists>t. forK cs console_key s = Ret () t \<and> cons_ok t \<and> (cqueue t, cline t) = fold line_key cs (cqueue s, cline s) \<and> keyed s t"
proof (induction cs arbitrary: s)
  case Nil
  then show ?case by (simp add: keyed_refl)
next
  case (Cons c cs)
  obtain u where u: "console_key c s = Ret () u" "cons_ok u" "(cqueue u, cline u) = line_key c (cqueue s, cline s)" "keyed s u"
    using console_key_ok [OF Cons.prems(1) _ _ Cons.prems(3), of c] Cons.prems(2) by auto
  have "L_ptable \<notin> set (held u)" using u(4) Cons.prems(3) by (simp add: keyed_def)
  with Cons.IH [OF u(2)] Cons.prems(2) obtain t where t: "forK cs console_key u = Ret () t" "cons_ok t"
    "(cqueue t, cline t) = fold line_key cs (cqueue u, cline u)" "keyed u t" by auto
  then show ?case using u(1,3) keyed_trans [OF u(4) t(4)] by simp
qed

text \<open>
  C26. The console interrupt handler is a line editor. Whatever the keys and however often the indices
  wrap, the bytes for readers and the line being typed are those of the abstract editor: a key
  appends, backspace and control-U edit only the unfinished line, a newline, control-D or a full buffer
  of 128 bytes hands the line over, input beyond that is dropped. It never panics, keeps the locks, and
  whenever readers get new bytes it has woken everyone who sleeps on the input.
\<close>

theorem console_line_discipline:
  assumes "cons_ok s" "L_cons \<notin> set (held s)" "L_ptable \<notin> set (held s)" "\<forall>c \<in> set cs. 0 \<le> c \<and> c < 256"
  shows "\<exists>t. consoleintr pcs cs s = Ret () t \<and> cons_ok t \<and> (cqueue t, cline t) = fold line_key cs (cqueue s, cline s) \<and> keyed s t"
proof -
  let ?s = "s\<lparr>held := L_cons # held s\<rparr>"
  have h: "cons_ok ?s" "cqueue ?s = cqueue s" "cline ?s = cline s" "L_ptable \<notin> set (held ?s)"
    using assms by (simp_all add: cons_ok_def cqueue_def cline_def)
  obtain u where u: "forK cs console_key ?s = Ret () u" "cons_ok u" "(cqueue u, cline u) = fold line_key cs (cqueue s, cline s)" "keyed ?s u"
    using console_keys_ok [OF h(1) assms(4) h(4)] unfolding h(2,3) by blast
  let ?v = "u\<lparr>held := held s\<rparr>"
  have v: "cons_ok ?v" "cqueue ?v = cqueue u" "cline ?v = cline u" using u(2) by (simp_all add: cons_ok_def cqueue_def cline_def)
  have kv: "keyed s ?v" using u(4) by (simp add: keyed_def cqueue_def)
  obtain t where t: "(if 16 \<in> set cs then procdump pcs else ret ()) ?v = Ret () t" "printed ?v t"
  proof (cases "16 \<in> set cs")
    case True
    have "\<not> panicked ?v" "crt_pos ?v < 24 * 80" "L_cons \<notin> set (held ?v)" using v(1) assms(2) by (simp_all add: cons_ok_def)
    from procdump_ok [OF this, of pcs] that True show ?thesis by auto
  next
    case False
    have "crt_pos ?v < 24 * 80" using v(1) by (simp add: cons_ok_def)
    from printed_refl [OF this] show ?thesis using that [of ?v] False by simp
  qed
  have "held u = L_cons # held s" using u(4) by (simp add: keyed_def)
  then have "consoleintr pcs cs s = Ret () t" using assms(2) u(1) t(1) by (simp add: consoleintr_def lock_simps)
  then show ?thesis
    using printed_line [OF t(2)] v u(3) keyed_trans [OF kv] by simp
qed

definition idle_con :: cst where
  "idle_con = demo_con (demo_fs demo_disk []) []"

lemma idle_con_ok:
  "cons_ok idle_con" "held idle_con = []" "cqueue idle_con = []" "cline idle_con = []"
  by (simp_all add: idle_con_def demo_con_defs cons_ok_def cqueue_def cline_def ring_def)

theorem console_line_discipline_witness:
  "\<exists>t. consoleintr (\<lambda>_. []) [104, 106, 8, 105, 13, 120] idle_con = Ret () t \<and> cqueue t = [104, 105, 10] \<and> cline t = [120]"
proof -
  let ?cs = "[104, 106, 8, 105, 13, 120] :: int list"
  have "L_cons \<notin> set (held idle_con)" "L_ptable \<notin> set (held idle_con)" "\<forall>c \<in> set ?cs. 0 \<le> c \<and> c < 256"
    by (simp_all add: idle_con_ok(2))
  from console_line_discipline [OF idle_con_ok(1) this, of "\<lambda>_. []"] obtain t where
    "consoleintr (\<lambda>_. []) ?cs idle_con = Ret () t" "(cqueue t, cline t) = fold line_key ?cs ([], [])"
    unfolding idle_con_ok(3,4) by blast
  moreover have "fold line_key ?cs ([], []) = ([104, 105, 10], [120])" by (simp add: line_key_def)
  ultimately show ?thesis by simp
qed

text \<open>
  What a reader of \<open>n\<close> bytes takes from the queue: up to a newline, which it gets, or a control-D, which ends
  the read and stays in the queue unless the read has got nothing yet; \<open>None\<close> when it has to wait.
\<close>

fun line_read :: "nat \<Rightarrow> byte list \<Rightarrow> byte list \<Rightarrow> (byte list \<times> byte list) option" where
  "line_read 0 acc q = Some (acc, q)"
| "line_read (Suc n) acc [] = None"
| "line_read (Suc n) acc (c # q) =
     (if c = 4 then Some (acc, if acc = [] then q else c # q)
      else if c = 10 then Some (acc @ [c], q)
      else line_read n (acc @ [c]) q)"

text \<open>Taking one byte.\<close>

lemma get_ok:
  assumes "cons_ok s" "c_r s \<noteq> c_w s"
  shows "cqueue s = input_at s (c_r s) # cqueue (s\<lparr>c_r := c_r s + 1\<rparr>)" "cline (s\<lparr>c_r := c_r s + 1\<rparr>) = cline s" "cons_ok (s\<lparr>c_r := c_r s + 1\<rparr>)"
proof -
  have "c_w s - c_r s \<noteq> 0" using assms(2) by simp
  then have n: "unat (c_w s - c_r s) = Suc (unat (c_w s - (c_r s + 1)))"
    using unat_minus_one [of "c_w s - c_r s"] by (simp add: unat_gt_0 algebra_simps)
  have "(unat (c_r s + 1) + i) mod 128 = (unat (c_r s) + Suc i) mod 128" for i
  proof -
    have "unat (c_r s + 1) mod 128 = (unat (c_r s) + 1) mod 128" using ring_pos [of "c_r s + 1" "c_r s"] by simp
    from mod_add_cong [OF this refl, of i] show ?thesis by simp
  qed
  then show "cqueue s = input_at s (c_r s) # cqueue (s\<lparr>c_r := c_r s + 1\<rparr>)"
    by (simp add: cqueue_def n ring_def input_at_def INPUT_BUF_def unat_mod map_upt_Suc del: upt_Suc)
  show l: "cline (s\<lparr>c_r := c_r s + 1\<rparr>) = cline s" by (simp add: cline_def)
  then show "cons_ok (s\<lparr>c_r := c_r s + 1\<rparr>)" using assms(1) n by (simp add: cons_ok_def)
qed

lemma empty_queue: "c_r s = c_w s \<longleftrightarrow> cqueue s = []"
proof -
  have "cqueue s = [] \<longleftrightarrow> unat (c_w s - c_r s) = 0" by (simp add: cqueue_def flip: length_0_conv)
  then show ?thesis by (auto simp: unat_eq_0)
qed

text \<open>The loop, up to the release of \<^verbatim>\<open>cons.lock\<close> or the call of \<^verbatim>\<open>sleep\<close>.\<close>

lemma consoleread_loop_queue:
  assumes "cons_ok s"
  shows "case line_read n acc (cqueue s) of
      Some (acc', q) \<Rightarrow> \<exists>r. consoleread_loop ip n acc s = consoleread_done ip acc' (s\<lparr>c_r := r\<rparr>)
        \<and> cqueue (s\<lparr>c_r := r\<rparr>) = q \<and> cline (s\<lparr>c_r := r\<rparr>) = cline s \<and> cons_ok (s\<lparr>c_r := r\<rparr>)
    | None \<Rightarrow> consoleread_loop ip n acc s =
        (bindK am_killed (\<lambda>k. if k then seqK (rel L_cons) (seqK (ilock ip) (ret (-1, acc @ cqueue s)))
           else sleep_on Ch_input L_cons)) (s\<lparr>c_r := c_w s\<rparr>)"
  using assms
proof (induction n arbitrary: acc s)
  case 0
  then show ?case by (auto intro!: exI [of _ "c_r s"])
next
  case (Suc n)
  show ?case
  proof (cases "c_r s = c_w s")
    case True
    have e: "s\<lparr>c_r := c_w s\<rparr> = s" "cqueue s = []" using True [symmetric] empty_queue [of s] by simp_all
    show ?thesis unfolding e append_Nil2 using True by (simp add: bindK_def)
  next
    case False
    note g = get_ok [OF Suc.prems False]
    let ?u = "s\<lparr>c_r := c_r s + 1\<rparr>"
    consider "input_at s (c_r s) = 4" | "input_at s (c_r s) = 10" | "input_at s (c_r s) \<noteq> 4" "input_at s (c_r s) \<noteq> 10" by blast
    then show ?thesis
    proof cases
      case 1
      have "consoleread_loop ip (Suc n) acc s = consoleread_done ip acc (s\<lparr>c_r := (if acc = [] then c_r s + 1 else c_r s)\<rparr>)"
        using False 1 by (simp add: bindK_def seqK_def)
      then show ?thesis using g 1 Suc.prems by (auto simp: g(1) intro!: exI [of _ "if acc = [] then c_r s + 1 else c_r s"])
    next
      case 2
      then show ?thesis using False g by (auto simp: g(1) bindK_def seqK_def intro!: exI [of _ "c_r s + 1"])
    next
      case 3
      have run: "consoleread_loop ip (Suc n) acc s = consoleread_loop ip n (acc @ [input_at s (c_r s)]) ?u"
        using False 3 by (simp add: bindK_def seqK_def)
      have lr: "line_read (Suc n) acc (cqueue s) = line_read n (acc @ [input_at s (c_r s)]) (cqueue ?u)" using 3 by (simp add: g(1))
      have up: "?u\<lparr>c_r := r\<rparr> = s\<lparr>c_r := r\<rparr>" "c_w ?u = c_w s" "cline ?u = cline s" for r by (simp_all add: g(2))
      have ap: "(acc @ [input_at s (c_r s)]) @ cqueue ?u = acc @ cqueue s" by (simp add: g(1))
      show ?thesis using Suc.IH [OF g(3), of "acc @ [input_at s (c_r s)]"] unfolding run lr up ap .
    qed
  qed
qed

text \<open>Letting go of an inode around the wait, and locking it again: it stays loaded.\<close>

lemma iunlock_quiet:
  assumes "quiet s" "ilocked s ip" "1 \<le> i_ref (inode_at ip s)"
  shows "iunlock ip s = Ret () (s\<lparr>slk := (slk s)(SL_inode ip := \<lparr>sl_locked = False, sl_pid = 0\<rparr>),
    procs := map (wake_if (Some (Ch_sleep (SL_inode ip)))) (procs s)\<rparr>)"
proof -
  have "holdingsleep (SL_inode ip) s = Ret True s" using holding_inode [OF assms(1)] assms(2) by (simp add: ilocked_def)
  then show ?thesis using assms(3) by (simp add: iunlock_def releasesleep_quiet [OF assms(1)])
qed

lemma ilock_loaded:
  assumes "quiet s" "\<not> sl_locked (slk s (SL_inode ip))" "1 \<le> i_ref (inode_at ip s)" "i_valid (inode_at ip s)"
  shows "ilock ip s = Ret () (s\<lparr>slk := (slk s)(SL_inode ip := \<lparr>sl_locked = True, sl_pid = curpid s\<rparr>)\<rparr>)"
  using assms by (simp add: ilock_def acquiresleep_quiet iload_def inode_at_def)

text \<open>
  How a read that has copied \<open>acc\<close> and wants \<open>n\<close> more bytes ends in a state whose queue and line are
  those of \<open>s\<close>: with the bytes \<open>line_read\<close> takes, with -1 when the process was killed, or asleep.
\<close>

definition read_outcome :: "nat \<Rightarrow> nat \<Rightarrow> nat \<Rightarrow> byte list \<Rightarrow> 'z cst_scheme \<Rightarrow> (int \<times> byte list, 'z cst_scheme) out \<Rightarrow> bool" where
  "read_outcome p ip n acc s r \<longleftrightarrow> (case line_read n acc (cqueue s) of
     Some (acc', q) \<Rightarrow> \<exists>t. r = Ret (int (length acc'), acc') t \<and> cqueue t = q \<and> cline t = cline s \<and> cons_ok t
       \<and> held t = [] \<and> ilocked t ip
   | None \<Rightarrow>
       if p_killed (proc_at p s) then
         \<exists>t. r = Ret (- 1, acc @ cqueue s) t \<and> cqueue t = [] \<and> cline t = cline s \<and> cons_ok t \<and> held t = [] \<and> ilocked t ip
       else
         \<exists>t. r = Swtch t \<and> cqueue t = [] \<and> cline t = cline s \<and> cons_ok t \<and> held t = [L_ptable]
           \<and> p_state (proc_at p t) = SLEEPING \<and> p_chan (proc_at p t) = Some Ch_input
           \<and> \<not> sl_locked (slk t (SL_inode ip)) \<and> log_outstanding t = log_outstanding s)"

lemma cons_other [simp]:
  "cqueue (s\<lparr>held := h\<rparr>) = cqueue s" "cline (s\<lparr>held := h\<rparr>) = cline s" "cons_ok (s\<lparr>held := h\<rparr>) = cons_ok s"
  "cqueue (s\<lparr>slk := l\<rparr>) = cqueue s" "cline (s\<lparr>slk := l\<rparr>) = cline s" "cons_ok (s\<lparr>slk := l\<rparr>) = cons_ok s"
  "cqueue (s\<lparr>procs := ps\<rparr>) = cqueue s" "cline (s\<lparr>procs := ps\<rparr>) = cline s" "cons_ok (s\<lparr>procs := ps\<rparr>) = cons_ok s"
  by (simp_all add: cqueue_def cline_def cons_ok_def)

lemma read_outcome_cong:
  assumes "cqueue v = cqueue s" "cline v = cline s" "p_killed (proc_at p v) = p_killed (proc_at p s)"
    "log_outstanding v = log_outstanding s"
  shows "read_outcome p ip n acc v r = read_outcome p ip n acc s r"
  unfolding read_outcome_def assms ..

lemma drained:
  assumes "cons_ok s"
  shows "cqueue (s\<lparr>c_r := c_w s\<rparr>) = []" "cline (s\<lparr>c_r := c_w s\<rparr>) = cline s" "cons_ok (s\<lparr>c_r := c_w s\<rparr>)"
  using assms by (auto simp: cqueue_def cline_def cons_ok_def ring_def)

lemma relock:
  fixes s :: "'z cst_scheme"
  assumes "held s = [L_cons]" "cur s = Some p" "p < length (procs s)" "\<not> sl_locked (slk s (SL_inode ip))"
    "1 \<le> i_ref (inode_at ip s)" "i_valid (inode_at ip s)" "cons_ok s"
  shows "\<exists>t. seqK (rel L_cons) (seqK (ilock ip) (ret v)) s = Ret v t \<and> cqueue t = cqueue s \<and> cline t = cline s \<and> cons_ok t
    \<and> held t = [] \<and> ilocked t ip"
proof -
  let ?u = "s\<lparr>held := []\<rparr>"
  have q: "quiet ?u" using assms(2,3) by (simp add: quiet_def)
  have "ilock ip ?u = Ret () (?u\<lparr>slk := (slk ?u)(SL_inode ip := \<lparr>sl_locked = True, sl_pid = curpid ?u\<rparr>)\<rparr>)"
    by (rule ilock_loaded [OF q]) (use assms in \<open>simp_all add: inode_at_def\<close>)
  then show ?thesis using assms(1,7) by (simp add: lock_simps ilocked_def curpid_def proc_at_def)
qed

lemma consoleread_loop_ok:
  fixes s :: "'z cst_scheme"
  assumes s: "cons_ok s" "held s = [L_cons]" "cur s = Some p" "p < length (procs s)" "\<not> sl_locked (slk s (SL_inode ip))"
    "1 \<le> i_ref (inode_at ip s)" "i_valid (inode_at ip s)"
  shows "read_outcome p ip n acc s (consoleread_loop ip n acc s)"
proof (cases "line_read n acc (cqueue s)")
  case (Some r)
  obtain acc' q where r: "r = (acc', q)" by (cases r)
  from consoleread_loop_queue [OF s(1), where n = n and acc = acc and ip = ip] obtain w where
    w: "consoleread_loop ip n acc s = consoleread_done ip acc' (s\<lparr>c_r := w\<rparr>)" "cqueue (s\<lparr>c_r := w\<rparr>) = q"
      "cline (s\<lparr>c_r := w\<rparr>) = cline s" "cons_ok (s\<lparr>c_r := w\<rparr>)"
    by (auto simp: Some r)
  have "inode_at ip (s\<lparr>c_r := w\<rparr>) = inode_at ip s" by (simp add: inode_at_def)
  then show ?thesis
    using relock [of "s\<lparr>c_r := w\<rparr>" p ip "(int (length acc'), acc')"] s w by (simp add: read_outcome_def Some r consoleread_done_def)
next
  case None
  let ?u = "s\<lparr>c_r := c_w s\<rparr>"
  note d = drained [OF s(1)]
  have at: "inode_at ip ?u = inode_at ip s" "proc_at p ?u = proc_at p s" by (simp_all add: inode_at_def proc_at_def)
  have run: "consoleread_loop ip n acc s = (if p_killed (proc_at p s)
      then seqK (rel L_cons) (seqK (ilock ip) (ret (- 1, acc @ cqueue s))) ?u else sleep_on Ch_input L_cons ?u)"
    using consoleread_loop_queue [OF s(1), where n = n and acc = acc and ip = ip] s(3) at(2)
    by (simp add: None am_killed_def bindK_def)
  show ?thesis
  proof (cases "p_killed (proc_at p s)")
    case True
    then show ?thesis
      using relock [of ?u p ip "(- 1, acc @ cqueue s)"] s d at by (simp add: read_outcome_def None run)
  next
    case False
    have "(sleep_on Ch_input L_cons :: ('z cst_scheme, int \<times> byte list) kop) ?u = Swtch (?u\<lparr>held := [L_ptable],
        procs := upd_at p (\<lambda>q. q\<lparr>p_chan := Some Ch_input, p_state := SLEEPING\<rparr>) (procs ?u)\<rparr>)"
      using s by (simp add: sleep_on_def sleep_Swtch)
    with False show ?thesis using s d by (simp add: read_outcome_def None run proc_at_def)
  qed
qed

text \<open>
  C27. Reading from the console, with the device's inode locked by the caller and no lock held. With a
  line or an end of file in the queue, \<^verbatim>\<open>consoleread\<close> returns exactly the bytes \<open>line_read\<close> takes and
  leaves the rest for later reads, and the line being edited alone; the inode is locked again and
  \<^verbatim>\<open>cons.lock\<close> released. Otherwise it takes what there is; a killed process then gets -1, any
  other goes to sleep on the input with \<^verbatim>\<open>cons.lock\<close> released and the inode unlocked, but with the
  file system operations that were open before still open, and when it is switched to again it goes
  on with what has arrived in the same way.
\<close>

theorem consoleread_takes_line:
  fixes s :: "'z cst_scheme"
  assumes "cons_ok s" "cur s = Some p" "p < length (procs s)" "1 \<le> i_ref (inode_at ip s)" "i_valid (inode_at ip s)"
  shows "(held s = [] \<and> ilocked s ip \<longrightarrow> read_outcome p ip (nat n) [] s (consoleread ip n s))
    \<and> (held s = [L_ptable] \<and> \<not> sl_locked (slk s (SL_inode ip)) \<longrightarrow>
         read_outcome p ip m acc s (consoleread_resume p ip m acc s))"
proof (intro conjI impI; elim conjE)
  assume h: "held s = []" "ilocked s ip"
  let ?u = "s\<lparr>slk := (slk s)(SL_inode ip := \<lparr>sl_locked = False, sl_pid = 0\<rparr>),
    procs := map (wake_if (Some (Ch_sleep (SL_inode ip)))) (procs s)\<rparr>"
  let ?v = "?u\<lparr>held := [L_cons]\<rparr>"
  have "quiet s" using assms(2,3) h(1) by (simp add: quiet_def)
  then have "consoleread ip n s = consoleread_loop ip (nat n) [] ?v"
    using h by (simp add: consoleread_def iunlock_quiet assms(4) lock_simps)
  moreover have "read_outcome p ip (nat n) [] ?v (consoleread_loop ip (nat n) [] ?v)"
    by (rule consoleread_loop_ok) (use assms in \<open>simp_all add: inode_at_def\<close>)
  moreover have "read_outcome p ip (nat n) [] ?v r = read_outcome p ip (nat n) [] s r" for r
    by (rule read_outcome_cong) (use assms(3) in \<open>simp_all add: proc_at_def wake_if_def\<close>)
  ultimately show "read_outcome p ip (nat n) [] s (consoleread ip n s)" by simp
next
  assume h: "held s = [L_ptable]" "\<not> sl_locked (slk s (SL_inode ip))"
  let ?v = "s\<lparr>held := [L_cons], procs := upd_at p (\<lambda>q. q\<lparr>p_chan := None\<rparr>) (procs s)\<rparr>"
  have "consoleread_resume p ip m acc s = consoleread_loop ip m acc ?v"
    using h(1) by (simp add: consoleread_resume_def sleep_resume_eq)
  moreover have "read_outcome p ip m acc ?v (consoleread_loop ip m acc ?v)"
    by (rule consoleread_loop_ok) (use assms h in \<open>simp_all add: inode_at_def\<close>)
  moreover have "read_outcome p ip m acc ?v r = read_outcome p ip m acc s r" for r
    by (rule read_outcome_cong) (use assms(3) in \<open>simp_all add: proc_at_def\<close>)
  ultimately show "read_outcome p ip m acc s (consoleread_resume p ip m acc s)" by simp
qed

text \<open>The console's inode, locked by the running process, with a line in the queue.\<close>

definition reader_con :: cst where
  "reader_con = (demo_con (demo_fs demo_disk [demo_inode]) [])
     \<lparr>c_buf := [104, 105, 10] @ replicate 125 0, c_w := 3, c_e := 3,
      slk := (\<lambda>_. \<lparr>sl_locked = False, sl_pid = 0\<rparr>)(SL_inode 0 := \<lparr>sl_locked = True, sl_pid = 1\<rparr>)\<rparr>"

theorem consoleread_takes_line_witness:
  "\<exists>t. consoleread 0 5 reader_con = Ret (3, [104, 105, 10]) t \<and> cqueue t = [] \<and> ilocked t 0"
proof -
  have d: "procs reader_con = [demo_proc 1 RUNNING, demo_proc 2 RUNNABLE]" "cur reader_con = Some 0" "held reader_con = []"
    "icache reader_con = [demo_inode]" "c_r reader_con = 0" "c_w reader_con = 3" "c_e reader_con = 3"
    "c_buf reader_con = [104, 105, 10] @ replicate 125 0" "\<not> panicked reader_con" "crt_pos reader_con = 0"
    by (simp_all add: reader_con_def demo_con_defs demo_fs_def lst.defs rebooted_def bst.defs booted_def)
  have up: "[0..<3] = [0, 1, 2 :: nat]" by code_simp
  have q: "cqueue reader_con = [104, 105, 10]" "cline reader_con = []" "cons_ok reader_con"
    by (simp_all add: cqueue_def cline_def cons_ok_def ring_def d up)
  have il: "ilocked reader_con 0" by (simp add: ilocked_def curpid_def proc_at_def d demo_proc_def) (simp add: reader_con_def)
  have p: "0 < length (procs reader_con)" "1 \<le> i_ref (inode_at 0 reader_con)" "i_valid (inode_at 0 reader_con)"
    by (simp_all add: d inode_at_def demo_inode_def)
  have l: "line_read 5 [] [104, 105, 10] = Some ([104, 105, 10], [])" by code_simp
  show ?thesis
    using consoleread_takes_line [OF q(3) d(2) p, of 5] d(3) il by (auto simp: read_outcome_def q(1) l)
qed

end
