(* ===== verification/Syscall.thy ===== *)
theory Syscall
  imports Console Proc
begin

text \<open>
  The process calls of sysproc.c, the call of prac_syscall.c, and the second half of syscall.c: the table
  of system calls and the dispatcher. The scheduling policy of the build is an argument. A call that goes
  to sleep ends in \<open>Swtch\<close>; its return value is stored when it is resumed.
\<close>

section \<open>sysproc.c\<close>

definition sys_fork :: "policy \<Rightarrow> ('z cst_scheme, int) kop" where
  "sys_fork pol = fork pol"

definition sys_fork2 :: "policy \<Rightarrow> ('z cst_scheme, int) kop" where
  "sys_fork2 pol = bindK (argstr 0) (\<lambda>a. case a of None \<Rightarrow> ret (-1) | Some username \<Rightarrow> fork2 pol username)"

definition sys_exit :: "('z cst_scheme, int) kop" where
  "sys_exit = seqK exit_proc (ret 0)"

definition sys_wait :: "('z cst_scheme, int) kop" where
  "sys_wait = wait"

definition sys_kill :: "('z cst_scheme, int) kop" where
  "sys_kill = bindK (argint 0) (\<lambda>a. case a of None \<Rightarrow> ret (-1) | Some pid \<Rightarrow> kill (sint pid))"

definition sys_getpid :: "('z cst_scheme, int) kop" where
  "sys_getpid = bindK myproc (\<lambda>p. gets (\<lambda>s. p_pid (proc_at p s)))"

definition sys_sbrk :: "('z cst_scheme, int) kop" where
  "sys_sbrk =
     bindK (argint 0) (\<lambda>a. case a of None \<Rightarrow> ret (-1) | Some n \<Rightarrow>
     bindK cur_sz (\<lambda>addr.
     bindK (growproc (sint n)) (\<lambda>r.
     if r < 0 then ret (-1) else ret (sint addr))))"

text \<open>The loop of \<^verbatim>\<open>sys_sleep\<close>; \<open>n\<close> is compared as an unsigned number.\<close>

definition sleep_test :: "policy \<Rightarrow> u32 \<Rightarrow> u32 \<Rightarrow> ('z cst_scheme, int) kop" where
  "sleep_test pol ticks0 n =
     bindK (gets ticks) (\<lambda>now.
     if now - ticks0 < n then
       bindK am_killed (\<lambda>k.
       if k then seqK (rel L_ticks) (ret (-1))
       else seqK (if is_mlfq pol then sleep_mlfq pol Ch_ticks L_ticks else sleep Ch_ticks L_ticks) (panic ''sleep returned''))
     else seqK (rel L_ticks) (ret 0))"

definition sys_sleep :: "policy \<Rightarrow> ('z cst_scheme, int) kop" where
  "sys_sleep pol =
     bindK (argint 0) (\<lambda>a. case a of None \<Rightarrow> ret (-1) | Some n \<Rightarrow>
     seqK (acq L_ticks)
     (bindK (gets ticks) (\<lambda>ticks0. sleep_test pol ticks0 n)))"

definition sys_sleep_resume :: "policy \<Rightarrow> nat \<Rightarrow> u32 \<Rightarrow> u32 \<Rightarrow> ('z cst_scheme, int) kop" where
  "sys_sleep_resume pol me ticks0 n = seqK (sleep_resume me L_ticks) (sleep_test pol ticks0 n)"

definition sys_uptime :: "('z cst_scheme, int) kop" where
  "sys_uptime =
     seqK (acq L_ticks)
     (bindK (gets ticks) (\<lambda>xticks.
     seqK (rel L_ticks)
     (ret (sint xticks))))"

definition sys_getppid :: "('z cst_scheme, int) kop" where
  "sys_getppid =
     bindK myproc (\<lambda>p.
     bindK (gets (\<lambda>s. p_parent (proc_at p s))) (\<lambda>pp.
     bindK (nonnull ''trap'' pp) (\<lambda>pp.
     gets (\<lambda>s. p_pid (proc_at pp s)))))"

text \<open>The first round of the endless loop of \<^verbatim>\<open>sys_test\<close>.\<close>

definition sys_test :: "('z cst_scheme, int) kop" where
  "sys_test =
     bindK myproc (\<lambda>me.
     bindK (gets (\<lambda>s. (ticks s, proc_at me s))) (\<lambda>(t, p).
     seqK (kprint (cprintf (proc_strings p) (lit ''ticks = %d, pid = %d, name = %s'' @ [10]) (\<lambda>k. [t, word_of_int (p_pid p), 2] ! k)))
     (\<lambda>s. Spin s)))"

text \<open>\<^verbatim>\<open>sys_yield\<close> is declared \<^verbatim>\<open>void\<close>: what its caller stores as the result is undefined.\<close>

definition sys_yield :: "policy \<Rightarrow> ('z cst_scheme, int) kop" where
  "sys_yield pol = seqK (if is_mlfq pol then yield_mlfq pol else yield) (panic ''undefined: result of sys_yield'')"

definition sys_getlev :: "policy \<Rightarrow> ('z cst_scheme, int) kop" where
  "sys_getlev pol = (if is_mlfq pol then getlev pol else ret 0)"

definition sys_setpriority :: "policy \<Rightarrow> ('z cst_scheme, int) kop" where
  "sys_setpriority pol =
     (if is_mlfq pol then
        bindK (argint 0) (\<lambda>a. case a of None \<Rightarrow> ret (-1) | Some pid \<Rightarrow>
        bindK (argint 1) (\<lambda>b. case b of None \<Rightarrow> ret (-1) | Some priority \<Rightarrow>
        if sint priority < 0 \<or> sint priority > 10 then ret (-2)
        else setpriority pol (sint pid) (sint priority)))
      else ret 0)"

text \<open>The thread functions of proc.c: their bodies are commented out.\<close>

definition thread_create :: "u32 \<Rightarrow> u32 \<Rightarrow> u32 \<Rightarrow> ('z cst_scheme, int) kop" where
  "thread_create thread start_routine arg = ret 0"

definition thread_exit :: "u32 \<Rightarrow> ('z cst_scheme, unit) kop" where
  "thread_exit retval = ret ()"

definition thread_join :: "u32 \<Rightarrow> u32 \<Rightarrow> ('z cst_scheme, int) kop" where
  "thread_join thread retval = ret 0"

definition sys_thread_create :: "('z cst_scheme, int) kop" where
  "sys_thread_create =
     bindK (argptr 0 4) (\<lambda>a. case a of None \<Rightarrow> ret (-1) | Some thread \<Rightarrow>
     bindK (argptr 1 4) (\<lambda>b. case b of None \<Rightarrow> ret (-1) | Some start_routine \<Rightarrow>
     bindK (argptr 2 4) (\<lambda>c. case c of None \<Rightarrow> ret (-1) | Some arg \<Rightarrow>
     thread_create thread start_routine arg)))"

definition sys_thread_exit :: "('z cst_scheme, int) kop" where
  "sys_thread_exit =
     bindK (argptr 0 4) (\<lambda>a. case a of None \<Rightarrow> ret (-1) | Some retval \<Rightarrow> seqK (thread_exit retval) (ret 0))"

definition sys_thread_join :: "('z cst_scheme, int) kop" where
  "sys_thread_join =
     bindK (argint 0) (\<lambda>a. case a of None \<Rightarrow> ret (-1) | Some thread \<Rightarrow>
     bindK (argptr 1 4) (\<lambda>b. case b of None \<Rightarrow> ret (-1) | Some retval \<Rightarrow> thread_join thread retval))"

section \<open>prac_syscall.c\<close>

text \<open>The result \<^verbatim>\<open>0xABCDABCD\<close> as an \<^verbatim>\<open>int\<close>.\<close>

definition myfunction :: "byte list \<Rightarrow> ('z cst_scheme, int) kop" where
  "myfunction str = seqK (kprint (cprintf (\<lambda>_. str) (lit ''%s'' @ [10]) (\<lambda>_. 1))) (ret (sint (0xABCDABCD :: u32)))"

definition sys_myfunction :: "('z cst_scheme, int) kop" where
  "sys_myfunction = bindK (argstr 0) (\<lambda>a. case a of None \<Rightarrow> ret (-1) | Some str \<Rightarrow> myfunction str)"

section \<open>The dispatcher\<close>

definition syscall_table :: "policy \<Rightarrow> ('z cst_scheme, int) kop list" where
  "syscall_table pol = [sys_fork pol, sys_exit, sys_wait, sys_pipe, sys_read console_devsw, sys_kill,
     sys_exec console_devsw, sys_fstat, sys_chdir console_devsw, sys_dup, sys_getpid, sys_sbrk, sys_sleep pol, sys_uptime,
     sys_open console_devsw, sys_write console_devsw, sys_mknod console_devsw, sys_unlink console_devsw,
     sys_link console_devsw, sys_mkdir console_devsw, sys_close, sys_myfunction, sys_getppid, sys_yield pol, sys_test,
     sys_getlev pol, sys_setpriority pol, sys_thread_create, sys_thread_exit, sys_thread_join, sys_usysinit console_devsw,
     sys_addUser console_devsw, sys_fork2 pol, sys_deleteUser console_devsw, sys_accountcheck, sys_chmod console_devsw]"

text \<open>\<^verbatim>\<open>syscalls[num]\<close>: entry 0 is the null pointer.\<close>

definition syscalls :: "policy \<Rightarrow> int \<Rightarrow> ('z cst_scheme, int) kop option" where
  "syscalls pol num = (if 0 < num \<and> num \<le> 36 then Some (syscall_table pol ! (nat num - 1)) else None)"

definition set_eax :: "nat \<Rightarrow> int \<Rightarrow> ('z cst_scheme, unit) kop" where
  "set_eax p v = upd_proc p (\<lambda>q. q\<lparr>p_tf := (p_tf q)\<lparr>tf_eax := word_of_int v\<rparr>\<rparr>)"

definition syscall :: "policy \<Rightarrow> ('z cst_scheme, unit) kop" where
  "syscall pol =
     bindK myproc (\<lambda>me.
     bindK (gets (proc_at me)) (\<lambda>p.
     case syscalls pol (sint (tf_eax (p_tf p))) of
       Some f \<Rightarrow> bindK f (set_eax me)
     | None \<Rightarrow>
         seqK (kprint (cprintf (proc_strings p) (lit ''%d %s: unknown sys call %d'' @ [10]) (\<lambda>k. [word_of_int (p_pid p), 2, tf_eax (p_tf p)] ! k)))
         (set_eax me (-1))))"

end
