(* ===== verification/Trap.thy ===== *)
theory Trap
  imports Syscall
begin

text \<open>
  trap.c: the handler of system calls, interrupts and faults. The trap frame is an argument; so is what
  the hardware provides to this trap: the number of the processor, the bytes the keyboard and the serial
  port deliver, the fault address, the return addresses found on kernel stacks. The acknowledgement to
  the interrupt controller is left out. \<open>trap_resume\<close> is what follows \<^verbatim>\<open>yield\<close>.
\<close>

definition T_SYSCALL :: u32 where "T_SYSCALL = 64"
definition T_IRQ0 :: u32 where "T_IRQ0 = 32"
definition T_PRACTICE :: u32 where "T_PRACTICE = 128"
definition IRQ_TIMER :: u32 where "IRQ_TIMER = 0"
definition IRQ_KBD :: u32 where "IRQ_KBD = 1"
definition IRQ_COM1 :: u32 where "IRQ_COM1 = 4"
definition IRQ_IDE :: u32 where "IRQ_IDE = 14"
definition IRQ_SPURIOUS :: u32 where "IRQ_SPURIOUS = 31"

lemmas trap_defs = T_SYSCALL_def T_IRQ0_def T_PRACTICE_def IRQ_TIMER_def IRQ_KBD_def IRQ_COM1_def IRQ_IDE_def IRQ_SPURIOUS_def

record hardware =
  hw_cpuid :: nat
  hw_kbd :: "byte list"
  hw_uart :: "byte list"
  hw_cr2 :: u32
  hw_pcs :: "proc \<Rightarrow> u32 list"

text \<open>\<^verbatim>\<open>if(myproc()->killed) exit();\<close> and the same test at the end of a trap from user space.\<close>

definition exit_if_killed :: "('z cst_scheme, unit) kop" where
  "exit_if_killed = bindK am_killed (\<lambda>k. if k then exit_proc else ret ())"

definition user_mode :: "trapframe \<Rightarrow> bool" where
  "user_mode tf \<longleftrightarrow> tf_cs tf AND 3 = 3"

definition exit_if_killed_user :: "trapframe \<Rightarrow> ('z cst_scheme, unit) kop" where
  "exit_if_killed_user tf =
     bindK (gets (\<lambda>s. case cur s of Some p \<Rightarrow> p_killed (proc_at p s) \<and> user_mode tf | None \<Rightarrow> False)) (\<lambda>k.
     if k then exit_proc else ret ())"

definition set_tf :: "trapframe \<Rightarrow> ('z cst_scheme, unit) kop" where
  "set_tf tf = bindK myproc (\<lambda>p. upd_proc p (\<lambda>q. q\<lparr>p_tf := tf\<rparr>))"

definition trap_syscall :: "policy \<Rightarrow> trapframe \<Rightarrow> ('z cst_scheme, unit) kop" where
  "trap_syscall pol tf = seqK exit_if_killed (seqK (set_tf tf) (seqK (syscall pol) exit_if_killed))"

definition killed_notice :: "('z cst_scheme, unit) kop" where
  "killed_notice = bindK am_killed (\<lambda>k. if k then seqK (kprint (lit ''myproc killed'' @ [10])) exit_proc else ret ())"

definition trap_practice :: "trapframe \<Rightarrow> ('z cst_scheme, unit) kop" where
  "trap_practice tf =
     seqK killed_notice
     (seqK (set_tf tf)
     (seqK (kprint (cprintf (\<lambda>_. []) (lit ''user interrupt %d called!'' @ [10]) (\<lambda>_. tf_trapno tf)))
     killed_notice))"

text \<open>The timer interrupt on processor 0.\<close>

definition timer_tick :: "policy \<Rightarrow> ('z cst_scheme, unit) kop" where
  "timer_tick pol =
     seqK (acq L_ticks)
     (seqK (modify (\<lambda>s. s\<lparr>ticks := ticks s + 1\<rparr>))
     (seqK (wakeup Ch_ticks)
     (seqK (if is_mlfq pol then
         seqK (bindK (gets cur) (\<lambda>c. if c \<noteq> None then update_tq pol else ret ()))
         (bindK (gets ticks) (\<lambda>t. if t mod 100 = 0 then priority_boost pol else ret ()))
       else ret ())
     (rel L_ticks))))"

definition unexpected :: "hardware \<Rightarrow> trapframe \<Rightarrow> ('z cst_scheme, unit) kop" where
  "unexpected hw tf =
     seqK (kprint (cprintf (\<lambda>_. []) (lit ''unexpected trap %d from cpu %d eip %x (cr2=0x%x)'' @ [10])
       (\<lambda>k. [tf_trapno tf, of_nat (hw_cpuid hw), tf_eip tf, hw_cr2 hw] ! k)))
     (panic ''trap'')"

definition trap_fault :: "hardware \<Rightarrow> trapframe \<Rightarrow> ('z cst_scheme, unit) kop" where
  "trap_fault hw tf =
     bindK (gets (\<lambda>s. map_option (\<lambda>p. (p, proc_at p s)) (cur s))) (\<lambda>me. case me of
       Some (p, q) \<Rightarrow>
         if tf_cs tf AND 3 = 0 then unexpected hw tf
         else
           seqK (kprint (cprintf (proc_strings q) (lit ''pid %d %s: trap %d err %d on cpu %d eip 0x%x addr 0x%x--kill proc'' @ [10])
             (\<lambda>k. [word_of_int (p_pid q), 2, tf_trapno tf, tf_err tf, of_nat (hw_cpuid hw), tf_eip tf, hw_cr2 hw] ! k)))
           (upd_proc p (\<lambda>q. q\<lparr>p_killed := True\<rparr>))
     | None \<Rightarrow> unexpected hw tf)"

definition trap_irq :: "policy \<Rightarrow> hardware \<Rightarrow> trapframe \<Rightarrow> ('z cst_scheme, unit) kop" where
  "trap_irq pol hw tf =
     (if tf_trapno tf = T_IRQ0 + IRQ_TIMER then (if hw_cpuid hw = 0 then timer_tick pol else ret ())
      else if tf_trapno tf = T_IRQ0 + IRQ_IDE then ret ()
      else if tf_trapno tf = T_IRQ0 + IRQ_IDE + 1 then ret ()
      else if tf_trapno tf = T_IRQ0 + IRQ_KBD then kbdintr (hw_pcs hw) (hw_kbd hw)
      else if tf_trapno tf = T_IRQ0 + IRQ_COM1 then uartintr (hw_pcs hw) (hw_uart hw)
      else if tf_trapno tf = T_IRQ0 + 7 \<or> tf_trapno tf = T_IRQ0 + IRQ_SPURIOUS then
        kprint (cprintf (\<lambda>_. []) (lit ''cpu%d: spurious interrupt at %x:%x'' @ [10]) (\<lambda>k. [of_nat (hw_cpuid hw), ucast (tf_cs tf), tf_eip tf] ! k))
      else trap_fault hw tf)"

text \<open>The process gives up the processor on a clock tick.\<close>

definition trap_yield :: "policy \<Rightarrow> trapframe \<Rightarrow> ('z cst_scheme, unit) kop" where
  "trap_yield pol tf =
     bindK (gets (\<lambda>s. map_option (\<lambda>p. proc_at p s) (cur s))) (\<lambda>me. case me of
       None \<Rightarrow> ret ()
     | Some q \<Rightarrow>
         if p_state q = RUNNING \<and> tf_trapno tf = T_IRQ0 + IRQ_TIMER then
           seqK (if is_mlfq pol \<and> p_tq q \<ge> p_qlvl q * 4 + 2 then qlvl_down pol else ret ())
           yield
         else ret ())"

definition trap :: "policy \<Rightarrow> hardware \<Rightarrow> trapframe \<Rightarrow> ('z cst_scheme, unit) kop" where
  "trap pol hw tf =
     (if tf_trapno tf = T_SYSCALL then trap_syscall pol tf
      else if tf_trapno tf = T_PRACTICE then trap_practice tf
      else
        seqK (trap_irq pol hw tf)
        (seqK (exit_if_killed_user tf)
        (seqK (trap_yield pol tf)
        (exit_if_killed_user tf))))"

definition trap_resume :: "trapframe \<Rightarrow> ('z cst_scheme, unit) kop" where
  "trap_resume tf = seqK (rel L_ptable) (exit_if_killed_user tf)"

section \<open>Clock ticks and the feedback queue\<close>

text \<open>What a clock tick does to the running process's time and level, and to everybody's on a boost.\<close>

definition tick_account :: "int \<times> int \<Rightarrow> int \<times> int" where
  "tick_account st = (case st of (tq, lev) \<Rightarrow> if tq + 1 \<ge> lev * 4 + 2 then (0, lev + 1) else (tq + 1, lev))"

lemma quantum: "0 \<le> lev \<Longrightarrow> int i < lev * 4 + 2 \<Longrightarrow> (tick_account ^^ i) (0, lev) = (int i, lev)"
  by (induction i) (auto simp: tick_account_def)

lemma quantum_end: "0 \<le> lev \<Longrightarrow> (tick_account ^^ nat (lev * 4 + 2)) (0, lev) = (0, lev + 1)"
proof -
  assume "0 \<le> lev"
  then have n: "nat (lev * 4 + 2) = Suc (nat (lev * 4 + 1))" "int (nat (lev * 4 + 1)) < lev * 4 + 2" by auto
  show ?thesis unfolding n(1) using quantum [OF \<open>0 \<le> lev\<close> n(2)] \<open>0 \<le> lev\<close> by (simp add: tick_account_def)
qed

definition boost :: "proc \<Rightarrow> proc" where
  "boost q = q\<lparr>p_tq := 0, p_qlvl := 0\<rparr>"

definition ticked :: "bool \<Rightarrow> nat \<Rightarrow> proc list \<Rightarrow> proc list" where
  "ticked b p ps = (if b then map boost else id) (upd_at p (\<lambda>q. q\<lparr>p_tq := p_tq q + 1\<rparr>) (map (wake_if (Some Ch_ticks)) ps))"

lemma timer_tick_eq:
  assumes "held s = []" "cur s = Some p"
  shows "timer_tick (MLFQ_SCHED k) s = Ret () (s\<lparr>ticks := ticks s + 1, procs := ticked ((ticks s + 1) mod 100 = 0) p (procs s)\<rparr>)"
proof -
  have "boost = (\<lambda>q. q\<lparr>p_tq := 0, p_qlvl := 0\<rparr>)" by (simp add: fun_eq_iff boost_def)
  then show ?thesis using assms
    by (simp add: timer_tick_def lock_simps is_mlfq_def wakeup_eq update_tq_def priority_boost_def upd_proc_def ticked_def bindK_def seqK_def)
qed

lemma ticked_nth:
  assumes "j < length ps"
  shows "ticked b p ps ! j =
    (let q = wake_if (Some Ch_ticks) (ps ! j); q = if j = p then q\<lparr>p_tq := p_tq q + 1\<rparr> else q in if b then boost q else q)"
  using assms by (simp add: ticked_def nth_upd_at Let_def)

lemma length_ticked [simp]: "length (ticked b p ps) = length ps"
  by (simp add: ticked_def)

text \<open>
  C28. Time accounting of the feedback queue. A clock interrupt of processor 0 that stops a running user
  process counts the tick, wakes the processes whose sleep depends on it, and gives up the processor with
  the process runnable. The process's time and level become \<open>tick_account\<close> of what they were: it runs
  through exactly \<open>4 * lev + 2\<close> ticks of level \<open>lev\<close> and then starts the next level; every hundredth tick all
  processes return to level 0. Other processes keep their time and level otherwise.
\<close>

theorem timer_mlfq_accounting:
  assumes "held s = []" "cur s = Some p" "p < length (procs s)" "p_state (proc_at p s) = RUNNING" "\<not> p_killed (proc_at p s)"
    and "tf_trapno tf = T_IRQ0 + IRQ_TIMER" "hw_cpuid hw = 0"
  shows "(\<exists>t. trap (MLFQ_SCHED k) hw tf s = Swtch t \<and> ticks t = ticks s + 1 \<and> held t = [L_ptable] \<and> p_state (proc_at p t) = RUNNABLE
      \<and> (\<forall>j < length (procs s). (p_tq (proc_at j t), p_qlvl (proc_at j t)) =
           (if (ticks s + 1) mod 100 = 0 then (0, 0)
            else (if j = p then tick_account else id) (p_tq (proc_at j s), p_qlvl (proc_at j s))))
      \<and> (\<forall>j < length (procs s). j \<noteq> p \<longrightarrow> p_state (proc_at j t) =
           (if p_state (proc_at j s) = SLEEPING \<and> p_chan (proc_at j s) = Some Ch_ticks then RUNNABLE else p_state (proc_at j s))))
    \<and> (\<forall>lev i. 0 \<le> lev \<longrightarrow> int i < lev * 4 + 2 \<longrightarrow> (tick_account ^^ i) (0, lev) = (int i, lev))
    \<and> (\<forall>lev \<ge> 0. (tick_account ^^ nat (lev * 4 + 2)) (0, lev) = (0, lev + 1))"
proof (intro conjI allI impI)
  let ?b = "(ticks s + 1) mod 100 = 0"
  define ps where "ps = ticked ?b p (procs s)"
  define u where "u = s\<lparr>ticks := ticks s + 1, procs := ps\<rparr>"
  have w: "wake_if (Some Ch_ticks) (procs s ! p) = procs s ! p" using assms(4) by (simp add: wake_if_def proc_at_def)
  have q: "p_state (ps ! p) = RUNNING" "\<not> p_killed (ps ! p)"
    "p_tq (ps ! p) = (if ?b then 0 else p_tq (procs s ! p) + 1)" "p_qlvl (ps ! p) = (if ?b then 0 else p_qlvl (procs s ! p))"
    using ticked_nth [OF assms(3), of ?b p] assms(4,5) w by (simp_all add: ps_def boost_def proc_at_def Let_def)
  define down where "down \<longleftrightarrow> p_tq (ps ! p) \<ge> p_qlvl (ps ! p) * 4 + 2"
  define ps' where "ps' = upd_at p (\<lambda>q. q\<lparr>p_state := RUNNABLE\<rparr>)
     (if down then upd_at p (\<lambda>q. q\<lparr>p_qlvl := p_qlvl q + 1\<rparr>) (upd_at p (\<lambda>q. q\<lparr>p_tq := 0\<rparr>) ps) else ps)"
  have len: "length ps = length (procs s)" by (simp add: ps_def)
  have irq: "trap_irq (MLFQ_SCHED k) hw tf s = Ret () u"
    using assms(6,7) timer_tick_eq [OF assms(1,2)] by (simp add: trap_irq_def u_def ps_def)
  have kill: "exit_if_killed_user tf u = Ret () u"
    using q(2) assms(2) by (simp add: exit_if_killed_user_def bindK_def u_def proc_at_def)
  have yld: "trap_yield (MLFQ_SCHED k) tf u = Swtch (u\<lparr>held := [L_ptable], procs := ps'\<rparr>)"
    using q(1) assms(1-3,6) len
    by (simp add: trap_yield_def bindK_def seqK_def u_def proc_at_def is_mlfq_def qlvl_down_def lock_simps upd_proc_def yield_def sched_def
        ps'_def down_def)
  have run: "trap (MLFQ_SCHED k) hw tf s = Swtch (u\<lparr>held := [L_ptable], procs := ps'\<rparr>)"
    using assms(6) irq kill yld by (simp add: trap_def trap_defs)
  show "\<exists>t. trap (MLFQ_SCHED k) hw tf s = Swtch t \<and> ticks t = ticks s + 1 \<and> held t = [L_ptable] \<and> p_state (proc_at p t) = RUNNABLE
      \<and> (\<forall>j < length (procs s). (p_tq (proc_at j t), p_qlvl (proc_at j t)) =
           (if (ticks s + 1) mod 100 = 0 then (0, 0)
            else (if j = p then tick_account else id) (p_tq (proc_at j s), p_qlvl (proc_at j s))))
      \<and> (\<forall>j < length (procs s). j \<noteq> p \<longrightarrow> p_state (proc_at j t) =
           (if p_state (proc_at j s) = SLEEPING \<and> p_chan (proc_at j s) = Some Ch_ticks then RUNNABLE else p_state (proc_at j s)))"
  proof (intro exI conjI allI impI, fact run)
    fix j assume j: "j < length (procs s)"
    have other: "ps' ! j = ps ! j" if "j \<noteq> p" using that by (simp add: ps'_def)
    show "(p_tq (proc_at j (u\<lparr>held := [L_ptable], procs := ps'\<rparr>)), p_qlvl (proc_at j (u\<lparr>held := [L_ptable], procs := ps'\<rparr>))) =
        (if ?b then (0, 0) else (if j = p then tick_account else id) (p_tq (proc_at j s), p_qlvl (proc_at j s)))"
    proof (cases "j = p")
      case True
      then show ?thesis using q(3,4) assms(3) len by (simp add: proc_at_def ps'_def down_def tick_account_def)
    next
      case False
      then show ?thesis using other ticked_nth [OF j, of ?b p] by (simp add: proc_at_def ps_def boost_def wake_if_def Let_def)
    qed
    show "p_state (proc_at j (u\<lparr>held := [L_ptable], procs := ps'\<rparr>)) =
        (if p_state (proc_at j s) = SLEEPING \<and> p_chan (proc_at j s) = Some Ch_ticks then RUNNABLE else p_state (proc_at j s))" if "j \<noteq> p"
      using other [OF that] ticked_nth [OF j, of ?b p] that by (simp add: proc_at_def ps_def boost_def wake_if_def Let_def)
  qed (use assms(3) len in \<open>simp_all add: u_def proc_at_def ps'_def\<close>)
qed (use quantum quantum_end in blast)+

theorem timer_mlfq_accounting_witness:
  "\<exists>t. trap (MLFQ_SCHED 3) \<lparr>hw_cpuid = 0, hw_kbd = [], hw_uart = [], hw_cr2 = 0, hw_pcs = (\<lambda>_. [])\<rparr> (zero_tf\<lparr>tf_trapno := 32\<rparr>) idle_con = Swtch t
     \<and> p_tq (proc_at 0 t) = 1 \<and> (tick_account ^^ 6) (0, 1) = (0, 2)"
proof -
  let ?hw = "\<lparr>hw_cpuid = 0, hw_kbd = [], hw_uart = [], hw_cr2 = 0, hw_pcs = (\<lambda>_. [])\<rparr>" and ?tf = "zero_tf\<lparr>tf_trapno := 32\<rparr>"
  have p: "procs idle_con = [demo_proc 1 RUNNING, demo_proc 2 RUNNABLE]" "cur idle_con = Some 0" "ticks idle_con = 0"
    by (simp_all add: idle_con_def demo_con_defs demo_fs_def lst.defs rebooted_def bst.defs booted_def)
  have h: "0 < length (procs idle_con)" "p_state (proc_at 0 idle_con) = RUNNING" "\<not> p_killed (proc_at 0 idle_con)"
    "tf_trapno ?tf = T_IRQ0 + IRQ_TIMER" "hw_cpuid ?hw = 0"
    by (simp_all add: p proc_at_def demo_proc_def zero_proc_def trap_defs)
  note m = timer_mlfq_accounting [OF idle_con_ok(2) p(2) h]
  have "tick_account (p_tq (proc_at 0 idle_con), p_qlvl (proc_at 0 idle_con)) = (1, 0)"
    by (simp add: p proc_at_def demo_proc_def zero_proc_def tick_account_def)
  with m [of 3] h(1) p(3) have "\<exists>t. trap (MLFQ_SCHED 3) ?hw ?tf idle_con = Swtch t \<and> p_tq (proc_at 0 t) = 1" by auto
  moreover have "\<forall>lev \<ge> 0. (tick_account ^^ nat (lev * 4 + 2)) (0, lev) = (0, lev + 1)" using m [of 3] by blast
  then have "(tick_account ^^ nat (1 * 4 + 2)) (0, 1) = (0, 1 + 1)" by (rule allE [of _ 1]) simp
  ultimately show ?thesis by simp
qed

end
